(* ===== verification/Prelude.thy ===== *)
theory Prelude
  imports Complex_Main "HOL-Library.AList" "HOL-Library.Multiset"
begin

text \<open>
  What the components share: the exceptions of the Python sources as values, the exception
  monad in which fallible code is written, insertion-ordered dictionaries (Python's
  \<open>dict\<close>) as association lists behind the locale \<open>ordered_dict\<close>, and the list
  lemmas that more than one component needs.
\<close>

named_theorems py_defs \<open>definitions that a proof about one component unfolds together\<close>
named_theorems res_simps \<open>rewriting of the exception monad\<close>

section \<open>Exceptions and the exception monad\<close>

text \<open>
  One constructor per exception class the sources raise or let through; the string is the
  message, shortened to the part the sources write literally.
\<close>

datatype py_error =
    ValueError string
  | OverflowError string
  | KeyError string
  | CsvError string
  | StructError string
  | TypeError string
  | IndexError string
  | ZeroDivisionError string
  | AttributeError string
  | CalledProcessError string
  | OSError string

type_synonym 'a res = "py_error + 'a"

definition res_bind :: "'a res \<Rightarrow> ('a \<Rightarrow> 'b res) \<Rightarrow> 'b res" where
  "res_bind m f = (case m of Inl e \<Rightarrow> Inl e | Inr x \<Rightarrow> f x)"

text \<open>A list comprehension whose body may raise: the first exception ends it.\<close>

fun res_mapM :: "('a \<Rightarrow> 'b res) \<Rightarrow> 'a list \<Rightarrow> 'b list res" where
  "res_mapM f [] = Inr []"
| "res_mapM f (x # xs) = res_bind (f x) (\<lambda>y. res_bind (res_mapM f xs) (\<lambda>ys. Inr (y # ys)))"

lemma res_bind_simps [simp, res_simps]:
  "res_bind (Inl e) f = Inl e"
  "res_bind (Inr x) f = f x"
  by (simp_all add: res_bind_def)

lemma res_bind_Inr_conv [res_simps]:
  "res_bind m f = Inr y \<longleftrightarrow> (\<exists>x. m = Inr x \<and> f x = Inr y)"
  by (cases m) simp_all

lemma res_bind_Inl_conv [res_simps]:
  "res_bind m f = Inl e \<longleftrightarrow> m = Inl e \<or> (\<exists>x. m = Inr x \<and> f x = Inl e)"
  by (cases m) simp_all

lemma res_mapM_Inr_iff:
  "res_mapM f xs = Inr ys \<longleftrightarrow> list_all2 (\<lambda>x y. f x = Inr y) xs ys"
  by (induction xs arbitrary: ys)
    (auto simp: res_bind_Inr_conv list_all2_Cons1)

lemma res_mapM_length: "res_mapM f xs = Inr ys \<Longrightarrow> length ys = length xs"
  by (simp add: res_mapM_Inr_iff list_all2_lengthD)

lemma res_mapM_map:
  "(\<And>x. x \<in> set xs \<Longrightarrow> f x = Inr (g x)) \<Longrightarrow> res_mapM f xs = Inr (map g xs)"
  by (induction xs) simp_all

lemma res_mapM_map_map:
  "(\<And>x. x \<in> set xs \<Longrightarrow> f (g x) = Inr (h x)) \<Longrightarrow> res_mapM f (map g xs) = Inr (map h xs)"
  by (induction xs) simp_all

lemma res_mapM_cong [fundef_cong]:
  "xs = ys \<Longrightarrow> (\<And>x. x \<in> set ys \<Longrightarrow> f x = g x) \<Longrightarrow> res_mapM f xs = res_mapM g ys"
  by (induction xs arbitrary: ys) auto

lemma res_mapM_Inl:
  "res_mapM f xs = Inl e \<Longrightarrow>
     \<exists>ys x zs. xs = ys @ x # zs \<and> f x = Inl e \<and> (\<forall>y \<in> set ys. \<exists>b. f y = Inr b)"
proof (induction xs)
  case Nil
  then show ?case by simp
next
  case (Cons a as)
  show ?case
  proof (cases "f a")
    case (Inl e')
    with Cons.prems have "f a = Inl e" by simp
    then show ?thesis by (intro exI [of _ "[]"] exI [of _ a] exI [of _ as]) simp
  next
    case (Inr b)
    with Cons.prems have "res_mapM f as = Inl e" by (simp add: res_bind_Inl_conv)
    from Cons.IH [OF this] obtain ys x zs where
      "as = ys @ x # zs" "f x = Inl e" "\<forall>y \<in> set ys. \<exists>b. f y = Inr b" by blast
    with Inr show ?thesis
      by (intro exI [of _ "a # ys"] exI [of _ x] exI [of _ zs]) simp
  qed
qed

section \<open>Insertion-ordered dictionaries\<close>

text \<open>
  Python's \<open>dict\<close> keeps the order in which keys were first stored. The locale states
  what clients use: \<open>d.get(k)\<close>, \<open>d[k] = v\<close> and the key order. Two client idioms
  of the sources are proved once here: \<open>d[k] = d.get(k, 0) + v\<close> in a loop (histograms,
  merged counters) and \<open>d.setdefault(k, []).append(x)\<close> in a loop (grouping).
\<close>

locale ordered_dict =
  fixes emp :: "'d"
    and get :: "'d \<Rightarrow> 'k \<Rightarrow> 'v option"
    and put :: "'d \<Rightarrow> 'k \<Rightarrow> 'v \<Rightarrow> 'd"
    and keys :: "'d \<Rightarrow> 'k list"
  assumes get_emp: "get emp = (\<lambda>_. None)"
    and get_put: "get (put d k v) = (get d)(k \<mapsto> v)"
    and keys_emp: "keys emp = []"
    and keys_put: "keys (put d k v) = (if k \<in> set (keys d) then keys d else keys d @ [k])"
    and keys_dom: "set (keys d) = dom (get d)"
begin

lemma keys_fold_put:
  "distinct (keys d) \<Longrightarrow> distinct (keys (foldl (\<lambda>d x. put d (f x) (g d x)) d xs))"
  by (induction xs arbitrary: d) (simp_all add: keys_put)

lemma set_keys_fold_put:
  "set (keys (foldl (\<lambda>d x. put d (f x) (g d x)) d xs)) = set (keys d) \<union> f ` set xs"
  by (induction xs arbitrary: d) (auto simp: keys_put)

end

text \<open>The grouping idiom needs values that are lists.\<close>

locale group_dict = ordered_dict emp get put keys
  for emp :: "'d" and get :: "'d \<Rightarrow> 'k \<Rightarrow> 'x list option"
    and put :: "'d \<Rightarrow> 'k \<Rightarrow> 'x list \<Rightarrow> 'd" and keys :: "'d \<Rightarrow> 'k list"
begin

lemma fold_group:
  "get (foldl (\<lambda>d x. put d (f x) (case get d (f x) of None \<Rightarrow> [g x] | Some ys \<Rightarrow> ys @ [g x])) d xs) k
   = (case filter (\<lambda>x. f x = k) xs of
        [] \<Rightarrow> get d k
      | zs \<Rightarrow> Some ((case get d k of None \<Rightarrow> [] | Some ys \<Rightarrow> ys) @ map g zs))"
  by (induction xs arbitrary: d) (auto simp: get_put split: list.splits option.splits)

end

text \<open>The tally idiom needs values that add up.\<close>

locale tally_dict = ordered_dict emp get put keys
  for emp :: "'d" and get :: "'d \<Rightarrow> 'k \<Rightarrow> 'v::comm_monoid_add option"
    and put :: "'d \<Rightarrow> 'k \<Rightarrow> 'v \<Rightarrow> 'd" and keys :: "'d \<Rightarrow> 'k list"
begin

lemma fold_tally:
  "get (foldl (\<lambda>d x. put d (f x) ((case get d (f x) of None \<Rightarrow> 0 | Some c \<Rightarrow> c) + g x)) d xs) k
   = (if k \<in> f ` set xs \<or> get d k \<noteq> None
      then Some ((case get d k of None \<Rightarrow> 0 | Some c \<Rightarrow> c)
                 + sum_list (map g (filter (\<lambda>x. f x = k) xs)))
      else None)"
  by (induction xs arbitrary: d) (auto simp: get_put ac_simps split: option.splits)

end

type_synonym ('k, 'v) dict = "('k \<times> 'v) list"

definition dict_get :: "('k, 'v) dict \<Rightarrow> 'k \<Rightarrow> 'v option" where
  "dict_get d k = map_of d k"

definition dict_put :: "('k, 'v) dict \<Rightarrow> 'k \<Rightarrow> 'v \<Rightarrow> ('k, 'v) dict" where
  "dict_put d k v = AList.update k v d"

definition dict_keys :: "('k, 'v) dict \<Rightarrow> 'k list" where
  "dict_keys d = map fst d"

definition dict_get_or :: "('k, 'v) dict \<Rightarrow> 'k \<Rightarrow> 'v \<Rightarrow> 'v" where
  "dict_get_or d k v = (case dict_get d k of None \<Rightarrow> v | Some w \<Rightarrow> w)"

interpretation od: ordered_dict "[]" dict_get dict_put dict_keys
  by unfold_locales
    (simp_all add: dict_get_def [abs_def] dict_put_def dict_keys_def update_conv' update_keys
       dom_map_of_conv_image_fst)

interpretation gd: group_dict "[]" dict_get "dict_put :: _ \<Rightarrow> _ \<Rightarrow> 'x list \<Rightarrow> _" dict_keys
  by unfold_locales

interpretation td: tally_dict "[]" dict_get "dict_put :: _ \<Rightarrow> _ \<Rightarrow> 'v::comm_monoid_add \<Rightarrow> _" dict_keys
  by unfold_locales

lemma dict_get_simps [simp]:
  "dict_get [] k = None"
  "dict_get ((a, b) # d) k = (if k = a then Some b else dict_get d k)"
  by (simp_all add: dict_get_def)

lemma dict_get_map:
  "dict_get (map (\<lambda>k. (k, f k)) ks) k = (if k \<in> set ks then Some (f k) else None)"
  by (induction ks) auto

lemma dict_put_new: "k \<notin> set (dict_keys d) \<Longrightarrow> dict_put d k v = d @ [(k, v)]"
  by (induction d) (auto simp: dict_put_def dict_keys_def)

section \<open>Lists\<close>

text \<open>\<open>lst.index(x)\<close>: the position of the first occurrence.\<close>

fun list_index :: "'a list \<Rightarrow> 'a \<Rightarrow> nat" where
  "list_index [] x = 0"
| "list_index (y # ys) x = (if x = y then 0 else Suc (list_index ys x))"

lemma list_index_less: "x \<in> set xs \<Longrightarrow> list_index xs x < length xs"
  by (induction xs) auto

lemma list_index_nth: "x \<in> set xs \<Longrightarrow> xs ! list_index xs x = x"
  by (induction xs) auto

lemma list_index_inj: "x \<in> set xs \<Longrightarrow> y \<in> set xs \<Longrightarrow> list_index xs x = list_index xs y \<Longrightarrow> x = y"
  by (metis list_index_nth)

lemma sum_list_map_eq_length_filter:
  "sum_list (map (\<lambda>x. if P x then 1 else 0) xs) = length (filter P xs)"
  by (induction xs) auto

lemma length_filter_partition:
  "length (filter P xs) + length (filter (\<lambda>x. \<not> P x) xs) = length xs"
  by (rule sum_length_filter_compl)

lemma card_set_le_length: "card (set xs) \<le> length xs"
  by (rule card_length)

text \<open>Counting elements class by class counts all of them.\<close>

lemma sum_length_filter_classes:
  assumes "distinct ks" and "f ` set xs \<subseteq> set ks"
  shows "sum_list (map (\<lambda>k. length (filter (\<lambda>x. f x = k) xs)) ks) = length xs"
  using assms
proof (induction xs)
  case Nil
  then show ?case by (simp add: sum_list_0)
next
  case (Cons x xs)
  let ?c = "\<lambda>k. length (filter (\<lambda>y. f y = k) xs)"
  have "sum_list (map (\<lambda>k. length (filter (\<lambda>y. f y = k) (x # xs))) ks)
      = sum_list (map (\<lambda>k. (if k = f x then 1 else 0) + ?c k) ks)"
    by (intro arg_cong [where f = sum_list] map_cong) auto
  also have "\<dots> = sum_list (map (\<lambda>k. if k = f x then 1 else 0) ks) + sum_list (map ?c ks)"
    by (simp add: sum_list_addf)
  also have "sum_list (map (\<lambda>k. if k = f x then 1 else 0) ks) = (1::nat)"
  proof -
    have "length (filter (\<lambda>k. k = f x) ks) = 1"
      using Cons.prems by (simp add: distinct_length_filter)
    then show ?thesis by (simp add: sum_list_map_eq_length_filter)
  qed
  finally show ?case using Cons by simp
qed

lemma sum_count_list:
  assumes "distinct ks" and "set xs \<subseteq> set ks"
  shows "sum_list (map (count_list xs) ks) = length xs"
proof -
  have "count_list xs = (\<lambda>k. length (filter (\<lambda>x. id x = k) xs))"
    by (auto simp: fun_eq_iff count_list_eq_length_filter intro!: arg_cong [where f = length] filter_cong)
  then show ?thesis using sum_length_filter_classes [of ks id xs] assms by (simp only:) simp
qed

text \<open>\<open>sep.join(xs)\<close>.\<close>

fun join :: "'a list \<Rightarrow> 'a list list \<Rightarrow> 'a list" where
  "join sep [] = []"
| "join sep [x] = x"
| "join sep (x # y # zs) = x @ sep @ join sep (y # zs)"

lemma join_Cons: "join sep (x # xs) = x @ concat (map (\<lambda>y. sep @ y) xs)"
  by (induction xs arbitrary: x) auto

lemma set_join: "set (join sep xs) \<subseteq> set sep \<union> \<Union> (set ` set xs)"
  by (induction sep xs rule: join.induct) auto

end
