(* ===== verification/Float64.thy ===== *)
theory Float64
  imports Prelude "HOL-Library.Log_Nat"
begin

text \<open>
  Python's \<open>float\<close> and NumPy's \<open>float64\<close>: IEEE 754 binary64 with rounding to
  nearest, ties to even. A finite non-zero value is the rational number it denotes; the two
  zeros, the infinities and NaN are values of their own. Every arithmetic operation computes
  the exact rational result and rounds it once (\<open>rnd\<close>), which is what the standard
  requires. The lemmas below are what the components use: rounding is monotone, it leaves
  representable numbers alone, and it is odd; so a bound by representable numbers on an exact
  result is a bound on the computed one.
\<close>

section \<open>Rounding\<close>

text \<open>The exponent of a positive rational: \<open>2 powi (ilog2 x) \<le> x < 2 powi (ilog2 x + 1)\<close>.\<close>

definition ilog2 :: "rat \<Rightarrow> int" where
  "ilog2 x = (let (n, d) = quotient_of x; k = bitlen n - bitlen d
              in if 2 powi k \<le> x then k else k - 1)"

text \<open>Round to the nearest integer, ties to the even one.\<close>

definition rne :: "rat \<Rightarrow> int" where
  "rne x = (let f = \<lfloor>x\<rfloor>; d = x - of_int f
            in if d < 1/2 then f else if 1/2 < d then f + 1 else if even f then f else f + 1)"

text \<open>The exponent of the last of the 53 significant bits, at least that of the subnormals.\<close>

definition ulp_exp :: "rat \<Rightarrow> int" where
  "ulp_exp x = max (-1074) (ilog2 \<bar>x\<bar> - 52)"

definition rnd :: "rat \<Rightarrow> rat" where
  "rnd x = (if x = 0 then 0
            else of_int (rne (x / 2 powi (ulp_exp x))) * 2 powi (ulp_exp x))"

lemma bitlen_powi_bounds:
  assumes "0 < n"
  shows "2 powi (bitlen n - 1) \<le> (of_int n :: rat)" and "(of_int n :: rat) < 2 powi (bitlen n)"
proof -
  have b: "2 ^ nat (bitlen n - 1) \<le> n" "n < 2 ^ nat (bitlen n)" and pos: "0 < bitlen n"
    using bitlen_bounds [OF assms] bitlen_nonneg [of n] assms by (auto simp: le_less)
  have "(of_int (2 ^ nat (bitlen n - 1)) :: rat) \<le> of_int n"
    using b(1) by (simp only: of_int_le_iff)
  then show "2 powi (bitlen n - 1) \<le> (of_int n :: rat)"
    using pos by (simp add: power_int_def)
  have "(of_int n :: rat) < of_int (2 ^ nat (bitlen n))"
    using b(2) by (simp only: of_int_less_iff)
  then show "(of_int n :: rat) < 2 powi (bitlen n)"
    using pos by (simp add: power_int_def)
qed

lemma powi2_pos [simp]: "0 < (2::rat) powi k"
  by simp

lemma powi2_le_iff [simp]: "(2::rat) powi a \<le> 2 powi b \<longleftrightarrow> a \<le> b"
  by (metis linorder_not_less numeral_One one_le_numeral one_less_numeral_iff
      power_int_increasing power_int_strict_increasing semiring_norm(76))

lemma powi2_less_iff [simp]: "(2::rat) powi a < 2 powi b \<longleftrightarrow> a < b"
  by (metis linorder_not_less powi2_le_iff)

lemma powi2_add: "(2::rat) powi (a + b) = 2 powi a * 2 powi b"
  by (simp add: power_int_add)

lemma ilog2_bounds:
  assumes "0 < x"
  shows "2 powi (ilog2 x) \<le> x" and "x < 2 powi (ilog2 x + 1)"
proof -
  obtain n d where q: "quotient_of x = (n, d)" by (cases "quotient_of x")
  have d: "0 < d" using q by (rule quotient_of_denom_pos)
  have x: "x = of_int n / of_int d" using q by (rule quotient_of_div)
  then have n: "0 < n" using assms d by (simp add: zero_less_divide_iff)
  let ?k = "bitlen n - bitlen d"
  note nb = bitlen_powi_bounds [OF n] and db = bitlen_powi_bounds [OF d]
  have "x < 2 powi (bitlen n) / of_int d"
    unfolding x using nb(2) d by (simp add: divide_strict_right_mono)
  also have "\<dots> \<le> 2 powi (bitlen n) / 2 powi (bitlen d - 1)"
    by (rule divide_left_mono) (use db(1) d in simp_all)
  also have "\<dots> = 2 powi (?k + 1)"
    by (simp add: power_int_diff power_int_add)
  finally have hi: "x < 2 powi (?k + 1)" .
  have "2 powi (?k - 1) = (2::rat) powi (bitlen n - 1) / 2 powi (bitlen d)"
    by (simp add: power_int_diff)
  also have "\<dots> \<le> 2 powi (bitlen n - 1) / of_int d"
    by (rule divide_left_mono) (use db(2) d in simp_all)
  also have "\<dots> \<le> x"
    unfolding x using nb(1) d by (simp add: divide_right_mono)
  finally have lo: "2 powi (?k - 1) \<le> x" .
  from lo hi show "2 powi (ilog2 x) \<le> x" and "x < 2 powi (ilog2 x + 1)"
    unfolding ilog2_def q by (simp_all add: Let_def)
qed

lemma ilog2_unique:
  assumes "2 powi k \<le> x" and "x < 2 powi (k + 1)"
  shows "ilog2 x = k"
proof -
  have pos: "0 < x" using assms(1) powi2_pos [of k] by linarith
  note b = ilog2_bounds [OF pos]
  have "(2::rat) powi k < 2 powi (ilog2 x + 1)" using assms(1) b(2) by (rule le_less_trans)
  moreover have "(2::rat) powi (ilog2 x) < 2 powi (k + 1)" using b(1) assms(2) by (rule le_less_trans)
  ultimately show ?thesis by simp
qed

lemma ilog2_mono:
  assumes "0 < x" and "x \<le> y"
  shows "ilog2 x \<le> ilog2 y"
proof -
  have y: "0 < y" using assms by linarith
  have "2 powi (ilog2 x) \<le> x" using assms(1) by (rule ilog2_bounds)
  also note assms(2)
  also have "y < 2 powi (ilog2 y + 1)" using y by (rule ilog2_bounds)
  finally show ?thesis by simp
qed

lemma ilog2_ge_iff:
  assumes "0 < x"
  shows "2 powi k \<le> x \<longleftrightarrow> k \<le> ilog2 x"
proof
  assume "2 powi k \<le> x"
  also have "x < 2 powi (ilog2 x + 1)" using assms by (rule ilog2_bounds)
  finally show "k \<le> ilog2 x" by simp
next
  assume "k \<le> ilog2 x"
  then have "(2::rat) powi k \<le> 2 powi (ilog2 x)" by simp
  also have "\<dots> \<le> x" using assms by (rule ilog2_bounds)
  finally show "2 powi k \<le> x" .
qed

lemma rne_of_int [simp]: "rne (of_int n) = n"
  by (simp add: rne_def)

lemma rne_numeral [simp]: "rne (numeral n) = numeral n" "rne 0 = 0" "rne 1 = 1"
  using rne_of_int [of "numeral n"] rne_of_int [of 0] rne_of_int [of 1] by simp_all

lemma rne_floor_bounds: "\<lfloor>x\<rfloor> \<le> rne x" "rne x \<le> \<lfloor>x\<rfloor> + 1"
  by (simp_all add: rne_def Let_def)

lemma rne_mono:
  assumes "x \<le> y"
  shows "rne x \<le> rne y"
proof (cases "\<lfloor>x\<rfloor> = \<lfloor>y\<rfloor>")
  case True
  then show ?thesis using assms by (auto simp: rne_def Let_def)
next
  case False
  then have "\<lfloor>x\<rfloor> + 1 \<le> \<lfloor>y\<rfloor>" using floor_mono [OF assms] by linarith
  then show ?thesis using rne_floor_bounds [of x] rne_floor_bounds [of y] by linarith
qed

lemma rne_le_of_int: "x \<le> of_int n \<Longrightarrow> rne x \<le> n"
  using rne_mono [of x "of_int n"] by simp

lemma rne_ge_of_int: "of_int n \<le> x \<Longrightarrow> n \<le> rne x"
  using rne_mono [of "of_int n" x] by simp

lemma rne_error: "\<bar>of_int (rne x) - x\<bar> \<le> 1/2"
proof -
  have "of_int \<lfloor>x\<rfloor> \<le> x" "x < of_int \<lfloor>x\<rfloor> + 1" by (simp_all add: floor_less_cancel)
  then show ?thesis by (auto simp: rne_def Let_def abs_le_iff)
qed

lemma rne_uminus: "rne (- x) = - rne x"
proof (cases "x = of_int \<lfloor>x\<rfloor>")
  case True
  then obtain n where "x = of_int n" by blast
  then show ?thesis using rne_of_int [of "- n"] by simp
next
  case False
  have lt: "of_int \<lfloor>x\<rfloor> < x" using False of_int_floor_le [of x] by linarith
  have ub: "x < of_int \<lfloor>x\<rfloor> + 1" by linarith
  have "\<lfloor>- x\<rfloor> = - \<lfloor>x\<rfloor> - 1"
    by (rule floor_unique) (use lt ub in simp_all)
  then show ?thesis using lt ub by (auto simp: rne_def Let_def)
qed

subsection \<open>Representable numbers, monotonicity\<close>

lemma rnd_0 [simp]: "rnd 0 = 0"
  by (simp add: rnd_def)

lemma rnd_uminus: "rnd (- x) = - rnd x"
  by (simp add: rnd_def ulp_exp_def rne_uminus)

lemma rnd_nonneg: "0 \<le> x \<Longrightarrow> 0 \<le> rnd x"
  using rne_ge_of_int [of 0 "x / 2 powi ulp_exp x"] by (simp add: rnd_def)

text \<open>A number with at most 53 significant bits and an exponent in range is its own rounding.\<close>

lemma rnd_exact_pos:
  assumes m: "0 < m" "m \<le> 2 ^ 53" and e: "-1074 \<le> e" and x: "x = of_int m * 2 powi e"
  shows "rnd x = x"
proof -
  let ?u = "ulp_exp x"
  have x0: "0 < x" using x m(1) by simp
  have "\<exists>k. x / 2 powi ?u = of_int k"
  proof (cases "?u \<le> e")
    case True
    then have "x / 2 powi ?u = of_int m * 2 powi (e - ?u)"
      by (simp add: x power_int_diff)
    also have "\<dots> = of_int (m * 2 ^ nat (e - ?u))"
      using True by (simp add: power_int_def)
    finally show ?thesis by blast
  next
    case False
    then have "?u = ilog2 x - 52" and il: "e + 53 \<le> ilog2 x"
      using e x0 by (auto simp: ulp_exp_def max_def split: if_splits)
    have "(2::rat) powi (e + 53) \<le> x"
      using ilog2_bounds(1) [OF x0] il powi2_le_iff order_trans by blast
    moreover have "x \<le> 2 powi (e + 53)"
    proof -
      have "x \<le> of_int (2 ^ 53) * 2 powi e"
        unfolding x using m(2) by (intro mult_right_mono) (simp_all only: of_int_le_iff, simp)
      then show ?thesis by (simp add: powi2_add mult.commute)
    qed
    ultimately have x': "x = 2 powi (e + 53)" by simp
    then have "ilog2 x = e + 53" by (intro ilog2_unique) simp_all
    with \<open>?u = ilog2 x - 52\<close> have "?u = e + 1" by simp
    then have "x / 2 powi ?u = 2 powi 52"
      by (simp add: x' flip: power_int_diff)
    then have "x / 2 powi ?u = of_int (2 ^ 52)" by simp
    then show ?thesis by blast
  qed
  then obtain k where "x / 2 powi ?u = of_int k" by blast
  moreover from this have "x = of_int k * 2 powi ?u" by (simp add: field_simps)
  ultimately show ?thesis using x0 by (simp add: rnd_def)
qed

lemma rnd_exact:
  assumes "\<bar>m\<bar> \<le> 2 ^ 53" and "-1074 \<le> e"
  shows "rnd (of_int m * 2 powi e) = of_int m * 2 powi e"
proof -
  consider "m = 0" | "0 < m" | "0 < - m" by linarith
  then show ?thesis
  proof cases
    case 3
    with assms rnd_exact_pos [of "- m" e "of_int (- m) * 2 powi e"]
    have "rnd (of_int (- m) * 2 powi e) = of_int (- m) * 2 powi e" by simp
    then show ?thesis using rnd_uminus [of "of_int m * 2 powi e"] by simp
  qed (use assms rnd_exact_pos [of m e] in simp_all)
qed

lemma rnd_of_int_exact: "\<bar>m\<bar> \<le> 2 ^ 53 \<Longrightarrow> rnd (of_int m) = of_int m"
  using rnd_exact [of m 0] by simp

lemma rnd_powi_exact: "-1074 \<le> e \<Longrightarrow> rnd (2 powi e) = 2 powi e"
  using rnd_exact [of 1 e] by simp

lemma rnd_mono_pos:
  assumes "0 < x" and "x \<le> y"
  shows "rnd x \<le> rnd y"
proof -
  let ?a = "ulp_exp x" and ?b = "ulp_exp y"
  have y: "0 < y" using assms by linarith
  have le: "?a \<le> ?b" using ilog2_mono [OF assms] assms y by (simp add: ulp_exp_def max_def)
  show ?thesis
  proof (cases "?a = ?b")
    case True
    have "rne (x / 2 powi ?b) \<le> rne (y / 2 powi ?b)"
      using assms(2) by (intro rne_mono divide_right_mono) simp_all
    then show ?thesis using True assms y by (simp add: rnd_def mult_right_mono)
  next
    case False
    with le have lt: "?a < ?b" by simp
    then have b: "?b = ilog2 y - 52" and "ilog2 x \<le> ?a + 52"
      using assms y by (auto simp: ulp_exp_def max_def split: if_splits)
    have "x \<le> 2 powi (ilog2 x + 1)" using ilog2_bounds(2) [OF assms(1)] by simp
    also have "\<dots> \<le> 2 powi (?a + 53)" using \<open>ilog2 x \<le> ?a + 52\<close> by simp
    finally have "x / 2 powi ?a \<le> of_int (2 ^ 53)"
      by (simp add: powi2_add field_simps)
    then have "rne (x / 2 powi ?a) \<le> 2 ^ 53" by (rule rne_le_of_int)
    then have "(of_int (rne (x / 2 powi ?a)) :: rat) \<le> of_int (2 ^ 53)"
      by (simp only: of_int_le_iff)
    then have "rnd x \<le> of_int (2 ^ 53) * 2 powi ?a"
      using assms(1) unfolding rnd_def by (simp add: mult_right_mono)
    also have "\<dots> = 2 powi (?a + 53)" by (simp add: powi2_add mult.commute)
    also have "\<dots> \<le> 2 powi (?b + 52)" using lt by simp
    also have "\<dots> = of_int (2 ^ 52) * 2 powi ?b" by (simp add: powi2_add mult.commute)
    also have "\<dots> \<le> rnd y"
    proof -
      have "2 powi (?b + 52) \<le> y" using b ilog2_bounds(1) [OF y] by simp
      then have "of_int (2 ^ 52) \<le> y / 2 powi ?b"
        by (simp add: powi2_add field_simps)
      then have "2 ^ 52 \<le> rne (y / 2 powi ?b)" by (rule rne_ge_of_int)
      then have "(of_int (2 ^ 52) :: rat) \<le> of_int (rne (y / 2 powi ?b))"
        by (simp only: of_int_le_iff)
      then show ?thesis using y unfolding rnd_def by (simp add: mult_right_mono)
    qed
    finally show ?thesis .
  qed
qed

lemma rnd_mono:
  assumes "x \<le> y"
  shows "rnd x \<le> rnd y"
proof -
  consider "0 < x" | "x \<le> 0" "0 \<le> y" | "y < 0" using assms by linarith
  then show ?thesis
  proof cases
    case 2
    then have "rnd x \<le> 0" using rnd_nonneg [of "- x"] by (simp add: rnd_uminus)
    also have "0 \<le> rnd y" using 2 by (intro rnd_nonneg) simp
    finally show ?thesis .
  next
    case 3
    then have "rnd (- y) \<le> rnd (- x)" using assms by (intro rnd_mono_pos) simp_all
    then show ?thesis by (simp add: rnd_uminus)
  qed (use assms rnd_mono_pos in blast)
qed

lemma rnd_le_int: "x \<le> of_int m \<Longrightarrow> \<bar>m\<bar> \<le> 2 ^ 53 \<Longrightarrow> rnd x \<le> of_int m"
  using rnd_mono [of x "of_int m"] by (simp add: rnd_of_int_exact)

lemma rnd_ge_int: "of_int m \<le> x \<Longrightarrow> \<bar>m\<bar> \<le> 2 ^ 53 \<Longrightarrow> of_int m \<le> rnd x"
  using rnd_mono [of "of_int m" x] by (simp add: rnd_of_int_exact)

text \<open>A proper fraction whose denominator has at most 53 bits does not round up to 1.\<close>

lemma rnd_proper_fraction:
  assumes "d < n" and "n \<le> 2 ^ 53" and "0 < n"
  shows "rnd (of_int d / of_int n) < 1"
proof -
  let ?m = "of_int (2 ^ 53 - 1) * 2 powi (-53) :: rat"
  have "d * 2 ^ 53 \<le> (n - 1) * 2 ^ 53" using assms(1) by simp
  also have "\<dots> \<le> n * (2 ^ 53 - 1)" using assms(2) by (simp add: algebra_simps)
  finally have "(of_int (d * 2 ^ 53) :: rat) \<le> of_int (n * (2 ^ 53 - 1))" by (simp only: of_int_le_iff)
  then have "of_int d / of_int n \<le> ?m" using assms(3) by (simp add: field_simps power_int_minus)
  then have "rnd (of_int d / of_int n) \<le> rnd ?m" by (rule rnd_mono)
  also have "rnd ?m = ?m" by (rule rnd_exact) simp_all
  also have "?m < 1" by (simp add: power_int_minus field_simps)
  finally show ?thesis .
qed

lemma rnd_representable: "\<exists>k e. rnd x = of_int k * 2 powi e \<and> \<bar>k\<bar> \<le> 2 ^ 53 \<and> -1074 \<le> e"
proof (cases "x = 0")
  case True
  then show ?thesis by (intro exI [of _ 0] exI [of _ 0]) simp
next
  case False
  let ?u = "ulp_exp x"
  have "\<bar>x\<bar> < 2 powi (ilog2 \<bar>x\<bar> + 1)" using False by (intro ilog2_bounds) simp
  also have "\<dots> \<le> 2 powi (?u + 53)" by (simp add: ulp_exp_def)
  finally have "\<bar>x / 2 powi ?u\<bar> \<le> of_int (2 ^ 53)"
    by (simp add: powi2_add field_simps abs_divide)
  then have "x / 2 powi ?u \<le> of_int (2 ^ 53)" "of_int (- (2 ^ 53)) \<le> x / 2 powi ?u"
    by (auto dest: abs_le_D1 abs_le_D2 simp del: abs_divide)
  then have "rne (x / 2 powi ?u) \<le> 2 ^ 53" "- (2 ^ 53) \<le> rne (x / 2 powi ?u)"
    by (blast intro: rne_le_of_int rne_ge_of_int)+
  then have "\<bar>rne (x / 2 powi ?u)\<bar> \<le> 2 ^ 53" by (simp add: abs_le_iff)
  then show ?thesis using False
    by (intro exI [of _ "rne (x / 2 powi ?u)"] exI [of _ ?u]) (simp add: rnd_def ulp_exp_def)
qed

lemma rnd_idem [simp]: "rnd (rnd x) = rnd x"
  using rnd_representable [of x] rnd_exact by auto

text \<open>The rounding error is at most half a unit in the last place.\<close>

lemma rnd_error: "\<bar>rnd x - x\<bar> \<le> 2 powi (ulp_exp x) / 2"
proof (cases "x = 0")
  case False
  let ?u = "2 powi (ulp_exp x) :: rat"
  have "rnd x - x = (of_int (rne (x / ?u)) - x / ?u) * ?u"
    using False by (simp add: rnd_def algebra_simps)
  then have "\<bar>rnd x - x\<bar> = \<bar>of_int (rne (x / ?u)) - x / ?u\<bar> * ?u"
    by (simp add: abs_mult)
  also have "\<dots> \<le> 1/2 * ?u"
    by (rule mult_right_mono [OF rne_error]) simp
  finally show ?thesis by simp
qed simp

section \<open>Values and operations\<close>

text \<open>\<open>Inf True\<close> is the negative infinity; \<open>Num 0\<close> is the positive zero.\<close>

datatype f64 = NaN | Inf bool | NegZero | Num rat

fun fval :: "f64 \<Rightarrow> rat" where
  "fval (Num r) = r"
| "fval _ = 0"

definition is_nan :: "f64 \<Rightarrow> bool" where
  "is_nan x = (x = NaN)"

fun is_inf :: "f64 \<Rightarrow> bool" where
  "is_inf (Inf _) = True"
| "is_inf _ = False"

definition is_finite :: "f64 \<Rightarrow> bool" where
  "is_finite x = (\<not> is_nan x \<and> \<not> is_inf x)"

fun sign_bit :: "f64 \<Rightarrow> bool" where
  "sign_bit (Inf b) = b"
| "sign_bit NegZero = True"
| "sign_bit (Num r) = (r < 0)"
| "sign_bit NaN = False"

text \<open>Rounding an exact result; \<open>neg\<close> is the sign of a zero result.\<close>

definition fpack :: "bool \<Rightarrow> rat \<Rightarrow> f64" where
  "fpack neg x = (let r = rnd x
     in if 2 ^ 1024 \<le> \<bar>r\<bar> then Inf (r < 0)
        else if r = 0 then (if neg then NegZero else Num 0) else Num r)"

fun f_neg :: "f64 \<Rightarrow> f64" where
  "f_neg NaN = NaN"
| "f_neg (Inf b) = Inf (\<not> b)"
| "f_neg NegZero = Num 0"
| "f_neg (Num r) = (if r = 0 then NegZero else Num (- r))"

fun f_abs :: "f64 \<Rightarrow> f64" where
  "f_abs NaN = NaN"
| "f_abs (Inf b) = Inf False"
| "f_abs NegZero = Num 0"
| "f_abs (Num r) = Num \<bar>r\<bar>"

definition f_add :: "f64 \<Rightarrow> f64 \<Rightarrow> f64" where
  "f_add x y =
     (if is_nan x \<or> is_nan y then NaN
      else if is_inf x then (if is_inf y \<and> sign_bit x \<noteq> sign_bit y then NaN else x)
      else if is_inf y then y
      else fpack (x = NegZero \<and> y = NegZero) (fval x + fval y))"

definition f_sub :: "f64 \<Rightarrow> f64 \<Rightarrow> f64" where
  "f_sub x y = f_add x (f_neg y)"

definition f_mul :: "f64 \<Rightarrow> f64 \<Rightarrow> f64" where
  "f_mul x y = (let s = (sign_bit x \<noteq> sign_bit y) in
     if is_nan x \<or> is_nan y then NaN
     else if is_inf x then (if is_finite y \<and> fval y = 0 then NaN else Inf s)
     else if is_inf y then (if fval x = 0 then NaN else Inf s)
     else fpack s (fval x * fval y))"

definition f_div :: "f64 \<Rightarrow> f64 \<Rightarrow> f64" where
  "f_div x y = (let s = (sign_bit x \<noteq> sign_bit y) in
     if is_nan x \<or> is_nan y then NaN
     else if is_inf x then (if is_inf y then NaN else Inf s)
     else if is_inf y then (if s then NegZero else Num 0)
     else if fval y = 0 then (if fval x = 0 then NaN else Inf s)
     else fpack s (fval x / fval y))"

text \<open>Comparisons: NaN is unordered, the two zeros are equal.\<close>

fun fclass :: "f64 \<Rightarrow> int" where
  "fclass (Inf b) = (if b then -1 else 1)"
| "fclass _ = 0"

definition f_lt :: "f64 \<Rightarrow> f64 \<Rightarrow> bool" where
  "f_lt x y = (\<not> is_nan x \<and> \<not> is_nan y \<and>
     (fclass x < fclass y \<or> fclass x = fclass y \<and> fval x < fval y))"

definition f_le :: "f64 \<Rightarrow> f64 \<Rightarrow> bool" where
  "f_le x y = (\<not> is_nan x \<and> \<not> is_nan y \<and> \<not> f_lt y x)"

definition f_eq :: "f64 \<Rightarrow> f64 \<Rightarrow> bool" where
  "f_eq x y = (f_le x y \<and> f_le y x)"

text \<open>
  \<open>float(n)\<close> of an integer (correctly rounded), a decimal literal of the source (correctly
  rounded), and \<open>int(x)\<close> of a float (truncation; NaN and the infinities raise).
\<close>

definition f_of_int :: "int \<Rightarrow> f64" where
  "f_of_int n = fpack False (of_int n)"

definition f_lit :: "rat \<Rightarrow> f64" where
  "f_lit r = fpack False r"

fun int_of_f64 :: "f64 \<Rightarrow> int res" where
  "int_of_f64 NaN = Inl (ValueError ''cannot convert float NaN to integer'')"
| "int_of_f64 (Inf b) = Inl (OverflowError ''cannot convert float infinity to integer'')"
| "int_of_f64 NegZero = Inr 0"
| "int_of_f64 (Num r) = Inr (if 0 \<le> r then \<lfloor>r\<rfloor> else \<lceil>r\<rceil>)"

text \<open>\<open>float(n)\<close> of an integer beyond the binary64 range raises; so does the division of floats by zero.\<close>

definition float_of_int :: "int \<Rightarrow> f64 res" where
  "float_of_int n = (if is_inf (f_of_int n) then Inl (OverflowError ''int too large to convert to float'')
     else Inr (f_of_int n))"

definition py_div :: "f64 \<Rightarrow> f64 \<Rightarrow> f64 res" where
  "py_div x y = (if f_eq y (Num 0) then Inl (ZeroDivisionError ''float division by zero'') else Inr (f_div x y))"

text \<open>Well-formed values: the number carried is a binary64 number.\<close>

fun f64_wf :: "f64 \<Rightarrow> bool" where
  "f64_wf (Num r) = (rnd r = r \<and> \<bar>r\<bar> < 2 ^ 1024)"
| "f64_wf _ = True"

lemma f64_test_simps [simp]:
  "is_nan NaN" "\<not> is_nan (Inf b)" "\<not> is_nan NegZero" "\<not> is_nan (Num r)"
  "\<not> is_finite NaN" "\<not> is_finite (Inf b)" "is_finite NegZero" "is_finite (Num r)"
  by (simp_all add: is_nan_def is_finite_def)

text \<open>For evaluation: the overflow test on the exponent.\<close>

lemma fpack_code [code]:
  "fpack neg x = (let r = rnd x
     in if r = 0 then (if neg then NegZero else Num 0)
        else if 1024 \<le> ilog2 \<bar>r\<bar> then Inf (r < 0) else Num r)"
proof -
  have "2 ^ 1024 \<le> \<bar>r\<bar> \<longleftrightarrow> 1024 \<le> ilog2 \<bar>r\<bar>" if "r \<noteq> 0" for r :: rat
    using ilog2_ge_iff [of "\<bar>r\<bar>" 1024] that by simp
  then show ?thesis by (auto simp: fpack_def Let_def)
qed

lemma fpack_wf: "f64_wf (fpack neg x)"
  by (simp add: fpack_def Let_def)

lemma fpack_not_nan [simp]: "\<not> is_nan (fpack neg x)"
  by (simp add: fpack_def Let_def)

lemma fpack_small:
  assumes "\<bar>rnd x\<bar> < 2 ^ 1024"
  shows "is_finite (fpack neg x)" and "fval (fpack neg x) = rnd x"
  using assms by (simp_all add: fpack_def Let_def)

lemma fpack_bounded_int:
  assumes "of_int a \<le> x" "x \<le> of_int b" "\<bar>a\<bar> \<le> 2 ^ 53" "\<bar>b\<bar> \<le> 2 ^ 53"
  shows "is_finite (fpack neg x)" and "of_int a \<le> fval (fpack neg x)" and "fval (fpack neg x) \<le> of_int b"
    and "fval (fpack neg x) = rnd x"
proof -
  have lo: "of_int a \<le> rnd x" using assms by (intro rnd_ge_int)
  have hi: "rnd x \<le> of_int b" using assms by (intro rnd_le_int)
  have "\<bar>rnd x\<bar> \<le> 2 ^ 53"
  proof -
    have "(of_int b :: rat) \<le> of_int (2 ^ 53)" "(of_int (- (2 ^ 53)) :: rat) \<le> of_int a"
      using assms(3,4) by (auto simp only: of_int_le_iff abs_le_iff)
    then show ?thesis using lo hi by (simp add: abs_le_iff)
  qed
  also have "\<dots> < (2::rat) ^ 1024" by (rule power_strict_increasing) simp_all
  finally have small: "\<bar>rnd x\<bar> < 2 ^ 1024" .
  from fpack_small [OF this] lo hi
  show "is_finite (fpack neg x)" "of_int a \<le> fval (fpack neg x)"
    "fval (fpack neg x) \<le> of_int b" "fval (fpack neg x) = rnd x" by simp_all
qed

lemma f_of_int_exact:
  assumes "\<bar>n\<bar> \<le> 2 ^ 53"
  shows "f_of_int n = Num (of_int n)"
proof -
  have "\<bar>(of_int n :: rat)\<bar> \<le> of_int (2 ^ 53)" using assms by (simp only: of_int_le_iff flip: of_int_abs)
  also have "\<dots> < (2::rat) ^ 1024" by simp
  finally show ?thesis using assms by (simp add: f_of_int_def fpack_def Let_def rnd_of_int_exact)
qed

lemma f_of_int_wf [simp]: "f64_wf (f_of_int n)"
  by (simp add: f_of_int_def fpack_wf)

lemma f_of_int_not_nan [simp]: "\<not> is_nan (f_of_int n)"
  by (simp add: f_of_int_def)

text \<open>The integers the programs convert are bounded by 64 bits, far below the overflow threshold.\<close>

lemma f_of_int_64:
  assumes "\<bar>n\<bar> \<le> 2 ^ 64"
  shows "is_finite (f_of_int n)" and "fval (f_of_int n) = rnd (of_int n)"
    and "\<bar>fval (f_of_int n)\<bar> \<le> 2 ^ 64"
proof -
  have n: "(of_int n :: rat) \<le> of_int 1 * 2 powi 64" "- (of_int 1 * 2 powi 64) \<le> (of_int n :: rat)"
    using assms of_int_le_iff [of n "2 ^ 64", where ?'a = rat]
      of_int_le_iff [of "- (2 ^ 64)" n, where ?'a = rat] by (simp_all add: abs_le_iff)
  have e: "rnd (of_int 1 * 2 powi 64) = of_int 1 * 2 powi 64" by (rule rnd_exact) simp_all
  have "rnd (of_int n) \<le> 2 ^ 64" using rnd_mono [OF n(1)] e by simp
  moreover have "- (2 ^ 64) \<le> rnd (of_int n)" using rnd_mono [OF n(2)] e by (simp add: rnd_uminus)
  ultimately have b: "\<bar>rnd (of_int n)\<bar> \<le> 2 ^ 64" by (simp add: abs_le_iff minus_le_iff)
  also have "\<dots> < (2::rat) ^ 1024" by simp
  finally show "is_finite (f_of_int n)" and v: "fval (f_of_int n) = rnd (of_int n)"
    unfolding f_of_int_def by (simp_all add: fpack_small)
  show "\<bar>fval (f_of_int n)\<bar> \<le> 2 ^ 64" using b v by simp
qed

text \<open>A quotient of two exactly represented integers is rounded once.\<close>

lemma f_div_of_int:
  assumes "\<bar>a\<bar> \<le> 2 ^ 53" and "0 < b" and "b \<le> 2 ^ 53"
  shows "f_div (f_of_int a) (f_of_int b) = fpack (a < 0) (of_int a / of_int b)"
  using assms f_of_int_exact [of a] f_of_int_exact [of b] by (simp add: f_div_def)

lemma f_lt_finite [simp]: "is_finite x \<Longrightarrow> is_finite y \<Longrightarrow> f_lt x y \<longleftrightarrow> fval x < fval y"
  by (cases x; cases y) (auto simp: f_lt_def)

lemma f_le_finite [simp]: "is_finite x \<Longrightarrow> is_finite y \<Longrightarrow> f_le x y \<longleftrightarrow> fval x \<le> fval y"
  by (cases x; cases y) (auto simp: f_le_def f_lt_def)

lemma f_lt_irrefl [simp]: "\<not> f_lt x x"
  by (simp add: f_lt_def)

lemma f_lt_trans: "f_lt x y \<Longrightarrow> f_lt y z \<Longrightarrow> f_lt x z"
  by (auto simp: f_lt_def)

lemma f_lt_asym: "f_lt x y \<Longrightarrow> \<not> f_lt y x"
  by (auto simp: f_lt_def)

lemma f_le_linear: "\<not> is_nan x \<Longrightarrow> \<not> is_nan y \<Longrightarrow> f_le x y \<or> f_le y x"
  by (auto simp: f_le_def f_lt_def)

lemma f_le_trans: "f_le x y \<Longrightarrow> f_le y z \<Longrightarrow> f_le x z"
  by (auto simp: f_le_def f_lt_def)

lemma f_le_less_trans: "f_le x y \<Longrightarrow> f_lt y z \<Longrightarrow> f_lt x z"
  by (auto simp: f_le_def f_lt_def)

lemma f_less_le_trans: "f_lt x y \<Longrightarrow> f_le y z \<Longrightarrow> f_lt x z"
  by (auto simp: f_le_def f_lt_def)

lemma f_lt_NaN [simp]: "\<not> f_lt NaN x" "\<not> f_lt x NaN" "\<not> f_le NaN x" "\<not> f_le x NaN"
  by (simp_all add: f_lt_def f_le_def)

lemma f_neg_wf: "f64_wf x \<Longrightarrow> f64_wf (f_neg x)"
  by (cases x) (simp_all add: rnd_uminus)

lemma f_ops_wf [simp]:
  "f64_wf x \<Longrightarrow> f64_wf y \<Longrightarrow> f64_wf (f_add x y)"
  "f64_wf x \<Longrightarrow> f64_wf y \<Longrightarrow> f64_wf (f_sub x y)"
  "f64_wf (f_mul x y)"
  "f64_wf (f_div x y)"
  by (auto simp: f_add_def f_sub_def f_mul_def f_div_def fpack_wf f_neg_wf Let_def)

text \<open>On finite operands each operation rounds the exact result once.\<close>

lemma f_ops_finite:
  assumes "is_finite x" and "is_finite y"
  shows "\<exists>s. f_add x y = fpack s (fval x + fval y)" and "\<exists>s. f_sub x y = fpack s (fval x - fval y)"
    and "\<exists>s. f_mul x y = fpack s (fval x * fval y)"
    and "fval y \<noteq> 0 \<Longrightarrow> \<exists>s. f_div x y = fpack s (fval x / fval y)"
  using assms by (cases x; cases y; auto simp: f_add_def f_sub_def f_mul_def f_div_def Let_def)+

lemma f_ops_int_bounds:
  assumes "is_finite x" and "is_finite y" and "\<bar>a\<bar> \<le> 2 ^ 53" and "\<bar>b\<bar> \<le> 2 ^ 53"
  shows "of_int a \<le> fval x - fval y \<Longrightarrow> fval x - fval y \<le> of_int b \<Longrightarrow>
      is_finite (f_sub x y) \<and> of_int a \<le> fval (f_sub x y) \<and> fval (f_sub x y) \<le> of_int b"
    and "of_int a \<le> fval x * fval y \<Longrightarrow> fval x * fval y \<le> of_int b \<Longrightarrow>
      is_finite (f_mul x y) \<and> of_int a \<le> fval (f_mul x y) \<and> fval (f_mul x y) \<le> of_int b"
    and "fval y \<noteq> 0 \<Longrightarrow> of_int a \<le> fval x / fval y \<Longrightarrow> fval x / fval y \<le> of_int b \<Longrightarrow>
      is_finite (f_div x y) \<and> of_int a \<le> fval (f_div x y) \<and> fval (f_div x y) \<le> of_int b"
  using f_ops_finite [OF assms(1,2)] fpack_bounded_int [OF _ _ assms(3,4)] by metis+

text \<open>Rounding, scaling and dividing by a positive number keep the (weak) sign.\<close>

lemma fpack_sign:
  "0 \<le> x \<Longrightarrow> f_le (Num 0) (fpack s x)" "x \<le> 0 \<Longrightarrow> f_le (fpack s x) (Num 0)"
  using rnd_nonneg [of x] rnd_nonneg [of "- x"]
  by (auto simp: fpack_def Let_def f_le_def f_lt_def rnd_uminus)

lemma f_sign_nonneg:
  assumes "f_le (Num 0) x" and "is_finite y" and "0 < fval y"
  shows "f_le (Num 0) (f_div x y)" and "f_le (Num 0) (f_mul x y)"
proof -
  have s: "\<not> sign_bit y" using assms(2,3) by (cases y) auto
  have "x = Inf False \<or> is_finite x \<and> 0 \<le> fval x" using assms(1) by (cases x) (auto simp: f_le_def f_lt_def)
  then have "f_le (Num 0) (f_div x y) \<and> f_le (Num 0) (f_mul x y)"
  proof (elim disjE conjE)
    assume "x = Inf False"
    then show "f_le (Num 0) (f_div x y) \<and> f_le (Num 0) (f_mul x y)"
      using assms(2,3) s by (cases y) (auto simp: f_div_def f_mul_def f_le_def f_lt_def)
  next
    assume "is_finite x" "0 \<le> fval x"
    then show "f_le (Num 0) (f_div x y) \<and> f_le (Num 0) (f_mul x y)"
      using f_ops_finite(3,4) [of x y] assms(2,3) fpack_sign(1) by (metis divide_nonneg_pos less_irrefl mult_nonneg_nonneg less_imp_le)
  qed
  then show "f_le (Num 0) (f_div x y)" "f_le (Num 0) (f_mul x y)" by blast+
qed

lemma f_sign_nonpos:
  assumes "f_le x (Num 0)" and "is_finite y" and "0 < fval y"
  shows "f_le (f_div x y) (Num 0)" and "f_le (f_mul x y) (Num 0)"
proof -
  have s: "\<not> sign_bit y" using assms(2,3) by (cases y) auto
  have "x = Inf True \<or> is_finite x \<and> fval x \<le> 0" using assms(1) by (cases x) (auto simp: f_le_def f_lt_def split: if_splits)
  then have "f_le (f_div x y) (Num 0) \<and> f_le (f_mul x y) (Num 0)"
  proof (elim disjE conjE)
    assume "x = Inf True"
    then show "f_le (f_div x y) (Num 0) \<and> f_le (f_mul x y) (Num 0)"
      using assms(2,3) s by (cases y) (auto simp: f_div_def f_mul_def f_le_def f_lt_def)
  next
    assume "is_finite x" "fval x \<le> 0"
    then show "f_le (f_div x y) (Num 0) \<and> f_le (f_mul x y) (Num 0)"
      using f_ops_finite(3,4) [of x y] assms(2,3) fpack_sign(2)
      by (metis divide_nonpos_pos less_irrefl mult_nonpos_nonneg less_imp_le)
  qed
  then show "f_le (f_div x y) (Num 0)" "f_le (f_mul x y) (Num 0)" by blast+
qed

lemma f_le_zero_antisym: "f_le (Num 0) x \<Longrightarrow> f_le x (Num 0) \<Longrightarrow> fval x = 0"
  by (cases x) (auto simp: f_le_def f_lt_def split: if_splits)

text \<open>\<open>max(e, 1e-9)\<close>, by which the tools guard their divisions by the elapsed time.\<close>

lemma clamp_elapsed:
  fixes a :: int
  defines "m \<equiv> f_lit (1 / 1000000000)" and "e \<equiv> f_div (f_of_int a) (Num 1000000000)"
  shows "f_le m (if f_lt e m then m else e)" and "\<not> f_eq (if f_lt e m then m else e) (Num 0)"
proof -
  have m: "f_lt (Num 0) m" "\<not> is_nan m" unfolding m_def by code_simp+
  have "\<not> is_nan e" by (simp add: e_def f_div_def Let_def f_of_int_def)
  then show le: "f_le m (if f_lt e m then m else e)" using m(2) by (simp add: f_le_def)
  then have "f_lt (Num 0) (if f_lt e m then m else e)" using m(1) f_less_le_trans by blast
  then show "\<not> f_eq (if f_lt e m then m else e) (Num 0)" by (simp add: f_eq_def f_le_def)
qed

lemma clamp_elapsed_value:
  fixes a :: int
  defines "m \<equiv> f_lit (1 / 1000000000)" and "e \<equiv> f_div (f_of_int a) (Num 1000000000)"
  assumes "\<bar>a\<bar> \<le> 2 ^ 64"
  shows "(if f_lt e m then m else e) = (if 0 < a then e else m)"
proof (cases "0 < a")
  case True
  let ?q = "fval (f_of_int a) / 1000000000"
  have fa: "is_finite (f_of_int a)" "1 \<le> fval (f_of_int a)" "fval (f_of_int a) \<le> 2 ^ 64"
    using f_of_int_64 [OF assms(3)] rnd_ge_int [of 1 "of_int a"] True by simp_all
  obtain s where s: "e = fpack s ?q"
    using f_ops_finite(4) [of "f_of_int a" "Num 1000000000"] fa(1) unfolding e_def by auto
  have e: "is_finite e" "fval e = rnd ?q"
    unfolding s by (rule fpack_bounded_int [of 0 _ "2 ^ 53"]; use fa in simp)+
  have m: "fval m = rnd (1 / 1000000000)" "is_finite m" unfolding m_def by code_simp+
  have "rnd (1 / 1000000000) \<le> rnd ?q" using fa(2) by (intro rnd_mono) simp
  then have "\<not> f_lt e m" using e m by simp
  then show ?thesis using True by simp
next
  case False
  have "f_le (f_of_int a) (Num 0)" using False fpack_sign(2) [of "of_int a"] by (simp add: f_of_int_def)
  then have "f_le e (Num 0)" unfolding e_def by (intro f_sign_nonpos) simp_all
  moreover have "f_lt (Num 0) m" unfolding m_def by code_simp
  ultimately show ?thesis using False f_le_less_trans by simp
qed

end
