(* ===== verification/PyText.thy ===== *)
theory PyText
  imports Float64 "HOL-Library.Char_ord"
begin

text \<open>
  The part of Python's text handling that the sources use: \<open>str.strip\<close>,
  \<open>str.isdigit\<close>, \<open>str.lower\<close>, \<open>int(text)\<close>, \<open>float(text)\<close> and
  \<open>str(n)\<close>. A \<open>char\<close> is a code point up to U+00FF, and the character classes are
  Python's on that range: the superscript digits are \<open>isdigit\<close> but no decimal digits,
  and the no-break space is white space.
\<close>

section \<open>Character classes\<close>

definition code :: "char \<Rightarrow> nat" where
  "code c = of_char c"

definition is_space :: "char \<Rightarrow> bool" where
  "is_space c = (let n = code c in (9 \<le> n \<and> n \<le> 13) \<or> (28 \<le> n \<and> n \<le> 32) \<or> n = 133 \<or> n = 160)"

definition is_decimal :: "char \<Rightarrow> bool" where
  "is_decimal c = (48 \<le> code c \<and> code c \<le> 57)"

definition is_digit :: "char \<Rightarrow> bool" where
  "is_digit c = (is_decimal c \<or> code c = 178 \<or> code c = 179 \<or> code c = 185)"

definition digit_val :: "char \<Rightarrow> int" where
  "digit_val c = int (code c) - 48"

definition digit_char :: "nat \<Rightarrow> char" where
  "digit_char d = char_of (48 + d)"

definition lower_char :: "char \<Rightarrow> char" where
  "lower_char c = (let n = code c in
     if (65 \<le> n \<and> n \<le> 90) \<or> (192 \<le> n \<and> n \<le> 222 \<and> n \<noteq> 215) then char_of (n + 32) else c)"

definition lower :: "string \<Rightarrow> string" where
  "lower s = map lower_char s"

definition strip :: "string \<Rightarrow> string" where
  "strip s = rev (dropWhile is_space (rev (dropWhile is_space s)))"

definition lstrip_signs :: "string \<Rightarrow> string" where
  "lstrip_signs s = dropWhile (\<lambda>c. c = CHR ''+'' \<or> c = CHR ''-'') s"

definition isdigit :: "string \<Rightarrow> bool" where
  "isdigit s = (s \<noteq> [] \<and> list_all is_digit s)"

section \<open>Numbers from text\<close>

definition dec_value :: "string \<Rightarrow> int" where
  "dec_value s = foldl (\<lambda>a c. 10 * a + digit_val c) 0 s"

text \<open>An underscore is allowed between two digits only; the text without them, or \<open>None\<close>.\<close>

fun drop_underscores :: "bool \<Rightarrow> string \<Rightarrow> string option" where
  "drop_underscores d [] = Some []"
| "drop_underscores d (c # s) =
     (if c = CHR ''_''
      then (case s of
              [] \<Rightarrow> None
            | c' # s' \<Rightarrow> if d \<and> is_decimal c' then drop_underscores False s else None)
      else map_option ((#) c) (drop_underscores (is_decimal c) s))"

definition split_sign :: "string \<Rightarrow> bool \<times> string" where
  "split_sign s = (case s of
      [] \<Rightarrow> (False, [])
    | c # s' \<Rightarrow> if c = CHR ''-'' then (True, s') else if c = CHR ''+'' then (False, s') else (False, s))"

text \<open>\<open>int(text)\<close>, base 10, with CPython's limit of 4300 digits.\<close>

definition int_max_str_digits :: nat where
  "int_max_str_digits = 4300"

definition py_int :: "string \<Rightarrow> int res" where
  "py_int s = (let (neg, body) = split_sign (strip s) in
     case drop_underscores False body of
       None \<Rightarrow> Inl (ValueError ''invalid literal for int()'')
     | Some ds \<Rightarrow>
         if ds = [] \<or> \<not> list_all is_decimal ds then Inl (ValueError ''invalid literal for int()'')
         else if int_max_str_digits < length ds
           then Inl (ValueError ''Exceeds the limit for integer string conversion'')
         else Inr (if neg then - dec_value ds else dec_value ds))"

text \<open>
  \<open>float(text)\<close>: an optional sign, then a name (inf, infinity, nan) or digits with an
  optional fraction and exponent, all of the text consumed; the value is correctly rounded.
\<close>

definition parse_exponent :: "string \<Rightarrow> int option" where
  "parse_exponent s = (case s of
      [] \<Rightarrow> Some 0
    | c # s' \<Rightarrow>
        if c = CHR ''e'' \<or> c = CHR ''E''
        then (let (neg, ds) = split_sign s'
              in if ds = [] \<or> \<not> list_all is_decimal ds then None
                 else Some (if neg then - dec_value ds else dec_value ds))
        else None)"

definition parse_decimal :: "string \<Rightarrow> rat option" where
  "parse_decimal s =
     (let ip = takeWhile is_decimal s; r1 = dropWhile is_decimal s;
          (fp, r2) = (case r1 of
              [] \<Rightarrow> ([], [])
            | c # r \<Rightarrow> if c = CHR ''.'' then (takeWhile is_decimal r, dropWhile is_decimal r) else ([], r1))
      in if ip @ fp = [] then None
         else map_option (\<lambda>e. of_int (dec_value (ip @ fp)) * 10 powi (e - int (length fp)))
                (parse_exponent r2))"

definition py_float :: "string \<Rightarrow> f64 res" where
  "py_float s =
     (case drop_underscores False (strip s) of
        None \<Rightarrow> Inl (ValueError ''could not convert string to float'')
      | Some t \<Rightarrow>
          (let (neg, body) = split_sign t; name = lower body
           in if name = ''inf'' \<or> name = ''infinity'' then Inr (Inf neg)
              else if name = ''nan'' then Inr NaN
              else case parse_decimal body of
                     None \<Rightarrow> Inl (ValueError ''could not convert string to float'')
                   | Some r \<Rightarrow> Inr (fpack neg (if neg then - r else r))))"

section \<open>Text from numbers\<close>

fun nat_str :: "nat \<Rightarrow> string" where
  "nat_str n = (if n < 10 then [digit_char n] else nat_str (n div 10) @ [digit_char (n mod 10)])"

declare nat_str.simps [simp del]

definition int_str :: "int \<Rightarrow> string" where
  "int_str n = (if n < 0 then CHR ''-'' # nat_str (nat (- n)) else nat_str (nat n))"

text \<open>The same digits by integer arithmetic, which evaluates in the number of digits.\<close>

function pos_str :: "int \<Rightarrow> string" where
  "pos_str n = (if n < 10 then [digit_char (nat n)] else pos_str (n div 10) @ [digit_char (nat (n mod 10))])"
  by pat_completeness auto
termination
  by (relation "measure nat") (auto simp: nat_less_eq_zless)

declare pos_str.simps [simp del]

lemma nat_str_pos_str [code]: "nat_str n = pos_str (int n)"
proof (induction n rule: nat_str.induct)
  case (1 n)
  then show ?case
    by (simp add: nat_str.simps [of n] pos_str.simps [of "int n"] nat_mod_distrib zdiv_int)
qed

lemma int_str_code [code]: "int_str n = (if n < 0 then CHR ''-'' # pos_str (- n) else pos_str n)"
  by (simp add: int_str_def nat_str_pos_str)

section \<open>Lemmas\<close>

lemma code_digit_char [simp]: "d < 10 \<Longrightarrow> code (digit_char d) = 48 + d"
  by (simp add: code_def digit_char_def of_char_of take_bit_eq_mod)

lemma digit_char_props [simp]:
  assumes "d < 10"
  shows "is_decimal (digit_char d)" and "digit_val (digit_char d) = int d"
  using assms by (simp_all add: is_decimal_def digit_val_def)

lemma is_decimal_not_special:
  assumes "is_decimal c"
  shows "c \<noteq> CHR ''_''" "c \<noteq> CHR ''-''" "c \<noteq> CHR ''+''" "\<not> is_space c" "is_digit c"
    "c \<noteq> CHR '',''" "c \<noteq> CHR 0x22" "c \<noteq> CHR 0x0A" "c \<noteq> CHR 0x0D" "c \<noteq> CHR ''e''"
  using assms by (auto simp: is_decimal_def is_digit_def code_def is_space_def Let_def)

lemma dec_value_append_single: "dec_value (s @ [c]) = 10 * dec_value s + digit_val c"
  by (simp add: dec_value_def)

lemma dec_value_nat_str [simp]: "dec_value (nat_str n) = int n"
proof (induction n rule: nat_str.induct)
  case (1 n)
  show ?case
  proof (cases "n < 10")
    case True
    then show ?thesis by (simp add: nat_str.simps [of n] dec_value_def)
  next
    case False
    with 1 show ?thesis
      by (simp add: nat_str.simps [of n] dec_value_append_single zdiv_int zmod_int)
  qed
qed

lemma nat_str_decimal: "list_all is_decimal (nat_str n)"
proof (induction n rule: nat_str.induct)
  case (1 n)
  then show ?case by (cases "n < 10") (simp_all add: nat_str.simps [of n])
qed

lemma nat_str_not_Nil [simp]: "nat_str n \<noteq> []"
  by (subst nat_str.simps) simp

lemma length_nat_str_le: "n < 10 ^ k \<Longrightarrow> 0 < k \<Longrightarrow> length (nat_str n) \<le> k"
proof (induction k arbitrary: n)
  case (Suc k)
  show ?case
  proof (cases "n < 10")
    case True
    then show ?thesis by (simp add: nat_str.simps [of n])
  next
    case False
    with Suc.prems have "0 < k" "n div 10 < 10 ^ k" by (auto intro: gr0I simp: div_less_iff_less_mult)
    with False Suc.IH [of "n div 10"] show ?thesis by (simp add: nat_str.simps [of n])
  qed
qed simp

lemma drop_underscores_decimal: "list_all is_decimal s \<Longrightarrow> drop_underscores d s = Some s"
  by (induction s arbitrary: d) (auto dest: is_decimal_not_special)

lemma dropWhile_decimal_space: "list_all is_decimal s \<Longrightarrow> dropWhile is_space s = s"
  by (cases s) (auto dest: is_decimal_not_special)

lemma strip_no_space: "(\<And>c. c \<in> set s \<Longrightarrow> \<not> is_space c) \<Longrightarrow> strip s = s"
proof -
  assume ns: "\<And>c. c \<in> set s \<Longrightarrow> \<not> is_space c"
  have "dropWhile is_space t = t" if "set t \<subseteq> set s" for t
    using that ns by (cases t) auto
  then show ?thesis by (simp add: strip_def)
qed

lemma strip_decimal: "list_all is_decimal s \<Longrightarrow> strip s = s"
  by (rule strip_no_space) (auto simp: list_all_iff dest: is_decimal_not_special)

lemma split_sign_decimal: "list_all is_decimal s \<Longrightarrow> split_sign s = (False, s)"
  by (cases s) (auto simp: split_sign_def dest: is_decimal_not_special)

lemma int_str_chars: "c \<in> set (int_str n) \<Longrightarrow> is_decimal c \<or> c = CHR ''-''"
  using nat_str_decimal by (auto simp: int_str_def list_all_iff split: if_splits)

lemma not_space_minus [simp]: "\<not> is_space (CHR ''-'')"
  by (simp add: is_space_def code_def Let_def)

lemma strip_int_str [simp]: "strip (int_str n) = int_str n"
  by (rule strip_no_space) (auto dest!: int_str_chars dest: is_decimal_not_special)

text \<open>Printing an integer and reading it back is the identity, within the digit limit.\<close>

lemma py_int_int_str:
  assumes "\<bar>n\<bar> < 10 ^ int_max_str_digits"
  shows "py_int (int_str n) = Inr n"
proof -
  let ?m = "nat \<bar>n\<bar>"
  have m: "?m < 10 ^ int_max_str_digits" using assms by (simp add: nat_less_iff)
  have "0 < int_max_str_digits" by (simp add: int_max_str_digits_def)
  with m have len: "length (nat_str ?m) \<le> int_max_str_digits" by (rule length_nat_str_le)
  have body: "split_sign (int_str n) = (n < 0, nat_str ?m)"
  proof (cases "n < 0")
    case True
    then show ?thesis by (simp add: int_str_def split_sign_def)
  next
    case False
    then show ?thesis by (simp add: int_str_def split_sign_decimal nat_str_decimal)
  qed
  show ?thesis
    using len by (simp add: py_int_def body drop_underscores_decimal nat_str_decimal)
qed

text \<open>Every number the programs handle is far below the digit limit.\<close>

lemma below_digit_limit: "(n :: nat) < 10 ^ 100 \<Longrightarrow> n < 10 ^ int_max_str_digits"
  by (rule order.strict_trans2, assumption, rule power_increasing) (simp_all add: int_max_str_digits_def)

lemma below_digit_limit_int: "\<bar>n :: int\<bar> < 10 ^ 100 \<Longrightarrow> \<bar>n\<bar> < 10 ^ int_max_str_digits"
  by (rule order.strict_trans2, assumption, rule power_increasing) (simp_all add: int_max_str_digits_def)

lemma isdigit_int_str: "isdigit (lstrip_signs (int_str n))"
proof -
  have "lstrip_signs (nat_str m) = nat_str m" for m
    using nat_str_decimal [of m] by (cases "nat_str m") (auto simp: lstrip_signs_def dest: is_decimal_not_special)
  moreover have "isdigit (nat_str m)" for m
    using nat_str_decimal [of m] by (auto simp: isdigit_def list_all_iff dest: is_decimal_not_special)
  ultimately show ?thesis by (auto simp: int_str_def lstrip_signs_def)
qed

end
