(* ===== verification/PyCsv.thy ===== *)
theory PyCsv
  imports PyText
begin

text \<open>
  Python's \<open>csv\<close> module in its default dialect (comma, double quote, doubled quotes, not
  strict), as the loader reads with it and the listener writes with it: the text of a file
  opened with \<open>newline=""\<close> is cut into lines, and the reader is the character automaton of
  CPython's \<open>_csv.c\<close>. The writer quotes a field only when it must. The round trip of
  writer and reader is proved at the end.
\<close>

section \<open>Lines\<close>

abbreviation LF :: char where "LF \<equiv> CHR 0x0A"
abbreviation CR :: char where "CR \<equiv> CHR 0x0D"
abbreviation DQ :: char where "DQ \<equiv> CHR 0x22"
abbreviation COMMA :: char where "COMMA \<equiv> CHR '',''"

fun take_line :: "string \<Rightarrow> string \<times> string" where
  "take_line [] = ([], [])"
| "take_line (c # s) =
     (if c = LF then ([c], s)
      else if c = CR then (case s of
          [] \<Rightarrow> ([c], [])
        | c' # s' \<Rightarrow> if c' = LF then ([c, c'], s') else ([c], s))
      else let (l, r) = take_line s in (c # l, r))"

lemma take_line_length: "s \<noteq> [] \<Longrightarrow> length (snd (take_line s)) < length s"
proof (induction s)
  case (Cons c s)
  consider "c = LF" | "c = CR" | "c \<noteq> LF" "c \<noteq> CR" by blast
  then show ?case
  proof cases
    case 2
    then show ?thesis by (cases s) simp_all
  next
    case 3
    then show ?thesis using Cons.IH by (cases "s = []") (simp_all add: split_beta)
  qed simp
qed simp

function py_lines :: "string \<Rightarrow> string list" where
  "py_lines s = (if s = [] then [] else fst (take_line s) # py_lines (snd (take_line s)))"
  by pat_completeness auto
termination
  by (relation "measure length") (simp_all add: take_line_length)

declare py_lines.simps [simp del]

section \<open>The reader\<close>

datatype csv_state =
    START_RECORD | START_FIELD | IN_FIELD | IN_QUOTED_FIELD | QUOTE_IN_QUOTED_FIELD | EAT_CRNL

record csv_parser =
  csv_st :: csv_state
  csv_field :: string
  csv_fields :: "string list"

definition csv_fresh :: csv_parser where
  "csv_fresh = \<lparr>csv_st = START_RECORD, csv_field = [], csv_fields = []\<rparr>"

definition field_size_limit :: int where
  "field_size_limit = 131072"

definition csv_save_field :: "csv_state \<Rightarrow> csv_parser \<Rightarrow> csv_parser" where
  "csv_save_field st p = \<lparr>csv_st = st, csv_field = [], csv_fields = csv_fields p @ [csv_field p]\<rparr>"

definition csv_add_char :: "csv_state \<Rightarrow> char \<Rightarrow> csv_parser \<Rightarrow> csv_parser res" where
  "csv_add_char st c p =
     (if field_size_limit \<le> int (length (csv_field p)) then Inl (CsvError ''field larger than field limit'')
      else Inr (p\<lparr>csv_st := st, csv_field := csv_field p @ [c]\<rparr>))"

text \<open>\<open>None\<close> is the end of a line, which the reader processes like a character.\<close>

definition csv_start_field :: "csv_parser \<Rightarrow> char option \<Rightarrow> csv_parser res" where
  "csv_start_field p oc = (case oc of
      None \<Rightarrow> Inr (csv_save_field START_RECORD p)
    | Some c \<Rightarrow>
        if c = LF \<or> c = CR then Inr (csv_save_field EAT_CRNL p)
        else if c = DQ then Inr (p\<lparr>csv_st := IN_QUOTED_FIELD\<rparr>)
        else if c = COMMA then Inr (csv_save_field START_FIELD p)
        else csv_add_char IN_FIELD c p)"

definition csv_process_char :: "csv_parser \<Rightarrow> char option \<Rightarrow> csv_parser res" where
  "csv_process_char p oc = (case csv_st p of
      START_RECORD \<Rightarrow> (case oc of
          None \<Rightarrow> Inr p
        | Some c \<Rightarrow> if c = LF \<or> c = CR then Inr (p\<lparr>csv_st := EAT_CRNL\<rparr>) else csv_start_field p oc)
    | START_FIELD \<Rightarrow> csv_start_field p oc
    | IN_FIELD \<Rightarrow> (case oc of
          None \<Rightarrow> Inr (csv_save_field START_RECORD p)
        | Some c \<Rightarrow>
            if c = LF \<or> c = CR then Inr (csv_save_field EAT_CRNL p)
            else if c = COMMA then Inr (csv_save_field START_FIELD p)
            else csv_add_char IN_FIELD c p)
    | IN_QUOTED_FIELD \<Rightarrow> (case oc of
          None \<Rightarrow> Inr p
        | Some c \<Rightarrow>
            if c = DQ then Inr (p\<lparr>csv_st := QUOTE_IN_QUOTED_FIELD\<rparr>)
            else csv_add_char IN_QUOTED_FIELD c p)
    | QUOTE_IN_QUOTED_FIELD \<Rightarrow> (case oc of
          None \<Rightarrow> Inr (csv_save_field START_RECORD p)
        | Some c \<Rightarrow>
            if c = DQ then csv_add_char IN_QUOTED_FIELD c p
            else if c = COMMA then Inr (csv_save_field START_FIELD p)
            else if c = LF \<or> c = CR then Inr (csv_save_field EAT_CRNL p)
            else csv_add_char IN_FIELD c p)
    | EAT_CRNL \<Rightarrow> (case oc of
          None \<Rightarrow> Inr (p\<lparr>csv_st := START_RECORD\<rparr>)
        | Some c \<Rightarrow> if c = LF \<or> c = CR then Inr p
            else Inl (CsvError ''new-line character seen in unquoted field'')))"

fun csv_process_line :: "csv_parser \<Rightarrow> string \<Rightarrow> csv_parser res" where
  "csv_process_line p [] = csv_process_char p None"
| "csv_process_line p (c # s) = res_bind (csv_process_char p (Some c)) (\<lambda>p'. csv_process_line p' s)"

text \<open>
  The rows the reader yields over the lines of a file, and the exception that ends them, if any.
  A record may span lines (a quoted line break); a file that ends inside one yields what there is.
\<close>

fun csv_rows :: "csv_parser \<Rightarrow> string list \<Rightarrow> string list list \<times> py_error option" where
  "csv_rows p [] =
     (if csv_field p \<noteq> [] \<or> csv_st p = IN_QUOTED_FIELD
      then ([csv_fields p @ [csv_field p]], None) else ([], None))"
| "csv_rows p (l # ls) =
     (case csv_process_line p l of
        Inl e \<Rightarrow> ([], Some e)
      | Inr p' \<Rightarrow>
          if csv_st p' = START_RECORD
          then (let (rows, err) = csv_rows csv_fresh ls in (csv_fields p' # rows, err))
          else csv_rows p' ls)"

definition csv_reader :: "string \<Rightarrow> string list list \<times> py_error option" where
  "csv_reader text = csv_rows csv_fresh (py_lines text)"

text \<open>
  \<open>csv.DictReader\<close>: the first row names the fields, blank rows are skipped, a short row is
  filled with \<open>None\<close>. (Surplus cells go under the key \<open>None\<close>, which the loader never
  reads.)
\<close>

definition dict_row :: "string list \<Rightarrow> string list \<Rightarrow> (string, string option) dict" where
  "dict_row header row =
     foldl (\<lambda>d k. dict_put d k None)
       (foldl (\<lambda>d (k, v). dict_put d k (Some v)) [] (zip header row))
       (drop (length row) header)"

section \<open>The writer\<close>

definition csv_special :: "char \<Rightarrow> bool" where
  "csv_special c = (c = COMMA \<or> c = DQ \<or> c = LF \<or> c = CR)"

definition csv_quote :: "string \<Rightarrow> string" where
  "csv_quote s = (if list_ex csv_special s
     then DQ # concat (map (\<lambda>c. if c = DQ then [DQ, DQ] else [c]) s) @ [DQ] else s)"

text \<open>A row of one empty field is written as a quoted empty field.\<close>

fun csv_join :: "string list \<Rightarrow> string" where
  "csv_join [] = []"
| "csv_join [f] = csv_quote f"
| "csv_join (f # fs) = csv_quote f @ COMMA # csv_join fs"

definition csv_write_row :: "string list \<Rightarrow> string" where
  "csv_write_row fs = (if fs = [[]] then [DQ, DQ] else csv_join fs) @ [CR, LF]"

definition csv_write :: "string list list \<Rightarrow> string" where
  "csv_write rows = concat (map csv_write_row rows)"

section \<open>Round trip\<close>

text \<open>A plain field: what numbers and column names look like.\<close>

definition plain_field :: "string \<Rightarrow> bool" where
  "plain_field s = (s \<noteq> [] \<and> list_all (\<lambda>c. \<not> csv_special c) s \<and> int (length s) \<le> field_size_limit)"

lemma csv_quote_plain: "plain_field s \<Longrightarrow> csv_quote s = s"
  by (auto simp: csv_quote_def plain_field_def list_all_iff list_ex_iff)

lemma take_line_plain:
  "list_all (\<lambda>c. c \<noteq> LF \<and> c \<noteq> CR) s \<Longrightarrow> take_line (s @ CR # LF # t) = (s @ [CR, LF], t)"
  by (induction s) auto

lemma py_lines_line:
  "list_all (\<lambda>c. c \<noteq> LF \<and> c \<noteq> CR) s \<Longrightarrow> py_lines (s @ CR # LF # t) = (s @ [CR, LF]) # py_lines t"
  by (subst py_lines.simps) (simp add: take_line_plain)

lemma py_lines_Nil [simp]: "py_lines [] = []"
  by (subst py_lines.simps) simp

lemma csv_process_line_append:
  "(\<forall>c \<in> set s. \<not> csv_special c) \<Longrightarrow> csv_st p = IN_FIELD \<Longrightarrow>
   int (length (csv_field p)) + int (length s) \<le> field_size_limit \<Longrightarrow>
   csv_process_line p (s @ t) = csv_process_line (p\<lparr>csv_field := csv_field p @ s\<rparr>) t"
proof (induction s arbitrary: p)
  case (Cons c s)
  have "csv_process_char p (Some c) = Inr (p\<lparr>csv_field := csv_field p @ [c]\<rparr>)"
    using Cons.prems by (simp add: csv_process_char_def csv_add_char_def csv_special_def)
  then show ?case using Cons by simp
qed simp

lemma csv_process_field:
  assumes "plain_field s" and "csv_st p = START_RECORD \<or> csv_st p = START_FIELD" and "csv_field p = []"
  shows "csv_process_line p (s @ t) = csv_process_line (p\<lparr>csv_st := IN_FIELD, csv_field := s\<rparr>) t"
proof (cases s)
  case (Cons c s')
  have c: "csv_process_char p (Some c) = Inr (p\<lparr>csv_st := IN_FIELD, csv_field := [c]\<rparr>)"
    using assms Cons
    by (auto simp: csv_process_char_def csv_start_field_def csv_add_char_def csv_special_def
        plain_field_def field_size_limit_def)
  show ?thesis
    using assms Cons csv_process_line_append [of s' "p\<lparr>csv_st := IN_FIELD, csv_field := [c]\<rparr>" t]
    by (simp add: c plain_field_def list_all_iff)
qed (use assms in \<open>simp add: plain_field_def\<close>)

lemma csv_process_comma:
  "csv_st p = IN_FIELD \<Longrightarrow> csv_process_line p (COMMA # t) = csv_process_line (csv_save_field START_FIELD p) t"
  by (simp add: csv_process_char_def)

lemma csv_process_crlf:
  "csv_st p = IN_FIELD \<Longrightarrow> csv_process_line p [CR, LF] = Inr (csv_save_field START_RECORD p)"
  by (simp add: csv_process_char_def csv_save_field_def)

lemma csv_process_row:
  assumes "list_all plain_field fs" and "fs \<noteq> []"
    and "csv_st p = START_RECORD \<or> csv_st p = START_FIELD" and "csv_field p = []"
  shows "csv_process_line p (csv_join fs @ [CR, LF])
    = Inr \<lparr>csv_st = START_RECORD, csv_field = [], csv_fields = csv_fields p @ fs\<rparr>"
  using assms
proof (induction fs arbitrary: p rule: csv_join.induct)
  case (2 f)
  then have "plain_field f" by simp
  then have "csv_process_line p (csv_join [f] @ [CR, LF])
      = csv_process_line (p\<lparr>csv_st := IN_FIELD, csv_field := f\<rparr>) [CR, LF]"
    using "2.prems"(3,4) by (simp only: csv_join.simps csv_quote_plain csv_process_field)
  also have "\<dots> = Inr (csv_save_field START_RECORD (p\<lparr>csv_st := IN_FIELD, csv_field := f\<rparr>))"
    by (rule csv_process_crlf) simp
  finally show ?case by (simp add: csv_save_field_def)
next
  case (3 f g fs)
  let ?p = "\<lparr>csv_st = START_FIELD, csv_field = [], csv_fields = csv_fields p @ [f]\<rparr>"
  have f: "plain_field f" using "3.prems"(1) by simp
  have "csv_join (f # g # fs) @ [CR, LF] = f @ COMMA # (csv_join (g # fs) @ [CR, LF])"
    by (simp only: csv_join.simps csv_quote_plain [OF f] append_assoc append_Cons)
  then have "csv_process_line p (csv_join (f # g # fs) @ [CR, LF])
      = csv_process_line (p\<lparr>csv_st := IN_FIELD, csv_field := f\<rparr>) (COMMA # (csv_join (g # fs) @ [CR, LF]))"
    using "3.prems"(3,4) by (simp only: csv_process_field [OF f])
  also have "\<dots> = csv_process_line (csv_save_field START_FIELD (p\<lparr>csv_st := IN_FIELD, csv_field := f\<rparr>))
      (csv_join (g # fs) @ [CR, LF])"
    by (rule csv_process_comma) simp
  also have "\<dots> = csv_process_line ?p (csv_join (g # fs) @ [CR, LF])"
    by (simp add: csv_save_field_def)
  also have "\<dots> = Inr \<lparr>csv_st = START_RECORD, csv_field = [], csv_fields = csv_fields ?p @ (g # fs)\<rparr>"
    using "3.prems" by (intro "3.IH") simp_all
  finally show ?case by simp
qed simp

lemma plain_field_no_break: "plain_field s \<Longrightarrow> list_all (\<lambda>c. c \<noteq> LF \<and> c \<noteq> CR) s"
  unfolding plain_field_def list_all_iff csv_special_def by blast

lemma csv_join_no_break:
  "list_all plain_field fs \<Longrightarrow> list_all (\<lambda>c. c \<noteq> LF \<and> c \<noteq> CR) (csv_join fs)"
  by (induction fs rule: csv_join.induct) (simp_all add: csv_quote_plain plain_field_no_break)

text \<open>What the writer wrote of non-empty rows of plain fields, the reader reads back.\<close>

lemma csv_reader_write:
  assumes "\<forall>r \<in> set rows. r \<noteq> [] \<and> list_all plain_field r"
  shows "csv_reader (csv_write rows) = (rows, None)"
  using assms
proof (induction rows)
  case Nil
  then show ?case by (simp add: csv_reader_def csv_write_def csv_fresh_def)
next
  case (Cons r rows)
  then have r: "r \<noteq> []" "list_all plain_field r" by auto
  have "csv_write_row r = csv_join r @ [CR, LF]"
    using r by (auto simp: csv_write_row_def plain_field_def)
  then have "csv_write (r # rows) = csv_join r @ CR # LF # csv_write rows"
    by (simp add: csv_write_def)
  then have "py_lines (csv_write (r # rows)) = (csv_join r @ [CR, LF]) # py_lines (csv_write rows)"
    using csv_join_no_break [OF r(2)] by (simp add: py_lines_line)
  moreover have "csv_process_line csv_fresh (csv_join r @ [CR, LF])
      = Inr \<lparr>csv_st = START_RECORD, csv_field = [], csv_fields = r\<rparr>"
    using csv_process_row [OF r(2,1), of csv_fresh] by (simp add: csv_fresh_def)
  moreover have "csv_rows csv_fresh (py_lines (csv_write rows)) = (rows, None)"
    using Cons by (simp add: csv_reader_def)
  ultimately show ?case by (simp add: csv_reader_def)
qed

end
