(* ===== verification/NumPy.thy ===== *)
theory NumPy
  imports Float64
begin

text \<open>
  NumPy and SciPy are not part of the repository: the functions the sources call by name are
  the fields of the records \<open>numpy\<close> and \<open>scipy\<close>, which the definitions that use
  them take as an argument. What their documentation promises, and the analysis relies on, is
  stated as the locales \<open>numpy_int\<close> (reductions of integer arrays) and
  \<open>numpy_float\<close> (sorting, searching and percentiles of float arrays). A one-dimensional
  array is the list of its elements; slices, masks, element-wise operators and \<open>size\<close> are
  list operations. The last section is an executable instance, \<open>np_ref\<close>, that satisfies
  every law.
\<close>

section \<open>The interface\<close>

record numpy =
  np_imax :: "int list \<Rightarrow> int"
  np_unique :: "int list \<Rightarrow> int list"
  np_unique_counts :: "int list \<Rightarrow> int list \<times> nat list"
  np_maximum_accumulate :: "int list \<Rightarrow> int list"
  np_count_nonzero :: "bool list \<Rightarrow> nat"
  np_argmax :: "nat list \<Rightarrow> nat"
  np_isum :: "int list \<Rightarrow> int"
  np_sort :: "f64 list \<Rightarrow> f64 list"
  np_searchsorted_left :: "f64 list \<Rightarrow> f64 \<Rightarrow> nat"
  np_searchsorted_right :: "f64 list \<Rightarrow> f64 \<Rightarrow> nat"
  np_fmin :: "f64 list \<Rightarrow> f64"
  np_fmax :: "f64 list \<Rightarrow> f64"
  np_percentile :: "f64 list \<Rightarrow> f64 \<Rightarrow> string \<Rightarrow> f64 res"

text \<open>Functions of NumPy and SciPy of which no theorem needs a law.\<close>

record scipy =
  np_mean :: "f64 list \<Rightarrow> f64"
  np_std1 :: "f64 list \<Rightarrow> f64"
  np_sqrt :: "f64 \<Rightarrow> f64"
  sps_t_ppf :: "f64 \<Rightarrow> nat \<Rightarrow> f64"
  sps_mannwhitneyu :: "f64 list \<Rightarrow> f64 list \<Rightarrow> f64 \<times> f64"

text \<open>
  \<open>numpy.random.default_rng\<close> and its \<open>integers(0, high, size=(rows, cols))\<close>, which
  returns the drawn matrix and leaves the generator advanced.
\<close>

record 'g np_random =
  default_rng :: "int \<Rightarrow> 'g res"
  rng_integers :: "'g \<Rightarrow> nat \<Rightarrow> nat \<Rightarrow> nat \<Rightarrow> nat list list \<times> 'g"

definition int64 :: "int \<Rightarrow> bool" where
  "int64 n = (- (2 ^ 63) \<le> n \<and> n < 2 ^ 63)"

definition no_nan :: "f64 list \<Rightarrow> bool" where
  "no_nan xs = list_all (\<lambda>x. \<not> is_nan x) xs"

text \<open>
  Binary64 numbers well away from the overflow threshold, so that the difference of two of them
  is finite too.
\<close>

definition moderate :: "f64 list \<Rightarrow> bool" where
  "moderate xs = list_all (\<lambda>x. f64_wf x \<and> is_finite x \<and> \<bar>fval x\<bar> \<le> 2 ^ 1000) xs"

text \<open>The interpolation methods that \<open>numpy.percentile\<close> documents.\<close>

definition percentile_methods :: "string list" where
  "percentile_methods =
     [''inverted_cdf'', ''averaged_inverted_cdf'', ''closest_observation'',
      ''interpolated_inverted_cdf'', ''hazen'', ''weibull'', ''linear'', ''median_unbiased'',
      ''normal_unbiased'', ''lower'', ''higher'', ''midpoint'', ''nearest'']"

section \<open>The documented behaviour\<close>

locale numpy_int =
  fixes np :: numpy
  assumes imax: "xs \<noteq> [] \<Longrightarrow> np_imax np xs = Max (set xs)"
    and unique_sorted: "sorted (np_unique np xs)"
    and unique_distinct: "distinct (np_unique np xs)"
    and unique_set: "set (np_unique np xs) = set xs"
    and unique_counts: "np_unique_counts np xs = (np_unique np xs, map (count_list xs) (np_unique np xs))"
    and accumulate_length: "length (np_maximum_accumulate np xs) = length xs"
    and accumulate_nth: "i < length xs \<Longrightarrow> np_maximum_accumulate np xs ! i = Max (set (take (Suc i) xs))"
    and count_nonzero: "np_count_nonzero np bs = length (filter id bs)"
    and argmax_less: "ns \<noteq> [] \<Longrightarrow> np_argmax np ns < length ns"
    and argmax_max: "ns \<noteq> [] \<Longrightarrow> ns ! np_argmax np ns = Max (set ns)"
    and argmax_first: "ns \<noteq> [] \<Longrightarrow> j < np_argmax np ns \<Longrightarrow> ns ! j < Max (set ns)"
    and isum: "int64 (sum_list xs) \<Longrightarrow> np_isum np xs = sum_list xs"
begin

lemma unique_size: "length (np_unique np xs) = card (set xs)"
  using distinct_card [OF unique_distinct, of xs] by (simp add: unique_set)

lemma unique_eq_sorted_list: "np_unique np xs = sorted_list_of_set (set xs)"
  by (rule sorted_distinct_set_unique)
    (simp_all add: unique_sorted unique_distinct unique_set)

lemma unique_counts_total: "sum_list (snd (np_unique_counts np xs)) = length xs"
  by (simp add: unique_counts sum_count_list unique_distinct unique_set)

lemma accumulate_Cons: "np_maximum_accumulate np (x # xs) = x # map (max x) (np_maximum_accumulate np xs)"
proof (rule nth_equalityI)
  show "length (np_maximum_accumulate np (x # xs)) = length (x # map (max x) (np_maximum_accumulate np xs))"
    by (simp add: accumulate_length)
next
  fix i assume "i < length (np_maximum_accumulate np (x # xs))"
  then have i: "i < Suc (length xs)" by (simp add: accumulate_length)
  show "np_maximum_accumulate np (x # xs) ! i = (x # map (max x) (np_maximum_accumulate np xs)) ! i"
  proof (cases i)
    case 0
    then show ?thesis using accumulate_nth [of 0 "x # xs"] by simp
  next
    case (Suc j)
    with i have j: "j < length xs" by simp
    then have "set (take (Suc j) xs) \<noteq> {}" by (cases xs) auto
    then show ?thesis
      using Suc j accumulate_nth [of i "x # xs"] accumulate_nth [of j xs]
      by (simp add: accumulate_length)
  qed
qed

lemma accumulate_Nil: "np_maximum_accumulate np [] = []"
  using accumulate_length [of "[]"] by simp

end

locale numpy_float = numpy_int np for np :: numpy +
  assumes sort_mset: "no_nan xs \<Longrightarrow> mset (np_sort np xs) = mset xs"
    and sort_sorted: "no_nan xs \<Longrightarrow> sorted_wrt f_le (np_sort np xs)"
    and searchsorted_left:
      "no_nan xs \<Longrightarrow> sorted_wrt f_le xs \<Longrightarrow> \<not> is_nan v \<Longrightarrow>
         np_searchsorted_left np xs v \<le> length xs
         \<and> (\<forall>j < np_searchsorted_left np xs v. f_lt (xs ! j) v)
         \<and> (\<forall>j < length xs. np_searchsorted_left np xs v \<le> j \<longrightarrow> f_le v (xs ! j))"
    and searchsorted_right:
      "no_nan xs \<Longrightarrow> sorted_wrt f_le xs \<Longrightarrow> \<not> is_nan v \<Longrightarrow>
         np_searchsorted_right np xs v \<le> length xs
         \<and> (\<forall>j < np_searchsorted_right np xs v. f_le (xs ! j) v)
         \<and> (\<forall>j < length xs. np_searchsorted_right np xs v \<le> j \<longrightarrow> f_lt v (xs ! j))"
    and fmin_least: "no_nan xs \<Longrightarrow> xs \<noteq> [] \<Longrightarrow> np_fmin np xs \<in> set xs \<and> (\<forall>x \<in> set xs. f_le (np_fmin np xs) x)"
    and fmax_greatest: "no_nan xs \<Longrightarrow> xs \<noteq> [] \<Longrightarrow> np_fmax np xs \<in> set xs \<and> (\<forall>x \<in> set xs. f_le x (np_fmax np xs))"
    and percentile_range:
      "moderate xs \<Longrightarrow> xs \<noteq> [] \<Longrightarrow> f_le (Num 0) q \<Longrightarrow> f_le q (Num 100) \<Longrightarrow> m \<in> set percentile_methods \<Longrightarrow>
         \<exists>p. np_percentile np xs q m = Inr p \<and> f64_wf p \<and> f_le (np_fmin np xs) p \<and> f_le p (np_fmax np xs)"
    and percentile_q_error:
      "xs \<noteq> [] \<Longrightarrow> \<not> (f_le (Num 0) q \<and> f_le q (Num 100)) \<Longrightarrow>
         \<exists>msg. np_percentile np xs q m = Inl (ValueError msg)"
begin

text \<open>
  A position that splits a list into elements with and without a property is the number of
  elements with it; \<open>searchsorted\<close> on a sorted array counts.
\<close>

lemma split_position_count:
  assumes "k \<le> length xs" and "\<forall>j < k. P (xs ! j)" and "\<forall>j < length xs. k \<le> j \<longrightarrow> \<not> P (xs ! j)"
  shows "length (filter P xs) = k"
proof -
  have "filter P (take k xs) = take k xs"
    using assms(1,2) by (auto simp: filter_id_conv in_set_conv_nth)
  moreover have "filter P (drop k xs) = []"
    using assms(1,3) by (auto simp: filter_empty_conv in_set_conv_nth)
  ultimately have "filter P (take k xs @ drop k xs) = take k xs"
    by (simp only: filter_append append_Nil2)
  then have "filter P xs = take k xs" by simp
  then show ?thesis using assms(1) by simp
qed

lemma searchsorted_left_sort:
  assumes "no_nan xs" and "\<not> is_nan v"
  shows "np_searchsorted_left np (np_sort np xs) v = length (filter (\<lambda>y. f_lt y v) xs)"
proof -
  let ?s = "np_sort np xs"
  have m: "mset ?s = mset xs" using assms(1) by (rule sort_mset)
  then have "no_nan ?s" using assms(1) by (metis no_nan_def list_all_iff mset_eq_setD)
  from searchsorted_left [OF this sort_sorted [OF assms(1)] assms(2)]
  have "length (filter (\<lambda>y. f_lt y v) ?s) = np_searchsorted_left np ?s v"
    by (intro split_position_count) (auto simp: f_le_def)
  then show ?thesis using m by (metis mset_filter size_mset)
qed

lemma searchsorted_right_sort:
  assumes "no_nan xs" and "\<not> is_nan v"
  shows "np_searchsorted_right np (np_sort np xs) v = length (filter (\<lambda>y. f_le y v) xs)"
proof -
  let ?s = "np_sort np xs"
  have m: "mset ?s = mset xs" using assms(1) by (rule sort_mset)
  then have "no_nan ?s" using assms(1) by (metis no_nan_def list_all_iff mset_eq_setD)
  from searchsorted_right [OF this sort_sorted [OF assms(1)] assms(2)]
  have "length (filter (\<lambda>y. f_le y v) ?s) = np_searchsorted_right np ?s v"
    by (intro split_position_count) (auto simp: f_le_def)
  then show ?thesis using m by (metis mset_filter size_mset)
qed

lemma sort_length: "no_nan xs \<Longrightarrow> length (np_sort np xs) = length xs"
  by (metis sort_mset size_mset)

end

section \<open>An instance\<close>

fun ref_accumulate :: "int list \<Rightarrow> int list" where
  "ref_accumulate [] = []"
| "ref_accumulate (x # xs) = x # map (max x) (ref_accumulate xs)"

fun f_insort :: "f64 \<Rightarrow> f64 list \<Rightarrow> f64 list" where
  "f_insort x [] = [x]"
| "f_insort x (y # ys) = (if f_le x y then x # y # ys else y # f_insort x ys)"

definition f_sort :: "f64 list \<Rightarrow> f64 list" where
  "f_sort xs = foldr f_insort xs []"

definition ref_max :: "'a::linorder list \<Rightarrow> 'a" where
  "ref_max xs = fold max (tl xs) (hd xs)"

text \<open>Linear interpolation between the two order statistics around \<open>(n - 1) * q / 100\<close>.\<close>

definition ref_percentile :: "f64 list \<Rightarrow> f64 \<Rightarrow> string \<Rightarrow> f64 res" where
  "ref_percentile xs q m =
     (if \<not> (f_le (Num 0) q \<and> f_le q (Num 100))
      then Inl (ValueError ''Percentiles must be in the range [0, 100]'')
      else if m \<notin> set percentile_methods then Inl (ValueError ''unknown method'')
      else let s = f_sort xs; h = of_nat (length xs - 1) * fval q / 100; i = nat \<lfloor>h\<rfloor>;
               a = s ! i; b = s ! min (Suc i) (length xs - 1); t = h - of_nat i
           in if m = ''lower'' then Inr a
              else if m = ''higher'' then Inr (if t = 0 then a else b)
              else Inr (fpack False (fval a + (fval b - fval a) * t)))"

definition np_ref :: numpy where
  "np_ref = \<lparr>
     np_imax = ref_max,
     np_unique = (\<lambda>xs. sort (remdups xs)),
     np_unique_counts = (\<lambda>xs. (sort (remdups xs), map (count_list xs) (sort (remdups xs)))),
     np_maximum_accumulate = ref_accumulate,
     np_count_nonzero = (\<lambda>bs. length (filter id bs)),
     np_argmax = (\<lambda>ns. list_index ns (ref_max ns)),
     np_isum = sum_list,
     np_sort = f_sort,
     np_searchsorted_left = (\<lambda>xs v. length (takeWhile (\<lambda>y. f_lt y v) xs)),
     np_searchsorted_right = (\<lambda>xs v. length (takeWhile (\<lambda>y. f_le y v) xs)),
     np_fmin = (\<lambda>xs. hd (f_sort xs)),
     np_fmax = (\<lambda>xs. last (f_sort xs)),
     np_percentile = ref_percentile \<rparr>"

lemma ref_max_Max: "xs \<noteq> [] \<Longrightarrow> ref_max xs = Max (set xs)"
  by (cases xs) (simp_all add: ref_max_def Max.set_eq_fold del: list.set)

lemma ref_accumulate_length [simp]: "length (ref_accumulate xs) = length xs"
  by (induction xs) simp_all

lemma ref_accumulate_nth: "i < length xs \<Longrightarrow> ref_accumulate xs ! i = Max (set (take (Suc i) xs))"
proof (induction xs arbitrary: i)
  case (Cons x xs)
  show ?case
  proof (cases i)
    case (Suc j)
    then have "set (take (Suc j) xs) \<noteq> {}" using Cons.prems by (cases xs) auto
    then show ?thesis using Cons Suc by simp
  qed simp
qed simp

lemma list_index_before: "j < list_index xs x \<Longrightarrow> xs ! j \<noteq> x"
proof (induction xs arbitrary: j)
  case (Cons y ys)
  then show ?case by (cases j) (auto split: if_splits)
qed simp

lemma mset_f_insort: "mset (f_insort x xs) = add_mset x (mset xs)"
  by (induction xs) auto

lemma mset_f_sort: "mset (f_sort xs) = mset xs"
  by (induction xs) (simp_all add: f_sort_def mset_f_insort)

lemma set_f_sort [simp]: "set (f_sort xs) = set xs"
  by (metis mset_f_sort mset_eq_setD)

lemma length_f_sort [simp]: "length (f_sort xs) = length xs"
  by (metis mset_f_sort size_mset)

lemma set_f_insort: "set (f_insort x xs) = insert x (set xs)"
  by (induction xs) auto

lemma sorted_f_insort:
  "\<not> is_nan x \<Longrightarrow> no_nan xs \<Longrightarrow> sorted_wrt f_le xs \<Longrightarrow> sorted_wrt f_le (f_insort x xs)"
proof (induction xs)
  case (Cons y ys)
  then show ?case using f_le_linear [of x y]
    by (auto simp: set_f_insort no_nan_def intro: f_le_trans)
qed simp

lemma sorted_f_sort: "no_nan xs \<Longrightarrow> sorted_wrt f_le (f_sort xs)"
proof (induction xs)
  case (Cons x xs)
  then have "no_nan (f_sort xs)" by (simp add: no_nan_def list_all_iff)
  with Cons show ?case by (simp add: f_sort_def no_nan_def sorted_f_insort)
qed (simp add: f_sort_def)

lemma f_le_refl: "\<not> is_nan x \<Longrightarrow> f_le x x"
  by (simp add: f_le_def)

lemma sorted_wrt_f_le_nth:
  "sorted_wrt f_le xs \<Longrightarrow> no_nan xs \<Longrightarrow> i \<le> j \<Longrightarrow> j < length xs \<Longrightarrow> f_le (xs ! i) (xs ! j)"
  by (cases "i = j") (auto simp: sorted_wrt_iff_nth_less no_nan_def list_all_iff intro: f_le_refl)

lemma takeWhile_split:
  assumes s: "sorted_wrt f_le xs" "no_nan xs"
    and down: "\<forall>x y. f_le x y \<longrightarrow> \<not> P x \<longrightarrow> \<not> P y"
  shows "length (takeWhile P xs) \<le> length xs"
    and "j < length (takeWhile P xs) \<Longrightarrow> P (xs ! j)"
    and "j < length xs \<Longrightarrow> length (takeWhile P xs) \<le> j \<Longrightarrow> \<not> P (xs ! j)"
proof -
  let ?k = "length (takeWhile P xs)"
  show "?k \<le> length xs" by (rule length_takeWhile_le)
  show "P (xs ! j)" if "j < ?k"
    using that by (metis nth_mem set_takeWhileD takeWhile_nth)
  assume j: "j < length xs" "?k \<le> j"
  then have "\<not> P (xs ! ?k)" by (intro nth_length_takeWhile) simp
  moreover have "f_le (xs ! ?k) (xs ! j)" using s j by (intro sorted_wrt_f_le_nth)
  ultimately show "\<not> P (xs ! j)" using down by blast
qed

lemma f_sort_nthE:
  assumes "x \<in> set xs"
  obtains i where "i < length xs" and "f_sort xs ! i = x"
  using assms by (metis in_set_conv_nth length_f_sort set_f_sort)

lemma moderate_no_nan: "moderate xs \<Longrightarrow> no_nan xs"
  by (auto simp: moderate_def no_nan_def list_all_iff is_finite_def)

lemma moderate_of_ints:
  assumes "list_all (\<lambda>n. \<bar>n\<bar> \<le> 2 ^ 53) ns"
  shows "moderate (map (\<lambda>n. Num (of_int n)) ns)"
proof -
  have b: "\<bar>of_int n :: rat\<bar> \<le> 2 ^ 53" if "n \<in> set ns" for n
  proof -
    have "of_int \<bar>n\<bar> \<le> (of_int (2 ^ 53) :: rat)" using assms that by (simp only: of_int_le_iff) (simp add: list_all_iff)
    then show ?thesis by simp
  qed
  have "(2::rat) ^ 53 \<le> 2 ^ 1000" "(2::rat) ^ 53 < 2 ^ 1024" by (intro power_increasing power_strict_increasing; simp)+
  then have "\<bar>of_int n :: rat\<bar> \<le> 2 ^ 1000" "\<bar>of_int n :: rat\<bar> < 2 ^ 1024" if "n \<in> set ns" for n
    using b [OF that] by linarith+
  then show ?thesis using assms by (simp add: moderate_def list_all_iff rnd_of_int_exact)
qed

lemma f_sort_end:
  assumes "no_nan xs" and "xs \<noteq> []"
  shows "hd (f_sort xs) \<in> set xs" and "last (f_sort xs) \<in> set xs"
    and "i < length xs \<Longrightarrow> f_le (hd (f_sort xs)) (f_sort xs ! i)"
    and "i < length xs \<Longrightarrow> f_le (f_sort xs ! i) (last (f_sort xs))"
proof -
  have ne: "f_sort xs \<noteq> []" using assms(2) by (metis length_0_conv length_f_sort)
  have nn: "no_nan (f_sort xs)" using assms(1) by (simp add: no_nan_def list_all_iff)
  note s = sorted_f_sort [OF assms(1)]
  show "hd (f_sort xs) \<in> set xs" "last (f_sort xs) \<in> set xs"
    using ne hd_in_set last_in_set by (metis set_f_sort)+
  show "f_le (hd (f_sort xs)) (f_sort xs ! i)" if "i < length xs"
    using sorted_wrt_f_le_nth [OF s nn, of 0 i] that ne by (simp add: hd_conv_nth)
  show "f_le (f_sort xs ! i) (last (f_sort xs))" if "i < length xs"
    using sorted_wrt_f_le_nth [OF s nn, of i "length xs - 1"] that ne by (simp add: last_conv_nth)
qed

text \<open>An interpolated value lies between its two ends, also after rounding.\<close>

lemma fpack_between:
  assumes "f64_wf a" "f64_wf b" "is_finite a" "is_finite b"
    and "fval a \<le> x" "x \<le> fval b"
  shows "f_le a (fpack False x)" and "f_le (fpack False x) b"
proof -
  have "rnd (fval a) = fval a" "\<bar>fval a\<bar> < 2 ^ 1024" using assms(1,3) by (cases a; simp)+
  moreover have "rnd (fval b) = fval b" "\<bar>fval b\<bar> < 2 ^ 1024" using assms(2,4) by (cases b; simp)+
  moreover note rnd_mono [OF assms(5)] rnd_mono [OF assms(6)]
  ultimately have "\<bar>rnd x\<bar> < 2 ^ 1024" "fval a \<le> rnd x" "rnd x \<le> fval b"
    by (auto simp: abs_less_iff)
  then show "f_le a (fpack False x)" and "f_le (fpack False x) b"
    using assms(3,4) by (simp_all add: fpack_small)
qed

lemma ref_percentile_range:
  assumes m: "moderate xs" and ne: "xs \<noteq> []" and q: "f_le (Num 0) q" "f_le q (Num 100)"
    and meth: "m \<in> set percentile_methods"
  shows "\<exists>p. ref_percentile xs q m = Inr p \<and> f64_wf p \<and> f_le (hd (f_sort xs)) p \<and> f_le p (last (f_sort xs))"
proof -
  define h where "h = of_nat (length xs - 1) * fval q / 100"
  define i where "i = nat \<lfloor>h\<rfloor>"
  define j where "j = min (Suc i) (length xs - 1)"
  define t where "t = h - of_nat i"
  let ?s = "f_sort xs"
  have fq: "0 \<le> fval q" "fval q \<le> 100"
    using q by (cases q; auto simp: f_le_def f_lt_def split: if_splits)+
  have len: "0 < length xs" using ne by simp
  have h: "0 \<le> h" "h \<le> of_nat (length xs - 1)"
    using fq by (simp_all add: h_def mult_left_mono mult_le_cancel_left1)
  have i: "i \<le> length xs - 1"
  proof -
    have "\<lfloor>h\<rfloor> \<le> int (length xs - 1)" using h(2) by linarith
    then show ?thesis by (simp add: i_def nat_le_iff)
  qed
  then have il: "i < length xs" using len by linarith
  have jl: "j < length xs" using len unfolding j_def by linarith
  have t: "0 \<le> t" "t < 1" using h(1) by (simp_all add: t_def i_def of_nat_nat) linarith
  have tj: "t = 0 \<or> j = Suc i"
  proof (cases "i = length xs - 1")
    case True
    then have "h = of_nat i" using h(2) h(1) by (simp add: i_def of_nat_nat) linarith
    then show ?thesis by (simp add: t_def)
  next
    case False
    with i show ?thesis by (simp add: j_def)
  qed
  have nn: "no_nan xs" using m by (rule moderate_no_nan)
  have sn: "no_nan ?s" using nn by (simp add: no_nan_def list_all_iff)
  have el: "f64_wf (?s ! k)" "is_finite (?s ! k)" if "k < length xs" for k
    using m that nth_mem [of k ?s] by (auto simp: moderate_def list_all_iff)
  have ij: "i \<le> j" using i by (simp add: j_def)
  have "f_le (?s ! i) (?s ! j)"
    using sorted_wrt_f_le_nth [OF sorted_f_sort [OF nn] sn ij] jl by simp
  then have ab: "fval (?s ! i) \<le> fval (?s ! j)" using el il jl by simp
  let ?x = "fval (?s ! i) + (fval (?s ! j) - fval (?s ! i)) * t"
  have x: "fval (?s ! i) \<le> ?x" "?x \<le> fval (?s ! j)"
    using ab t mult_left_le [of t "fval (?s ! j) - fval (?s ! i)"] by (simp_all add: mult_nonneg_nonneg)
  note e = f_sort_end [OF nn ne] and fb = fpack_between [OF el(1) [OF il] el(1) [OF jl] el(2) [OF il] el(2) [OF jl] x]
  have "ref_percentile xs q m =
      (if m = ''lower'' then Inr (?s ! i)
       else if m = ''higher'' then Inr (if t = 0 then ?s ! i else ?s ! j) else Inr (fpack False ?x))"
    using q meth unfolding ref_percentile_def Let_def h_def i_def j_def t_def
    by (simp only: simp_thms if_True if_False)
  moreover have "f_le (hd ?s) (fpack False ?x)" using e(3) [OF il] fb(1) by (rule f_le_trans)
  moreover have "f_le (fpack False ?x) (last ?s)" using fb(2) e(4) [OF jl] by (rule f_le_trans)
  ultimately show ?thesis
    using e(3,4) [OF il] e(3,4) [OF jl] el(1) [OF il] el(1) [OF jl] by (simp add: fpack_wf)
qed

interpretation np_ref: numpy_float np_ref
proof (unfold_locales, goal_cases)
  case (1 xs)
  then show ?case by (simp add: np_ref_def ref_max_Max)
next
  case (7 i xs)
  then show ?case by (simp add: np_ref_def ref_accumulate_nth)
next
  case (9 ns)
  then show ?case by (simp add: np_ref_def ref_max_Max list_index_less)
next
  case (10 ns)
  then show ?case by (simp add: np_ref_def ref_max_Max list_index_nth)
next
  case (11 ns j)
  then have "ns ! j \<noteq> Max (set ns)" "j < length ns"
    using list_index_before [of j ns "Max (set ns)"] list_index_less [of "Max (set ns)" ns]
    by (auto simp: np_ref_def ref_max_Max)
  then show ?case by (simp add: le_neq_trans)
next
  case (15 xs v)
  have *: "\<forall>x y. f_le x y \<longrightarrow> \<not> f_lt x v \<longrightarrow> \<not> f_lt y v" using f_le_less_trans by blast
  have le: "f_le v (xs ! j)" if "j < length xs" "\<not> f_lt (xs ! j) v" for j
    using that 15 nth_mem [of j xs] by (simp add: f_le_def no_nan_def list_all_iff)
  note tw = takeWhile_split [of xs "\<lambda>y. f_lt y v", OF 15(2,1) *]
  show ?case unfolding np_ref_def numpy.simps using tw le by blast
next
  case (16 xs v)
  have *: "\<forall>x y. f_le x y \<longrightarrow> \<not> f_le x v \<longrightarrow> \<not> f_le y v" using f_le_trans by blast
  have lt: "f_lt v (xs ! j)" if "j < length xs" "\<not> f_le (xs ! j) v" for j
    using that 16 nth_mem [of j xs] by (simp add: f_le_def no_nan_def list_all_iff)
  note tw = takeWhile_split [of xs "\<lambda>y. f_le y v", OF 16(2,1) *]
  show ?case unfolding np_ref_def numpy.simps using tw lt by blast
next
  case (17 xs)
  note e = f_sort_end [OF 17]
  show ?case using e(1,3) by (auto simp: np_ref_def elim: f_sort_nthE)
next
  case (18 xs)
  note e = f_sort_end [OF 18]
  show ?case using e(2,4) by (auto simp: np_ref_def elim: f_sort_nthE)
next
  case (19 xs q m)
  then show ?case using ref_percentile_range [of xs q m] by (simp add: np_ref_def)
next
  case (20 xs q m)
  then show ?case by (simp add: np_ref_def ref_percentile_def)
qed (simp_all add: np_ref_def mset_f_sort sorted_f_sort)

section \<open>Random generators\<close>

text \<open>
  What \<open>Generator.integers(0, high, size=(rows, cols))\<close> promises: a matrix of that shape
  with entries below \<open>high\<close>. The instance is a linear congruential generator.
\<close>

locale np_generator =
  fixes rn :: "'g np_random"
  assumes integers_rows: "0 < h \<Longrightarrow> length (fst (rng_integers rn g h r c)) = r"
    and integers_row: "0 < h \<Longrightarrow> row \<in> set (fst (rng_integers rn g h r c)) \<Longrightarrow>
          length row = c \<and> (\<forall>i \<in> set row. i < h)"

definition lcg_next :: "int \<Rightarrow> int" where
  "lcg_next s = (1103515245 * s + 12345) mod 2147483648"

fun lcg_row :: "int \<Rightarrow> nat \<Rightarrow> nat \<Rightarrow> nat list \<times> int" where
  "lcg_row s h 0 = ([], s)"
| "lcg_row s h (Suc n) = (let (xs, s') = lcg_row (lcg_next s) h n in (nat (s div 65536) mod h # xs, s'))"

fun lcg_matrix :: "int \<Rightarrow> nat \<Rightarrow> nat \<Rightarrow> nat \<Rightarrow> nat list list \<times> int" where
  "lcg_matrix s h 0 c = ([], s)"
| "lcg_matrix s h (Suc r) c =
     (let (row, s') = lcg_row s h c; (rows, s'') = lcg_matrix s' h r c in (row # rows, s''))"

definition rn_ref :: "int np_random" where
  "rn_ref = \<lparr>default_rng = (\<lambda>seed. if seed < 0 then Inl (ValueError ''expected non-negative integer'') else Inr seed),
     rng_integers = lcg_matrix\<rparr>"

lemma lcg_row_shape: "0 < h \<Longrightarrow> length (fst (lcg_row s h n)) = n \<and> (\<forall>i \<in> set (fst (lcg_row s h n)). i < h)"
  by (induction n arbitrary: s) (auto simp: case_prod_unfold Let_def)

lemma lcg_matrix_shape:
  "0 < h \<Longrightarrow> length (fst (lcg_matrix s h r c)) = r
     \<and> (\<forall>row \<in> set (fst (lcg_matrix s h r c)). length row = c \<and> (\<forall>i \<in> set row. i < h))"
  by (induction r arbitrary: s) (use lcg_row_shape in \<open>auto simp: case_prod_unfold Let_def\<close>)

interpretation rn_ref: np_generator rn_ref
  by unfold_locales (use lcg_matrix_shape in \<open>force simp: rn_ref_def\<close>)+

end
