(* ===== verification/Loader.thy ===== *)
theory Loader
  imports PyCsv NumPy "HOL-Library.List_Lexorder" "HOL-Library.Char_ord"
begin

text \<open>
  \<open>analysis/tsn_analysis/loader.py\<close>: listener CSV files into runs. A file is its name and
  its decoded text; a directory is the list of its files. The lemmas show that file names split
  back into condition and run index, that integer cells are read exactly (never through a
  float), that a loaded run is well formed, and that \<open>discover\<close> groups all runs of a
  directory by condition in index order.
\<close>

section \<open>Definitions\<close>

definition REQUIRED_COLUMNS :: "string list" where
  "REQUIRED_COLUMNS = [''seq'', ''send_ns'', ''recv_ns'', ''latency_ms'', ''jitter_us'', ''pkt_size'']"

text \<open>
  The regular expression \<open>^(?P<condition>.+?)_run(?P<k>\<setminus>d+)$\<close>: the shortest non-empty
  condition without a line break such that \<open>_run\<close>, digits and the end of the text (or a
  final line break) follow.
\<close>

definition run_suffix :: "string \<Rightarrow> string option" where
  "run_suffix s =
     (if take 4 s = ''_run''
      then let ds = takeWhile is_decimal (drop 4 s); r = dropWhile is_decimal (drop 4 s)
           in if ds \<noteq> [] \<and> (r = [] \<or> r = [LF]) then Some ds else None
      else None)"

fun match_run_suffix :: "string \<Rightarrow> string \<Rightarrow> (string \<times> string) option" where
  "match_run_suffix pre [] = None"
| "match_run_suffix pre (c # s) =
     (if c = LF then None
      else case run_suffix s of
             Some ds \<Rightarrow> Some (pre @ [c], ds)
           | None \<Rightarrow> match_run_suffix (pre @ [c]) s)"

definition parse_name :: "string \<Rightarrow> (string \<times> int option) res" where
  "parse_name stem = (case match_run_suffix [] stem of
      None \<Rightarrow> Inr (stem, None)
    | Some (condition, k) \<Rightarrow> res_bind (py_int k) (\<lambda>n. Inr (condition, Some n)))"

record run =
  run_name :: string
  run_condition :: string
  run_index :: "int option"
  run_seq :: "int list"
  send_ns :: "int list"
  recv_ns :: "int list"
  latency_ms :: "f64 list"
  jitter_us :: "f64 list"
  pkt_size :: "int list"
  run_tos :: "int list option"
  run_path :: string

definition run_len :: "run \<Rightarrow> nat" where
  "run_len r = length (run_seq r)"

definition to_int :: "string \<Rightarrow> int res" where
  "to_int value = (let v = strip value in
     if isdigit (lstrip_signs v) then py_int v else res_bind (py_float v) int_of_f64)"

text \<open>\<open>np.asarray(values, dtype=np.int64)\<close> raises on a value outside 64 bits.\<close>

definition as_int64 :: "int list \<Rightarrow> int list res" where
  "as_int64 ns = (if list_all int64 ns then Inr ns
     else Inl (OverflowError ''Python int too large to convert to C long''))"

definition ints :: "string list \<Rightarrow> int list res" where
  "ints values = res_bind (res_mapM to_int values) as_int64"

definition floats :: "string list \<Rightarrow> f64 list res" where
  "floats values = res_mapM py_float values"

definition tos_column :: "string list \<Rightarrow> int list res" where
  "tos_column values = res_bind (res_mapM (\<lambda>v. if strip v \<noteq> [] then to_int v else Inr (-1)) values) as_int64"

definition cell :: "string list \<Rightarrow> string list \<Rightarrow> string \<Rightarrow> string" where
  "cell header row c = (case dict_get (dict_row header row) c of Some (Some v) \<Rightarrow> v | _ \<Rightarrow> [])"

definition add_row :: "string list \<Rightarrow> (string, string list) dict \<Rightarrow> string list \<Rightarrow> (string, string list) dict" where
  "add_row header columns row =
     foldl (\<lambda>d c. dict_put d c (case dict_get d c of
         None \<Rightarrow> [cell header row c] | Some vs \<Rightarrow> vs @ [cell header row c])) columns header"

definition read_columns :: "string list \<Rightarrow> string list list \<Rightarrow> (string, string list) dict" where
  "read_columns header rows =
     foldl (add_row header) (foldl (\<lambda>d c. dict_put d c []) [] header) (filter (\<lambda>r. r \<noteq> []) rows)"

definition column :: "(string, string list) dict \<Rightarrow> string \<Rightarrow> string list" where
  "column columns c = dict_get_or columns c []"

text \<open>\<open>Path(name).stem\<close>: the name without its last suffix.\<close>

definition path_stem :: "string \<Rightarrow> string" where
  "path_stem name =
     (let k = length (takeWhile (\<lambda>c. c \<noteq> CHR ''.'') (rev name)); i = length name - k - 1
      in if k < length name \<and> 0 < i \<and> 0 < k then take i name else name)"

definition make_run :: "string \<Rightarrow> (string, string list) dict \<Rightarrow> int list option \<Rightarrow> run res" where
  "make_run name columns tos =
     res_bind (parse_name (path_stem name)) (\<lambda>(condition, idx).
     res_bind (ints (column columns ''seq'')) (\<lambda>s.
     res_bind (ints (column columns ''send_ns'')) (\<lambda>sn.
     res_bind (ints (column columns ''recv_ns'')) (\<lambda>rn.
     res_bind (floats (column columns ''latency_ms'')) (\<lambda>la.
     res_bind (floats (column columns ''jitter_us'')) (\<lambda>ji.
     res_bind (ints (column columns ''pkt_size'')) (\<lambda>ps.
     Inr \<lparr>run_name = path_stem name, run_condition = condition, run_index = idx,
          run_seq = s, send_ns = sn, recv_ns = rn, latency_ms = la, jitter_us = ji,
          pkt_size = ps, run_tos = tos, run_path = name\<rparr>)))))))"

definition load_csv :: "string \<Rightarrow> string \<Rightarrow> run res" where
  "load_csv name text =
     (let (rows, err) = csv_reader text;
          header = (case rows of [] \<Rightarrow> [] | h # _ \<Rightarrow> h)
      in if rows = [] \<and> err \<noteq> None then Inl (the err)
         else if filter (\<lambda>c. c \<notin> set header) REQUIRED_COLUMNS \<noteq> []
           then Inl (ValueError ''missing columns'')
         else case err of
           Some e \<Rightarrow> Inl e
         | None \<Rightarrow>
             (let columns = read_columns header (tl rows)
              in if column columns ''seq'' = [] then Inl (ValueError ''no data rows'')
                 else if ''tos'' \<in> set (dict_keys columns)
                   then res_bind (tos_column (column columns ''tos'')) (\<lambda>t. make_run name columns (Some t))
                 else make_run name columns None))"

definition is_csv :: "string \<Rightarrow> bool" where
  "is_csv name = (4 \<le> length name \<and> drop (length name - 4) name = ''.csv'')"

definition run_sort_key :: "run \<Rightarrow> int" where
  "run_sort_key r = (case run_index r of None \<Rightarrow> -1 | Some k \<Rightarrow> k)"

definition add_to_group :: "(string, run list) dict \<Rightarrow> run \<Rightarrow> (string, run list) dict" where
  "add_to_group groups r = dict_put groups (run_condition r)
     (case dict_get groups (run_condition r) of None \<Rightarrow> [r] | Some rs \<Rightarrow> rs @ [r])"

definition discover :: "(string \<times> string) list \<Rightarrow> (string, run list) dict res" where
  "discover files =
     res_bind (res_mapM (\<lambda>(name, text). load_csv name text) (sort_key fst (filter (\<lambda>(name, _). is_csv name) files)))
       (\<lambda>runs. Inr (map (\<lambda>(c, rs). (c, sort_key run_sort_key rs)) (foldl add_to_group [] runs)))"

section \<open>Names\<close>

lemma takeWhile_decimal_all: "list_all is_decimal s \<Longrightarrow> takeWhile is_decimal s = s \<and> dropWhile is_decimal s = []"
  by (induction s) auto

lemma run_suffix_exact: "list_all is_decimal ds \<Longrightarrow> ds \<noteq> [] \<Longrightarrow> run_suffix (''_run'' @ ds) = Some ds"
  by (simp add: run_suffix_def takeWhile_decimal_all)

lemma run_suffix_digits:
  assumes "run_suffix s = Some ds"
  shows "ds \<noteq> []" and "list_all is_decimal ds" and "s = ''_run'' @ ds \<or> s = ''_run'' @ ds @ [LF]"
proof -
  let ?t = "drop 4 s"
  from assms have t: "take 4 s = ''_run''" "ds = takeWhile is_decimal ?t" "ds \<noteq> []"
      "dropWhile is_decimal ?t = [] \<or> dropWhile is_decimal ?t = [LF]"
    by (auto simp: run_suffix_def Let_def split: if_splits)
  show "ds \<noteq> []" by (rule t(3))
  show "list_all is_decimal ds" unfolding t(2) by (auto simp: list_all_iff dest: set_takeWhileD)
  have "s = take 4 s @ ?t" by simp
  also have "\<dots> = ''_run'' @ takeWhile is_decimal ?t @ dropWhile is_decimal ?t"
    by (simp only: t(1) takeWhile_dropWhile_id)
  finally show "s = ''_run'' @ ds \<or> s = ''_run'' @ ds @ [LF]"
    using t(4) unfolding t(2) by (elim disjE) (simp_all only: append_Nil2 simp_thms)
qed

text \<open>
  A suffix that starts inside a condition is no run suffix: the underscore of the real suffix
  would have to be a digit or one of the letters of \<open>_run\<close>.
\<close>

lemma run_suffix_inner:
  assumes "u \<noteq> []" and "list_all is_decimal ds"
  shows "run_suffix (u @ ''_run'' @ ds) = None"
proof (rule ccontr)
  assume "run_suffix (u @ ''_run'' @ ds) \<noteq> None"
  then obtain es where es: "run_suffix (u @ ''_run'' @ ds) = Some es" by blast
  note e = run_suffix_digits [OF es]
  let ?s = "u @ ''_run'' @ ds" and ?k = "length u"
  have us: "?s ! ?k = CHR ''_''" by simp
  obtain w where w: "?s = ''_run'' @ es @ w" "w = [] \<or> w = [LF]" using e(3) by auto
  have us': "(''_run'' @ es @ w) ! ?k = CHR ''_''" using us unfolding w(1) .
  have tot: "length ?s = 4 + length es + length w" unfolding w(1) by simp
  have k: "?k \<noteq> 0" using assms(1) by simp
  consider "?k = 1" | "?k = 2" | "?k = 3" | "4 \<le> ?k" using k by linarith
  then show False
  proof cases
    case 4
    then have "?s ! ?k = (es @ w) ! (?k - 4)"
      using nth_append [of "''_run''" "es @ w" ?k] by (simp only: w(1)) (simp add: numeral_eq_Suc)
    moreover have "?k - 4 < length (es @ w)" using tot 4 by simp
    ultimately have "CHR ''_'' \<in> set (es @ w)" using us by (metis nth_mem)
    then have "CHR ''_'' \<in> set es" using w(2) by (elim disjE) simp_all
    then have "is_decimal (CHR ''_'')" using e(2) by (simp add: list_all_iff)
    then show False by (simp add: is_decimal_def code_def)
  qed (use us' in \<open>simp_all add: numeral_2_eq_2 numeral_3_eq_3\<close>)
qed

lemma match_run_suffix_append:
  assumes "list_all is_decimal ds" "ds \<noteq> []" "c \<noteq> []" "LF \<notin> set c"
  shows "match_run_suffix pre (c @ ''_run'' @ ds) = Some (pre @ c, ds)"
  using assms(3,4)
proof (induction c arbitrary: pre)
  case (Cons x c)
  show ?case
  proof (cases "c = []")
    case True
    then show ?thesis using Cons.prems run_suffix_exact [OF assms(1,2)] by simp
  next
    case False
    then have "run_suffix (c @ ''_run'' @ ds) = None" using assms(1) by (rule run_suffix_inner)
    then show ?thesis using Cons False by auto
  qed
qed simp

lemma match_run_suffix_sound:
  "match_run_suffix pre s = Some (c, ds) \<Longrightarrow>
     \<exists>x. x \<noteq> [] \<and> LF \<notin> set x \<and> c = pre @ x \<and> ds \<noteq> [] \<and> list_all is_decimal ds
         \<and> (s = x @ ''_run'' @ ds \<or> s = x @ ''_run'' @ ds @ [LF])"
proof (induction s arbitrary: pre)
  case (Cons a s)
  then have a: "a \<noteq> LF" by (auto split: if_splits)
  show ?case
  proof (cases "run_suffix s")
    case (Some es)
    with Cons.prems a have "c = pre @ [a]" "ds = es" by simp_all
    with Some a run_suffix_digits [of s es] show ?thesis by (intro exI [of _ "[a]"]) auto
  next
    case None
    with Cons.prems a have "match_run_suffix (pre @ [a]) s = Some (c, ds)" by simp
    from Cons.IH [OF this] obtain x where
      "x \<noteq> []" "LF \<notin> set x" "c = (pre @ [a]) @ x" "ds \<noteq> []" "list_all is_decimal ds"
      "s = x @ ''_run'' @ ds \<or> s = x @ ''_run'' @ ds @ [LF]" by blast
    with a show ?thesis by (intro exI [of _ "a # x"]) auto
  qed
qed simp

section \<open>Cells and columns\<close>

lemma to_int_int_str: "\<bar>n\<bar> < 10 ^ int_max_str_digits \<Longrightarrow> to_int (int_str n) = Inr n"
  by (simp add: to_int_def Let_def isdigit_int_str py_int_int_str)

lemma as_int64_Inr: "as_int64 ns = Inr ms \<longleftrightarrow> ms = ns \<and> list_all int64 ns"
  by (auto simp: as_int64_def)

lemma ints_Inr:
  assumes "ints vs = Inr ns"
  shows "length ns = length vs" and "list_all int64 ns"
  using assms by (auto simp: ints_def res_bind_Inr_conv as_int64_Inr res_mapM_length)

lemma floats_length: "floats vs = Inr xs \<Longrightarrow> length xs = length vs"
  by (simp add: floats_def res_mapM_length)

lemma tos_column_Inr:
  assumes "tos_column vs = Inr ns"
  shows "length ns = length vs" and "list_all int64 ns"
  using assms by (auto simp: tos_column_def res_bind_Inr_conv as_int64_Inr res_mapM_length)

lemma dict_get_add_row:
  assumes "distinct header" and "c \<in> set header"
  shows "dict_get (add_row header d row) c = Some (dict_get_or d c [] @ [cell header row c])"
proof -
  have "filter (\<lambda>x. x = c) header = [c]"
    using assms by (induction header) (auto simp: filter_empty_conv)
  then show ?thesis
    unfolding add_row_def dict_get_or_def
    by (subst gd.fold_group [where f = "\<lambda>x. x" and g = "cell header row"]) simp
qed

lemma dict_get_init:
  "dict_get (foldl (\<lambda>d c. dict_put d c []) d header) c
   = (if c \<in> set header then Some [] else dict_get d c)"
  by (induction header arbitrary: d) (auto simp: od.get_put)

lemma dict_keys_init: "set (dict_keys (foldl (\<lambda>d c. dict_put d c []) [] header)) = set header"
  using od.set_keys_fold_put [of "\<lambda>x. x" "\<lambda>_ _. []" "[]" header] by (simp add: dict_keys_def)

lemma fold_add_row:
  assumes "distinct header" and "c \<in> set header" and "dict_get d c = Some vs"
  shows "dict_get (foldl (add_row header) d rows) c = Some (vs @ map (\<lambda>r. cell header r c) rows)"
  using assms(3)
proof (induction rows arbitrary: d vs)
  case (Cons r rows)
  then have "dict_get (add_row header d r) c = Some (vs @ [cell header r c])"
    using dict_get_add_row [OF assms(1,2)] by (simp add: dict_get_or_def)
  from Cons.IH [OF this] show ?case by simp
qed simp

text \<open>A column of a header without repetitions holds one cell per non-blank row.\<close>

lemma column_read_columns:
  assumes "distinct header" and "c \<in> set header"
  shows "column (read_columns header rows) c = map (\<lambda>r. cell header r c) (filter (\<lambda>r. r \<noteq> []) rows)"
proof -
  have "dict_get (foldl (\<lambda>d c. dict_put d c []) [] header) c = Some []"
    using assms(2) by (simp add: dict_get_init)
  from fold_add_row [OF assms this] show ?thesis
    by (simp add: column_def dict_get_or_def read_columns_def)
qed

lemma keys_add_row: "set (dict_keys (add_row header d row)) = set (dict_keys d) \<union> set header"
  unfolding add_row_def
  using od.set_keys_fold_put [of "\<lambda>x. x" "\<lambda>d c. case dict_get d c of
      None \<Rightarrow> [cell header row c] | Some vs \<Rightarrow> vs @ [cell header row c]" d header] by simp

lemma keys_read_columns: "set (dict_keys (read_columns header rows)) = set header"
proof -
  have "set (dict_keys (foldl (add_row header) d rs)) = set header" if "set (dict_keys d) = set header" for d rs
    using that by (induction rs arbitrary: d) (simp_all add: keys_add_row)
  then show ?thesis by (simp add: read_columns_def dict_keys_init)
qed

text \<open>Well-formed runs: at least one row, all columns of one length, integers of 64 bits.\<close>

definition run_wf :: "run \<Rightarrow> bool" where
  "run_wf r = (let n = length (run_seq r) in
     0 < n \<and> length (send_ns r) = n \<and> length (recv_ns r) = n \<and> length (latency_ms r) = n
     \<and> length (jitter_us r) = n \<and> length (pkt_size r) = n
     \<and> (case run_tos r of None \<Rightarrow> True | Some t \<Rightarrow> length t = n \<and> list_all int64 t)
     \<and> list_all int64 (run_seq r) \<and> list_all int64 (send_ns r) \<and> list_all int64 (recv_ns r)
     \<and> list_all int64 (pkt_size r))"

lemma make_run_Inr:
  assumes "make_run name columns tos = Inr r"
  shows "length (run_seq r) = length (column columns ''seq'')"
    and "length (send_ns r) = length (column columns ''send_ns'')"
    and "length (recv_ns r) = length (column columns ''recv_ns'')"
    and "length (latency_ms r) = length (column columns ''latency_ms'')"
    and "length (jitter_us r) = length (column columns ''jitter_us'')"
    and "length (pkt_size r) = length (column columns ''pkt_size'')"
    and "list_all int64 (run_seq r)" "list_all int64 (send_ns r)" "list_all int64 (recv_ns r)"
      "list_all int64 (pkt_size r)" "run_tos r = tos"
    and "parse_name (path_stem name) = Inr (run_condition r, run_index r)"
    and "ints (column columns ''seq'') = Inr (run_seq r)"
    and "run_name r = path_stem name"
  using assms
  by (auto simp: make_run_def res_bind_Inr_conv floats_length dest: ints_Inr split: prod.splits)

definition csv_header :: "string \<Rightarrow> string list" where
  "csv_header text = (case fst (csv_reader text) of [] \<Rightarrow> [] | h # _ \<Rightarrow> h)"

definition csv_data_rows :: "string \<Rightarrow> string list list" where
  "csv_data_rows text = filter (\<lambda>r. r \<noteq> []) (tl (fst (csv_reader text)))"

lemma load_csv_InrE:
  assumes "load_csv name text = Inr r"
  obtains columns tos where
    "columns = read_columns (csv_header text) (tl (fst (csv_reader text)))"
    "set REQUIRED_COLUMNS \<subseteq> set (csv_header text)"
    "column columns ''seq'' \<noteq> []"
    "make_run name columns tos = Inr r"
    "case tos of None \<Rightarrow> ''tos'' \<notin> set (csv_header text)
       | Some t \<Rightarrow> ''tos'' \<in> set (csv_header text) \<and> tos_column (column columns ''tos'') = Inr t"
proof -
  obtain rows err where cr: "csv_reader text = (rows, err)" by (cases "csv_reader text")
  let ?h = "csv_header text"
  let ?cols = "read_columns ?h (tl rows)"
  have h: "(case rows of [] \<Rightarrow> [] | h # _ \<Rightarrow> h) = ?h" by (simp add: csv_header_def cr)
  have e: "err = None"
    using assms unfolding load_csv_def cr by (cases err) (auto simp: Let_def split: if_splits)
  have m: "filter (\<lambda>c. c \<notin> set ?h) REQUIRED_COLUMNS = []"
    using assms unfolding load_csv_def cr by (auto simp: Let_def h e split: if_splits)
  have s: "column ?cols ''seq'' \<noteq> []"
    using assms m unfolding load_csv_def cr by (auto simp: Let_def h e split: if_splits)
  have f: "(if ''tos'' \<in> set ?h
            then res_bind (tos_column (column ?cols ''tos'')) (\<lambda>t. make_run name ?cols (Some t))
            else make_run name ?cols None) = Inr r"
    using assms m s unfolding load_csv_def cr by (simp add: Let_def h e keys_read_columns)
  have sub: "set REQUIRED_COLUMNS \<subseteq> set ?h" using m by (auto simp: filter_empty_conv)
  show thesis
  proof (cases "''tos'' \<in> set ?h")
    case True
    with f obtain t where "tos_column (column ?cols ''tos'') = Inr t" "make_run name ?cols (Some t) = Inr r"
      by (auto simp: res_bind_Inr_conv)
    with True s sub show thesis by (intro that [of ?cols "Some t"]) (simp_all add: cr)
  next
    case False
    with f s sub show thesis by (intro that [of ?cols None]) (simp_all add: cr)
  qed
qed

lemma dict_get_map_values:
  "dict_get (map (\<lambda>(k, v). (k, f v)) d) k = map_option f (dict_get d k)"
  by (induction d) (auto simp: dict_get_def)

lemma dict_keys_map_values: "dict_keys (map (\<lambda>(k, v). (k, f v)) d) = dict_keys d"
  by (induction d) (auto simp: dict_keys_def)

lemma dict_get_groups:
  "dict_get (foldl add_to_group [] runs) c
   = (case filter (\<lambda>r. run_condition r = c) runs of [] \<Rightarrow> None | rs \<Rightarrow> Some rs)"
  using gd.fold_group [of run_condition "\<lambda>r. r" "[]" runs c]
  by (simp add: add_to_group_def [abs_def] split: list.splits)

lemma dict_keys_groups:
  "distinct (dict_keys (foldl add_to_group [] runs))"
  "set (dict_keys (foldl add_to_group [] runs)) = run_condition ` set runs"
  using od.keys_fold_put [of "[]" run_condition _ runs] od.set_keys_fold_put [of run_condition _ "[]" runs]
  by (simp_all add: add_to_group_def [abs_def] dict_keys_def)

definition csv_files :: "(string \<times> string) list \<Rightarrow> (string \<times> string) list" where
  "csv_files files = sort_key fst (filter (\<lambda>(name, _). is_csv name) files)"

lemma discover_csv_files:
  "discover files =
     res_bind (res_mapM (\<lambda>(name, text). load_csv name text) (csv_files files))
       (\<lambda>runs. Inr (map (\<lambda>(c, rs). (c, sort_key run_sort_key rs)) (foldl add_to_group [] runs)))"
  by (simp add: discover_def csv_files_def)

text \<open>The text of an integer cell as a float: the nearest binary64 number.\<close>

lemma py_float_nat_str: "py_float (nat_str n) = Inr (f_of_int (int n))"
proof -
  have d: "list_all is_decimal (nat_str n)" by (rule nat_str_decimal)
  then have "is_decimal (hd (nat_str n))" by (cases "nat_str n") auto
  then have "lower_char (hd (nat_str n)) = hd (nat_str n)"
    by (auto simp: lower_char_def is_decimal_def Let_def)
  moreover have "hd (nat_str n) \<noteq> CHR ''i''" "hd (nat_str n) \<noteq> CHR ''n''"
    using \<open>is_decimal (hd (nat_str n))\<close> by (auto simp: is_decimal_def code_def)
  ultimately have "hd (lower (nat_str n)) \<noteq> CHR ''i''" "hd (lower (nat_str n)) \<noteq> CHR ''n''"
    by (simp_all add: lower_def list.map_sel(1))
  then have name: "lower (nat_str n) \<noteq> ''inf''" "lower (nat_str n) \<noteq> ''infinity''" "lower (nat_str n) \<noteq> ''nan''"
    by auto
  have "parse_decimal (nat_str n) = Some (of_int (int n))"
    unfolding parse_decimal_def Let_def
    by (simp only: takeWhile_decimal_all [OF d]) (simp add: parse_exponent_def)
  then show ?thesis
    using name d by (simp add: py_float_def strip_decimal drop_underscores_decimal split_sign_decimal f_of_int_def)
qed

section \<open>Properties\<close>

text \<open>
  A file stem made of any non-empty condition without line breaks, \<open>_run\<close> and a
  decimal run number splits back into that condition and that number, also when the condition
  itself contains \<open>_run\<close> followed by digits.
\<close>

theorem parse_name_roundtrip:
  assumes "c \<noteq> []" and "LF \<notin> set c" and "k < 10 ^ int_max_str_digits"
  shows "parse_name (c @ ''_run'' @ nat_str k) = Inr (c, Some (int k))"
proof -
  have "match_run_suffix [] (c @ ''_run'' @ nat_str k) = Some (c, nat_str k)"
    using match_run_suffix_append [OF nat_str_decimal nat_str_not_Nil assms(1,2), of "[]"] by simp
  moreover have "py_int (nat_str k) = Inr (int k)"
    using py_int_int_str [of "int k"] assms(3) by (simp add: int_str_def)
  ultimately show ?thesis by (simp add: parse_name_def)
qed

lemma parse_name_roundtrip_witness:
  "''a_run1'' \<noteq> [] \<and> LF \<notin> set ''a_run1'' \<and> parse_name (''a_run1'' @ ''_run'' @ nat_str 2) = Inr (''a_run1'', Some 2)"
proof -
  have "(2::nat) < 10 ^ int_max_str_digits" by (rule below_digit_limit) simp
  then show ?thesis using parse_name_roundtrip [of "''a_run1''" 2] by simp
qed

text \<open>
  Property C9. Nanosecond time stamps of the present (between \<open>2 ^ 60\<close> and \<open>2 ^ 61\<close>) are
  read from their decimal text exactly, whereas reading the same text through a float would move
  them to a multiple of 256, up to 128 ns away; this is why \<open>_to_int\<close> tests for digits first.
\<close>

theorem to_int_exact_float_snaps:
  assumes "2 ^ 60 \<le> n" and "n < 2 ^ 61"
  shows "to_int (nat_str n) = Inr (int n)
    \<and> (\<exists>m. res_bind (py_float (nat_str n)) int_of_f64 = Inr m \<and> 256 dvd m \<and> \<bar>m - int n\<bar> \<le> 128)"
proof
  have "\<bar>int n\<bar> < 10 ^ int_max_str_digits" using assms(2) by (intro below_digit_limit_int) simp
  from to_int_int_str [OF this] show "to_int (nat_str n) = Inr (int n)" by (simp add: int_str_def)
next
  have lo: "(of_int (2 ^ 60) :: rat) \<le> of_nat n" and hi: "(of_nat n :: rat) < of_int (2 ^ 61)"
    using assms by (simp_all flip: of_nat_power add: of_nat_le_iff of_nat_less_iff numeral_power_le_of_nat_cancel_iff)
  have "ilog2 (of_nat n) = 60" using lo hi by (intro ilog2_unique) simp_all
  then have u: "ulp_exp (of_nat n) = 8" by (simp add: ulp_exp_def)
  have n0: "n \<noteq> 0" using assms(1) by auto
  define m where "m = rne (of_nat n / 256) * 256"
  have r: "rnd (of_nat n) = of_int m" using n0 u by (simp add: rnd_def m_def)
  have "\<bar>rnd (of_nat n) - of_nat n\<bar> \<le> 128" using rnd_error [of "of_nat n"] u by simp
  then have e: "\<bar>(of_int (m - int n) :: rat)\<bar> \<le> of_int 128" by (simp add: r)
  then have err: "\<bar>m - int n\<bar> \<le> 128" by (simp only: of_int_le_iff flip: of_int_abs)
  have "\<bar>int n\<bar> \<le> 2 ^ 64" using assms(2) by simp
  from f_of_int_64 [OF this] have fin: "is_finite (f_of_int (int n))" "fval (f_of_int (int n)) = of_int m"
    by (simp_all add: r)
  then have "int_of_f64 (f_of_int (int n)) = Inr m" by (cases "f_of_int (int n)") auto
  with err show "\<exists>m. res_bind (py_float (nat_str n)) int_of_f64 = Inr m \<and> 256 dvd m \<and> \<bar>m - int n\<bar> \<le> 128"
    by (intro exI [of _ m]) (simp add: py_float_nat_str m_def)
qed

lemma to_int_exact_float_snaps_witness:
  "2 ^ 60 \<le> (1788913250236326549 :: nat) \<and> (1788913250236326549 :: nat) < 2 ^ 61
   \<and> to_int (nat_str 1788913250236326549) = Inr 1788913250236326549"
  using to_int_exact_float_snaps [of 1788913250236326549] by simp

text \<open>
  Property C8. A run that loads from a file whose header repeats no column has at least one row,
  one entry per data row in every column, and only 64-bit integers in the integer columns.
\<close>

theorem load_csv_well_formed:
  assumes "load_csv name text = Inr r" and "distinct (csv_header text)"
  shows "run_wf r \<and> run_len r = length (csv_data_rows text)"
proof -
  from assms(1) obtain columns tos where
    c: "columns = read_columns (csv_header text) (tl (fst (csv_reader text)))"
    and req: "set REQUIRED_COLUMNS \<subseteq> set (csv_header text)"
    and ne: "column columns ''seq'' \<noteq> []"
    and mk: "make_run name columns tos = Inr r"
    and tos: "case tos of None \<Rightarrow> ''tos'' \<notin> set (csv_header text)
       | Some t \<Rightarrow> ''tos'' \<in> set (csv_header text) \<and> tos_column (column columns ''tos'') = Inr t"
    by (rule load_csv_InrE)
  have len: "length (column columns k) = length (csv_data_rows text)" if "k \<in> set (csv_header text)" for k
    using that assms(2) by (simp add: c column_read_columns csv_data_rows_def)
  have cols: "length (column columns k) = length (csv_data_rows text)" if "k \<in> set REQUIRED_COLUMNS" for k
    using that req len by blast
  have n: "length (run_seq r) = length (csv_data_rows text)"
    using make_run_Inr(1) [OF mk] cols by (simp add: REQUIRED_COLUMNS_def)
  have pos: "0 < length (csv_data_rows text)"
    using ne cols [of "''seq''"] by (auto simp: REQUIRED_COLUMNS_def simp del: length_0_conv)
  have t: "case run_tos r of None \<Rightarrow> True | Some t \<Rightarrow> length t = length (csv_data_rows text) \<and> list_all int64 t"
    using tos len tos_column_Inr unfolding make_run_Inr(11) [OF mk] by (cases tos) auto
  show ?thesis
    using make_run_Inr [OF mk] cols n pos t by (simp add: run_wf_def run_len_def Let_def REQUIRED_COLUMNS_def)
qed

lemma load_csv_well_formed_witness:
  "\<exists>r. load_csv ''fifo_run1.csv'' (csv_write [REQUIRED_COLUMNS, [''7'', ''1'', ''2'', ''0.5'', ''0'', ''128'']]) = Inr r
    \<and> run_wf r \<and> run_len r = 1"
proof -
  let ?t = "csv_write [REQUIRED_COLUMNS, [''7'', ''1'', ''2'', ''0.5'', ''0'', ''128'']]"
  let ?r = "\<lparr>run_name = ''fifo_run1'', run_condition = ''fifo'', run_index = Some 1, run_seq = [7],
    send_ns = [1], recv_ns = [2], latency_ms = [Num (1/2)], jitter_us = [Num 0], pkt_size = [128],
    run_tos = None, run_path = ''fifo_run1.csv''\<rparr>"
  have l: "load_csv ''fifo_run1.csv'' ?t = Inr ?r" by code_simp
  have d: "distinct (csv_header ?t)" by code_simp
  have n: "length (csv_data_rows ?t) = 1" by code_simp
  show ?thesis using l load_csv_well_formed [OF l d] n by (intro exI [of _ ?r]) simp
qed

text \<open>
  What \<open>load_csv\<close> refuses: a file whose header lacks a required column raises
  \<open>ValueError\<close> before any row is looked at, and a file whose \<open>seq\<close> column is empty
  raises \<open>ValueError\<close>; a file that loads has every required column.
\<close>

theorem load_csv_rejects:
  "(csv_reader text = (h # rows, err) \<and> c \<in> set REQUIRED_COLUMNS \<and> c \<notin> set h
     \<longrightarrow> load_csv name text = Inl (ValueError ''missing columns''))
   \<and> (csv_reader text = (h # rows, None) \<and> set REQUIRED_COLUMNS \<subseteq> set h \<and> filter (\<lambda>r. r \<noteq> []) rows = []
     \<longrightarrow> load_csv name text = Inl (ValueError ''no data rows''))
   \<and> (load_csv name text = Inr r \<longrightarrow> set REQUIRED_COLUMNS \<subseteq> set (csv_header text))"
proof (intro conjI impI; (elim conjE)?)
  assume "csv_reader text = (h # rows, err)" "c \<in> set REQUIRED_COLUMNS" "c \<notin> set h"
  moreover from this have "filter (\<lambda>c. c \<notin> set h) REQUIRED_COLUMNS \<noteq> []" by (auto simp: filter_empty_conv)
  ultimately show "load_csv name text = Inl (ValueError ''missing columns'')"
    by (simp add: load_csv_def)
next
  assume a: "csv_reader text = (h # rows, None)" "set REQUIRED_COLUMNS \<subseteq> set h" "filter (\<lambda>r. r \<noteq> []) rows = []"
  have "filter (\<lambda>c. c \<notin> set h) REQUIRED_COLUMNS = []" using a(2) by (auto simp: filter_empty_conv)
  moreover have "column (read_columns h rows) ''seq'' = []"
    using a(2,3) by (simp add: column_def read_columns_def dict_get_or_def dict_get_init REQUIRED_COLUMNS_def)
  ultimately show "load_csv name text = Inl (ValueError ''no data rows'')"
    using a(1) by (simp add: load_csv_def)
next
  assume "load_csv name text = Inr r"
  then show "set REQUIRED_COLUMNS \<subseteq> set (csv_header text)" by (rule load_csv_InrE)
qed

lemma load_csv_rejects_witness:
  "load_csv ''bad_run1.csv'' (csv_write [[''seq'', ''send_ns''], [''0'', ''1'']]) = Inl (ValueError ''missing columns'')
   \<and> load_csv ''empty_run1.csv'' (csv_write [REQUIRED_COLUMNS]) = Inl (ValueError ''no data rows'')"
proof
  have "csv_reader (csv_write [[''seq'', ''send_ns''], [''0'', ''1'']]) = ([''seq'', ''send_ns''] # [[''0'', ''1'']], None)"
    by code_simp
  then show "load_csv ''bad_run1.csv'' (csv_write [[''seq'', ''send_ns''], [''0'', ''1'']]) = Inl (ValueError ''missing columns'')"
    using load_csv_rejects [of "csv_write [[''seq'', ''send_ns''], [''0'', ''1'']]" "[''seq'', ''send_ns'']" "[[''0'', ''1'']]" None "''recv_ns''" "''bad_run1.csv''"]
    by (simp add: REQUIRED_COLUMNS_def)
  have "csv_reader (csv_write [REQUIRED_COLUMNS]) = (REQUIRED_COLUMNS # [], None)" by code_simp
  then show "load_csv ''empty_run1.csv'' (csv_write [REQUIRED_COLUMNS]) = Inl (ValueError ''no data rows'')"
    using load_csv_rejects [of "csv_write [REQUIRED_COLUMNS]" REQUIRED_COLUMNS "[]" None] by simp
qed

text \<open>
  When every CSV file of a directory loads, \<open>discover\<close> yields each condition
  once, with exactly the runs of that condition (taken in file-name order and stably sorted by
  run index); it fails exactly when some file does not load, never skipping one.
\<close>

theorem discover_groups:
  "(\<forall>runs. res_mapM (\<lambda>(name, text). load_csv name text) (csv_files files) = Inr runs \<longrightarrow>
      (\<exists>g. discover files = Inr g \<and> distinct (dict_keys g) \<and> set (dict_keys g) = run_condition ` set runs
        \<and> (\<forall>c rs. dict_get g c = Some rs \<longrightarrow>
             rs = sort_key run_sort_key (filter (\<lambda>r. run_condition r = c) runs) \<and> rs \<noteq> []
             \<and> sorted (map run_sort_key rs))))
   \<and> ((\<exists>e. discover files = Inl e) \<longleftrightarrow>
      (\<exists>(name, text) \<in> set (csv_files files). \<exists>e. load_csv name text = Inl e))"
proof (intro conjI allI impI)
  fix runs
  assume r: "res_mapM (\<lambda>(name, text). load_csv name text) (csv_files files) = Inr runs"
  let ?g = "map (\<lambda>(c, rs). (c, sort_key run_sort_key rs)) (foldl add_to_group [] runs)"
  have "discover files = Inr ?g" by (simp add: discover_csv_files r)
  moreover have "distinct (dict_keys ?g)" "set (dict_keys ?g) = run_condition ` set runs"
    by (simp_all add: dict_keys_map_values dict_keys_groups)
  moreover have "rs = sort_key run_sort_key (filter (\<lambda>r. run_condition r = c) runs) \<and> rs \<noteq> []
      \<and> sorted (map run_sort_key rs)" if "dict_get ?g c = Some rs" for c rs
  proof -
    from that have "filter (\<lambda>r. run_condition r = c) runs \<noteq> []"
      and "rs = sort_key run_sort_key (filter (\<lambda>r. run_condition r = c) runs)"
      by (auto simp: dict_get_map_values dict_get_groups split: list.splits)
    then show ?thesis by (metis set_empty set_sort sorted_sort_key)
  qed
  ultimately show "\<exists>g. discover files = Inr g \<and> distinct (dict_keys g) \<and> set (dict_keys g) = run_condition ` set runs
        \<and> (\<forall>c rs. dict_get g c = Some rs \<longrightarrow>
             rs = sort_key run_sort_key (filter (\<lambda>r. run_condition r = c) runs) \<and> rs \<noteq> []
             \<and> sorted (map run_sort_key rs))" by blast
next
  let ?l = "\<lambda>(name, text). load_csv name text"
  show "(\<exists>e. discover files = Inl e) \<longleftrightarrow>
      (\<exists>(name, text) \<in> set (csv_files files). \<exists>e. load_csv name text = Inl e)"
  proof
    assume "\<exists>e. discover files = Inl e"
    then obtain e where "res_mapM ?l (csv_files files) = Inl e"
      by (auto simp: discover_csv_files res_bind_Inl_conv)
    from res_mapM_Inl [OF this] show "\<exists>(name, text) \<in> set (csv_files files). \<exists>e. load_csv name text = Inl e"
      by force
  next
    assume "\<exists>(name, text) \<in> set (csv_files files). \<exists>e. load_csv name text = Inl e"
    then obtain x e where "x \<in> set (csv_files files)" "?l x = Inl e" by auto
    then have "\<not> (\<exists>rs. res_mapM ?l (csv_files files) = Inr rs)"
      by (auto simp: res_mapM_Inr_iff list_all2_conv_all_nth in_set_conv_nth)
    then show "\<exists>e. discover files = Inl e"
      by (cases "res_mapM ?l (csv_files files)") (auto simp: discover_csv_files)
  qed
qed

lemma discover_groups_witness:
  "\<exists>g. discover [(''prio_run2.csv'', csv_write [REQUIRED_COLUMNS, [''7'', ''1'', ''2'', ''0.5'', ''0'', ''128'']]),
                (''fifo_run1.csv'', csv_write [REQUIRED_COLUMNS, [''0'', ''1'', ''2'', ''0.5'', ''0'', ''128'']])] = Inr g
     \<and> set (dict_keys g) = {''fifo'', ''prio''}"
proof -
  let ?fs = "[(''prio_run2.csv'', csv_write [REQUIRED_COLUMNS, [''7'', ''1'', ''2'', ''0.5'', ''0'', ''128'']]),
    (''fifo_run1.csv'', csv_write [REQUIRED_COLUMNS, [''0'', ''1'', ''2'', ''0.5'', ''0'', ''128'']])]"
  let ?r = "\<lambda>n c i s. \<lparr>run_name = n, run_condition = c, run_index = Some i, run_seq = [s],
    send_ns = [1], recv_ns = [2], latency_ms = [Num (1/2)], jitter_us = [Num 0], pkt_size = [128],
    run_tos = None, run_path = n @ ''.csv''\<rparr>"
  have "res_mapM (\<lambda>(name, text). load_csv name text) (csv_files ?fs)
      = Inr [?r ''fifo_run1'' ''fifo'' 1 0, ?r ''prio_run2'' ''prio'' 2 7]" by code_simp
  then obtain g where "discover ?fs = Inr g"
      "set (dict_keys g) = run_condition ` set [?r ''fifo_run1'' ''fifo'' 1 0, ?r ''prio_run2'' ''prio'' 2 7]"
    using discover_groups [of ?fs] by blast
  then show ?thesis by (intro exI [of _ g]) simp
qed

end
