(* ===== verification/PyFormat.thy ===== *)
theory PyFormat
  imports PyText
begin

text \<open>
  Python's format specifications for floats as the sources use them: \<open>.nf\<close>, \<open>+.nf\<close>,
  \<open>.ne\<close> and \<open>g\<close>. The exact binary value is rounded once to the requested number of
  decimal digits, ties to even.
\<close>

section \<open>Definitions\<close>

text \<open>The decimal exponent of a positive rational: \<open>10 powi (ilog10 x) \<le> x < 10 powi (ilog10 x + 1)\<close>.\<close>

definition ilog10 :: "rat \<Rightarrow> int" where
  "ilog10 x = (let (n, d) = quotient_of x; k = int (length (pos_str n)) - int (length (pos_str d))
               in if 10 powi k \<le> x then k else k - 1)"

definition zfill :: "nat \<Rightarrow> string \<Rightarrow> string" where
  "zfill w s = replicate (w - length s) (CHR ''0'') @ s"

text \<open>A non-negative integer \<open>m\<close> read as \<open>m / 10 ^ d\<close>, with exactly \<open>d\<close> decimals.\<close>

definition fixed_digits :: "nat \<Rightarrow> int \<Rightarrow> string" where
  "fixed_digits d m = pos_str (m div 10 ^ d) @
     (if d = 0 then [] else CHR ''.'' # zfill d (pos_str (m mod 10 ^ d)))"

definition fmt_fixed :: "nat \<Rightarrow> f64 \<Rightarrow> string" where
  "fmt_fixed d x = (case x of
      NaN \<Rightarrow> ''nan''
    | Inf b \<Rightarrow> (if b then ''-inf'' else ''inf'')
    | _ \<Rightarrow> (if sign_bit x then ''-'' else []) @ fixed_digits d (rne (\<bar>fval x\<bar> * 10 ^ d)))"

definition fmt_fixed_signed :: "nat \<Rightarrow> f64 \<Rightarrow> string" where
  "fmt_fixed_signed d x = (if sign_bit x then [] else ''+'') @ fmt_fixed d x"

text \<open>The significand as \<open>p + 1\<close> digits and the decimal exponent, rounded.\<close>

definition sci_parts :: "nat \<Rightarrow> rat \<Rightarrow> int \<times> int" where
  "sci_parts p x = (if x = 0 then (0, 0)
     else let e = ilog10 x; m = rne (x * 10 powi (int p - e))
          in if m = 10 ^ (p + 1) then (10 ^ p, e + 1) else (m, e))"

definition exp_str :: "int \<Rightarrow> string" where
  "exp_str e = CHR ''e'' # (if e < 0 then CHR ''-'' else CHR ''+'') # zfill 2 (pos_str \<bar>e\<bar>)"

definition fmt_e :: "nat \<Rightarrow> f64 \<Rightarrow> string" where
  "fmt_e p x = (case x of
      NaN \<Rightarrow> ''nan''
    | Inf b \<Rightarrow> (if b then ''-inf'' else ''inf'')
    | _ \<Rightarrow> let (m, e) = sci_parts p \<bar>fval x\<bar>
           in (if sign_bit x then ''-'' else []) @ fixed_digits p m @ exp_str e)"

text \<open>\<open>g\<close>: six significant digits, trailing zeros (and a bare point) removed.\<close>

definition strip_zeros :: "string \<Rightarrow> string" where
  "strip_zeros s = (if CHR ''.'' \<in> set s
     then rev (let t = dropWhile (\<lambda>c. c = CHR ''0'') (rev s)
               in if t \<noteq> [] \<and> hd t = CHR ''.'' then tl t else t)
     else s)"

definition fmt_g :: "f64 \<Rightarrow> string" where
  "fmt_g x = (case x of
      NaN \<Rightarrow> ''nan''
    | Inf b \<Rightarrow> (if b then ''-inf'' else ''inf'')
    | _ \<Rightarrow> let (m, e) = sci_parts 5 \<bar>fval x\<bar>
           in (if sign_bit x then ''-'' else []) @
              (if -4 \<le> e \<and> e < 6
               then strip_zeros (fixed_digits (nat (5 - e)) (if e \<le> 5 then m else m * 10 ^ nat (e - 5)))
               else strip_zeros (fixed_digits 5 m) @ exp_str e))"

section \<open>Lemmas\<close>

lemma length_zfill: "length (zfill w s) = max w (length s)"
  by (simp add: zfill_def max_def)

text \<open>A fixed-point text carries the value rounded to \<open>d\<close> decimals: at most half a unit off.\<close>

lemma fixed_rounding_error: "\<bar>of_int (rne (\<bar>r\<bar> * 10 ^ d)) / 10 ^ d - \<bar>r\<bar>\<bar> \<le> 1 / (2 * 10 ^ d)"
proof -
  let ?p = "10 ^ d :: rat" and ?m = "of_int (rne (\<bar>r\<bar> * 10 ^ d)) :: rat"
  have "?m / ?p - \<bar>r\<bar> = (?m - \<bar>r\<bar> * ?p) / ?p" by (simp add: field_simps)
  then have "\<bar>?m / ?p - \<bar>r\<bar>\<bar> = \<bar>?m - \<bar>r\<bar> * ?p\<bar> / ?p" by (simp add: abs_divide)
  also have "\<dots> \<le> (1/2) / ?p" by (rule divide_right_mono [OF rne_error]) simp
  finally show ?thesis by simp
qed

end
