(* ===== verification/Metrics.thy ===== *)
theory Metrics
  imports NumPy PyFormat
begin

unbundle bit_operations_syntax

text \<open>
  \<open>analysis/tsn_analysis/metrics.py\<close>: percentiles, jitter, loss and DSCP of one sample. The
  dictionaries the functions return are ordered dictionaries with the same keys; the histogram
  of \<open>dscp_distribution\<close> is a record, since its values have different types. The lemmas show
  that the loss figures account for every sequence number, that reorders are the late arrivals,
  that summaries are ordered from minimum to maximum, and that histograms are complete.
\<close>

section \<open>Definitions\<close>

definition LATENCY_PERCENTILES :: "f64 list" where
  "LATENCY_PERCENTILES = [Num 50, Num 90, Num 99, f_lit (999 / 10)]"

definition pct_label :: "f64 \<Rightarrow> string" where
  "pct_label q = CHR ''p'' # fmt_g q"

text \<open>\<open>percentile\<close> for a scalar \<open>q\<close> and for a list of them.\<close>

definition percentile :: "numpy \<Rightarrow> f64 list \<Rightarrow> f64 \<Rightarrow> string \<Rightarrow> f64 res" where
  "percentile np values q method = (if values = [] then Inr NaN else np_percentile np values q method)"

definition percentiles :: "numpy \<Rightarrow> f64 list \<Rightarrow> f64 list \<Rightarrow> string \<Rightarrow> f64 list res" where
  "percentiles np values qs method =
     (if values = [] then Inr (replicate (length qs) NaN)
      else res_mapM (\<lambda>q. np_percentile np values q method) qs)"

definition distribution_summary ::
  "numpy \<Rightarrow> scipy \<Rightarrow> f64 list \<Rightarrow> f64 list \<Rightarrow> string \<Rightarrow> (string, f64) dict res" where
  "distribution_summary np sp values qs method =
     (let out = [(''n'', f_of_int (int (length values)))] in
      if values = []
      then Inr (foldl (\<lambda>d k. dict_put d k NaN) out ([''min''] @ map pct_label qs @ [''max'', ''mean'', ''std'']))
      else res_bind (percentiles np values qs method) (\<lambda>pcts.
        let out1 = dict_put out ''min'' (np_fmin np values);
            out2 = foldl (\<lambda>d (q, v). dict_put d (pct_label q) v) out1 (zip qs pcts);
            out3 = dict_put out2 ''max'' (np_fmax np values);
            out4 = dict_put out3 ''mean'' (np_mean sp values)
        in Inr (dict_put out4 ''std'' (if 1 < length values then np_std1 sp values else NaN))))"

definition latency_summary :: "numpy \<Rightarrow> scipy \<Rightarrow> f64 list \<Rightarrow> string \<Rightarrow> (string, f64) dict res" where
  "latency_summary np sp latency method = distribution_summary np sp latency LATENCY_PERCENTILES method"

definition jitter_values :: "f64 list \<Rightarrow> f64 list" where
  "jitter_values jitter = map f_abs (drop 1 jitter)"

definition loss_summary :: "numpy \<Rightarrow> int list \<Rightarrow> (string, f64) dict" where
  "loss_summary np arr =
     (if arr = []
      then [(''expected'', Num 0), (''received'', Num 0), (''unique'', Num 0), (''lost'', Num 0),
            (''loss_pct'', NaN), (''duplicates'', Num 0), (''reorders'', Num 0)]
      else
        let expected = np_imax np arr + 1;
            unique = int (length (np_unique np arr));
            received = int (length arr);
            lost = expected - unique;
            running_max = np_maximum_accumulate np arr;
            reorders = np_count_nonzero np (map2 (<) (drop 1 arr) (butlast running_max))
        in [(''expected'', f_of_int expected), (''received'', f_of_int received),
            (''unique'', f_of_int unique), (''lost'', f_of_int lost),
            (''loss_pct'', if expected \<noteq> 0
               then f_div (f_mul (Num 100) (f_of_int lost)) (f_of_int expected) else NaN),
            (''duplicates'', f_of_int (received - unique)),
            (''reorders'', f_of_int (int reorders))])"

record dscp_dist =
  dscp_hist :: "(int, nat) dict"
  ecn_hist :: "(int, nat) dict"
  tos_hist :: "(int, nat) dict"
  tos_missing :: nat
  dominant_dscp :: "int option"

definition dscp_distribution :: "numpy \<Rightarrow> int list option \<Rightarrow> dscp_dist option" where
  "dscp_distribution np tos = (case tos of
      None \<Rightarrow> None
    | Some arr \<Rightarrow>
        let valid = filter (\<lambda>t. 0 \<le> t) arr;
            (dscp_vals, dscp_counts) = np_unique_counts np (map (drop_bit 2) valid);
            (ecn_vals, ecn_counts) = np_unique_counts np (map (\<lambda>t. t AND 3) valid);
            (tos_vals, tos_counts) = np_unique_counts np valid
        in Some \<lparr>dscp_hist = zip dscp_vals dscp_counts, ecn_hist = zip ecn_vals ecn_counts,
                 tos_hist = zip tos_vals tos_counts, tos_missing = length arr - length valid,
                 dominant_dscp = (if valid \<noteq> [] then Some (dscp_vals ! np_argmax np dscp_counts) else None)\<rparr>)"

section \<open>Lemmas\<close>

text \<open>A late arrival: an element with a greater one before it.\<close>

definition late_arrivals :: "int list \<Rightarrow> nat" where
  "late_arrivals xs = card {i. i < length xs \<and> (\<exists>j < i. xs ! i < xs ! j)}"

lemma card_Suc_image: "card {i. i < n - 1 \<and> P (Suc i)} = card {i. i < n \<and> 0 < i \<and> P i}"
proof -
  have "{i. i < n \<and> 0 < i \<and> P i} = Suc ` {i. i < n - 1 \<and> P (Suc i)}"
  proof (rule set_eqI)
    fix i
    show "i \<in> {i. i < n \<and> 0 < i \<and> P i} \<longleftrightarrow> i \<in> Suc ` {i. i < n - 1 \<and> P (Suc i)}"
      by (cases i) (auto simp: image_iff)
  qed
  then show ?thesis by (simp add: card_image)
qed

lemma missing_numbers_card:
  assumes "xs \<noteq> []" and "list_all (\<lambda>s. 0 \<le> s) xs"
  shows "int (card ({0..Max (set xs)} - set xs)) = Max (set xs) + 1 - int (card (set xs))"
proof -
  have sub: "set xs \<subseteq> {0..Max (set xs)}" using assms by (auto simp: list_all_iff)
  have "Max (set xs) \<in> set xs" using assms(1) by (intro Max_in) simp_all
  with assms(2) have "0 \<le> Max (set xs)" by (simp add: list_all_iff)
  then have "card {0..Max (set xs)} = nat (Max (set xs) + 1)" by simp
  moreover have "card (set xs) \<le> card {0..Max (set xs)}" using sub by (intro card_mono) simp_all
  ultimately show ?thesis
    using card_Diff_subset [OF _ sub] \<open>0 \<le> Max (set xs)\<close> by simp
qed

context numpy_int
begin

lemma reorders_late:
  "np_count_nonzero np (map2 (<) (drop 1 xs) (butlast (np_maximum_accumulate np xs))) = late_arrivals xs"
proof -
  let ?acc = "np_maximum_accumulate np xs" and ?n = "length xs"
  let ?bs = "map2 (<) (drop 1 xs) (butlast ?acc)"
  have len: "length ?bs = ?n - 1" by (simp add: accumulate_length)
  have nth: "?bs ! i \<longleftrightarrow> (\<exists>j < Suc i. xs ! Suc i < xs ! j)" if i: "i < ?n - 1" for i
  proof -
    have s: "set (take (Suc i) xs) = {xs ! j | j. j < Suc i}"
      using i by (auto simp: in_set_conv_nth) (metis nth_take)+
    have "?bs ! i \<longleftrightarrow> xs ! Suc i < Max (set (take (Suc i) xs))"
      using i accumulate_nth [of i xs] by (simp add: accumulate_length nth_butlast)
    also have "\<dots> \<longleftrightarrow> (\<exists>j < Suc i. xs ! Suc i < xs ! j)"
      using i by (subst Max_gr_iff) (auto simp: s)
    finally show ?thesis .
  qed
  have "length (filter id ?bs) = card {i. i < ?n - 1 \<and> (\<exists>j < Suc i. xs ! Suc i < xs ! j)}"
    unfolding length_filter_conv_card len id_apply
    by (intro arg_cong [where f = card] Collect_cong conj_cong refl nth)
  also have "\<dots> = card {i. i < ?n \<and> 0 < i \<and> (\<exists>j < i. xs ! i < xs ! j)}"
    by (rule card_Suc_image)
  also have "\<dots> = late_arrivals xs"
    unfolding late_arrivals_def by (rule arg_cong [where f = card]) auto
  finally show ?thesis by (simp add: count_nonzero)
qed

lemma unique_counts_zip: "zip (fst (np_unique_counts np xs)) (snd (np_unique_counts np xs)) = map (\<lambda>k. (k, count_list xs k)) (np_unique np xs)"
  by (simp add: unique_counts zip_map2 zip_same_conv_map)

lemma dict_get_unique_counts:
  "dict_get (zip (fst (np_unique_counts np xs)) (snd (np_unique_counts np xs))) k
   = (if k \<in> set xs then Some (count_list xs k) else None)"
  by (simp add: unique_counts_zip dict_get_map unique_set)

lemma hist_get:
  "dict_get_or (zip (fst (np_unique_counts np xs)) (snd (np_unique_counts np xs))) k 0 = count_list xs k"
  by (simp add: dict_get_or_def dict_get_unique_counts count_list_0_iff)

lemma unique_counts_zip_total:
  "sum_list (map snd (zip (fst (np_unique_counts np xs)) (snd (np_unique_counts np xs)))) = length xs"
  using unique_counts_total [of xs] by (simp add: unique_counts_zip unique_counts comp_def)

lemma dominant_most_frequent:
  assumes "xs \<noteq> []"
  shows "\<exists>k. fst (np_unique_counts np xs) ! np_argmax np (snd (np_unique_counts np xs)) = k
    \<and> k \<in> set xs \<and> (\<forall>y \<in> set xs. count_list xs y \<le> count_list xs k)
    \<and> (\<forall>y \<in> set xs. y < k \<longrightarrow> count_list xs y < count_list xs k)"
proof -
  let ?u = "np_unique np xs" and ?c = "map (count_list xs) (np_unique np xs)"
  let ?i = "np_argmax np ?c"
  have ne: "?c \<noteq> []" using assms unique_set [of xs] by auto
  have i: "?i < length ?u" using argmax_less [OF ne] by simp
  have mx: "count_list xs (?u ! ?i) = Max (set ?c)" using argmax_max [OF ne] i by simp
  have le: "count_list xs y \<le> Max (set ?c)" if "y \<in> set xs" for y
    using that by (intro Max_ge) (auto simp: unique_set)
  have lt: "count_list xs y < Max (set ?c)" if "y \<in> set xs" "y < ?u ! ?i" for y
  proof -
    from that(1) have "y \<in> set ?u" by (simp add: unique_set)
    then obtain j where j: "j < length ?u" "?u ! j = y" unfolding in_set_conv_nth by blast
    have "j < ?i"
    proof (rule ccontr)
      assume "\<not> j < ?i"
      then have "?u ! ?i \<le> ?u ! j" using unique_sorted j(1) by (intro sorted_nth_mono) simp_all
      with j(2) that(2) show False by simp
    qed
    from argmax_first [OF ne this] j show ?thesis by simp
  qed
  have "?u ! ?i \<in> set xs" using nth_mem [OF i] unique_set by simp
  with le lt show ?thesis unfolding unique_counts fst_conv snd_conv mx [symmetric]
    by (intro exI [of _ "?u ! ?i"] conjI refl ballI impI)
qed

end

lemma f_mul_100_of_int:
  assumes "0 \<le> a" and "a \<le> 2 ^ 32"
  shows "f_mul (Num 100) (f_of_int a) = f_of_int (100 * a)"
proof -
  have "f_of_int a = Num (of_int a)" "f_of_int (100 * a) = Num (of_int (100 * a))"
    using assms by (simp_all add: f_of_int_exact)
  then show ?thesis using assms by (simp add: f_mul_def f_of_int_def)
qed

lemma LATENCY_PERCENTILES_range:
  "list_all (\<lambda>q. f_le (Num 0) q \<and> f_le q (Num 100)) LATENCY_PERCENTILES"
  by code_simp

lemma pct_labels:
  "pct_label (Num 50) = ''p50''" "pct_label (Num 90) = ''p90''" "pct_label (Num 99) = ''p99''"
  "pct_label (f_lit (999 / 10)) = ''p99.9''"
  by code_simp+

lemma count_list_map_filter:
  "count_list (map f (filter P xs)) k = length (filter (\<lambda>x. P x \<and> f x = k) xs)"
  by (induction xs) auto

lemma count_list_filter: "count_list (filter P xs) k = length (filter (\<lambda>x. P x \<and> x = k) xs)"
  by (induction xs) auto

lemma count_list_pos: "x \<in> set xs \<Longrightarrow> 0 < count_list xs x"
  by (simp add: count_list_0_iff neq0_conv [symmetric] del: neq0_conv)

lemma card_le_Max_Suc:
  assumes "xs \<noteq> []" and "list_all (\<lambda>s. 0 \<le> s) xs"
  shows "int (card (set xs)) \<le> Max (set xs) + 1"
  using missing_numbers_card [OF assms] by linarith

text \<open>The figures of \<open>loss_summary\<close> in terms of the received numbers as a list and as a set.\<close>

lemma loss_summary_values:
  assumes "numpy_int np" and "arr \<noteq> []"
  shows "dict_get (loss_summary np arr) ''expected'' = Some (f_of_int (Max (set arr) + 1))"
    and "dict_get (loss_summary np arr) ''received'' = Some (f_of_int (int (length arr)))"
    and "dict_get (loss_summary np arr) ''unique'' = Some (f_of_int (int (card (set arr))))"
    and "dict_get (loss_summary np arr) ''lost'' = Some (f_of_int (Max (set arr) + 1 - int (card (set arr))))"
    and "dict_get (loss_summary np arr) ''duplicates'' = Some (f_of_int (int (length arr) - int (card (set arr))))"
    and "dict_get (loss_summary np arr) ''reorders'' = Some (f_of_int (int (late_arrivals arr)))"
  using assms
  by (simp_all add: loss_summary_def Let_def numpy_int.imax numpy_int.unique_size
      numpy_int.reorders_late [OF assms(1), simplified])

section \<open>Properties\<close>

text \<open>
  Property C10. Loss accounting: for a run whose sequence numbers are not negative (the talker
  counts from 0), \<open>lost\<close> is the number of sequence numbers from 0 to the greatest one
  received that never arrived, \<open>duplicates\<close> the number of surplus rows, and
  \<open>reorders\<close> the number of rows that arrived after a row with a greater sequence number.
\<close>

theorem loss_summary_accounting:
  assumes "numpy_int np" and "arr \<noteq> []" and "list_all (\<lambda>s. 0 \<le> s) arr"
  shows "dict_get (loss_summary np arr) ''expected'' = Some (f_of_int (Max (set arr) + 1))
    \<and> dict_get (loss_summary np arr) ''received'' = Some (f_of_int (int (length arr)))
    \<and> dict_get (loss_summary np arr) ''unique'' = Some (f_of_int (int (card (set arr))))
    \<and> dict_get (loss_summary np arr) ''lost'' = Some (f_of_int (int (card ({0..Max (set arr)} - set arr))))
    \<and> dict_get (loss_summary np arr) ''duplicates'' = Some (f_of_int (int (length arr - card (set arr))))
    \<and> dict_get (loss_summary np arr) ''reorders'' = Some (f_of_int (int (late_arrivals arr)))"
  using missing_numbers_card [OF assms(2,3)] card_set_le_length [of arr]
  by (simp add: loss_summary_values [OF assms(1,2)] of_nat_diff)

lemma loss_summary_accounting_witness:
  "dict_get (loss_summary np_ref [0, 2, 1, 5, 5]) ''lost'' = Some (f_of_int (int (card ({0..5} - {0, 2, 1, 5 :: int}))))
   \<and> dict_get (loss_summary np_ref [0, 2, 1, 5, 5]) ''reorders'' = Some (f_of_int (int (late_arrivals [0, 2, 1, 5, 5])))"
  using loss_summary_accounting [OF np_ref.numpy_int_axioms, of "[0, 2, 1, 5, 5]"] by simp

text \<open>
  Property C11. The loss percentage of a run with 32-bit sequence numbers (the width of the
  field in the packet) is the exact quotient rounded once to binary64, lies between 0 and 100,
  and is 0 exactly when no number is missing.
\<close>

theorem loss_pct_bounds:
  assumes "numpy_int np" and "arr \<noteq> []" and "list_all (\<lambda>s. 0 \<le> s \<and> s < 2 ^ 32) arr"
  shows "\<exists>p. dict_get (loss_summary np arr) ''loss_pct'' = Some p \<and> is_finite p
    \<and> fval p = rnd (100 * of_nat (card ({0..Max (set arr)} - set arr)) / of_int (Max (set arr) + 1))
    \<and> 0 \<le> fval p \<and> fval p \<le> 100
    \<and> (fval p = 0 \<longleftrightarrow> {0..Max (set arr)} \<subseteq> set arr)"
proof -
  define e l where "e = Max (set arr) + 1" and "l = int (card ({0..Max (set arr)} - set arr))"
  have nn: "list_all (\<lambda>s. 0 \<le> s) arr" using assms(3) by (simp add: list_all_iff)
  have "Max (set arr) \<in> set arr" using assms(2) by (intro Max_in) simp_all
  then have e: "0 < e" "e \<le> 2 ^ 32" using assms(3) by (auto simp: e_def list_all_iff)
  have l: "0 \<le> l" "l \<le> e" "e - int (card (set arr)) = l"
    using missing_numbers_card [OF assms(2) nn] by (simp_all add: l_def e_def)
  let ?p = "fpack False (of_int (100 * l) / of_int e)"
  have "dict_get (loss_summary np arr) ''loss_pct'' = Some (f_div (f_mul (Num 100) (f_of_int l)) (f_of_int e))"
    using assms(1,2) e(1) l(3)
    by (simp add: loss_summary_def Let_def numpy_int.imax numpy_int.unique_size flip: e_def)
  then have p: "dict_get (loss_summary np arr) ''loss_pct'' = Some ?p"
    using e l by (simp add: f_mul_100_of_int f_div_of_int)
  have x: "of_int 0 \<le> of_int (100 * l) / (of_int e :: rat)" "of_int (100 * l) / of_int e \<le> (of_int 100 :: rat)"
    using e l by (simp_all add: divide_le_eq)
  note b = fpack_bounded_int [OF x, of False, simplified]
  have "rnd (of_int (100 * l) / of_int e) = 0 \<longleftrightarrow> l = 0"
  proof
    assume r: "rnd (of_int (100 * l) / of_int e) = 0"
    show "l = 0"
    proof (rule ccontr)
      assume "l \<noteq> 0"
      then have "1 \<le> l" using l(1) by simp
      then have "e \<le> 100 * l * 2 ^ 32" using e(2) by simp
      then have "of_int e \<le> (of_int (100 * l * 2 ^ 32) :: rat)" by (simp only: of_int_le_iff)
      then have "2 powi (-32) \<le> of_int (100 * l) / (of_int e :: rat)"
        using e(1) by (simp add: field_simps power_int_minus)
      from rnd_mono [OF this] r rnd_powi_exact [of "-32"] show False by (simp add: power_int_minus)
    qed
  qed simp
  moreover have "l = 0 \<longleftrightarrow> {0..Max (set arr)} \<subseteq> set arr" by (simp add: l_def)
  ultimately show ?thesis using p b by (intro exI [of _ ?p]) (simp add: l_def e_def)
qed

lemma loss_pct_bounds_witness:
  "\<exists>p. dict_get (loss_summary np_ref [0, 3]) ''loss_pct'' = Some p \<and> 0 \<le> fval p \<and> fval p \<le> 100"
  using loss_pct_bounds [OF np_ref.numpy_int_axioms, of "[0, 3]"] by auto

text \<open>
  Property C12. A latency summary of a non-empty sample has the nine keys in their documented
  order; minimum and maximum are elements of the sample that bound it, each percentile lies
  between them, and the standard deviation is defined from two values on.
\<close>

theorem latency_summary_ordered:
  assumes "numpy_float np" and "latency \<noteq> []" and "moderate latency" and "method \<in> set percentile_methods"
  shows "\<exists>mn p50 p90 p99 p999 mx. latency_summary np sp latency method = Inr
      [(''n'', f_of_int (int (length latency))), (''min'', mn), (''p50'', p50), (''p90'', p90), (''p99'', p99),
       (''p99.9'', p999), (''max'', mx), (''mean'', np_mean sp latency),
       (''std'', if length latency < 2 then NaN else np_std1 sp latency)]
    \<and> mn \<in> set latency \<and> mx \<in> set latency \<and> (\<forall>x \<in> set latency. f_le mn x \<and> f_le x mx)
    \<and> (\<forall>p \<in> {p50, p90, p99, p999}. f_le mn p \<and> f_le p mx)"
proof -
  have nn: "no_nan latency" using assms(3) by (rule moderate_no_nan)
  let ?mn = "np_fmin np latency" and ?mx = "np_fmax np latency"
  let ?in = "\<lambda>q p. np_percentile np latency q method = Inr p \<and> f64_wf p \<and> f_le ?mn p \<and> f_le p ?mx"
  have "\<exists>p. ?in q p" if "q \<in> set LATENCY_PERCENTILES" for q
    using that LATENCY_PERCENTILES_range assms(2-4)
    by (intro numpy_float.percentile_range [OF assms(1)]) (auto simp: list_all_iff)
  then obtain f where f: "\<And>q. q \<in> set LATENCY_PERCENTILES \<Longrightarrow> ?in q (f q)" by metis
  then have "percentiles np latency LATENCY_PERCENTILES method = Inr (map f LATENCY_PERCENTILES)"
    using assms(2) by (simp add: percentiles_def res_mapM_map)
  then have "latency_summary np sp latency method = Inr
      [(''n'', f_of_int (int (length latency))), (''min'', ?mn), (''p50'', f (Num 50)), (''p90'', f (Num 90)),
       (''p99'', f (Num 99)), (''p99.9'', f (f_lit (999 / 10))), (''max'', ?mx), (''mean'', np_mean sp latency),
       (''std'', if length latency < 2 then NaN else np_std1 sp latency)]"
    using assms(2) pct_labels
    by (simp add: latency_summary_def distribution_summary_def LATENCY_PERCENTILES_def dict_put_def Let_def)
  moreover have "\<forall>p \<in> {f (Num 50), f (Num 90), f (Num 99), f (f_lit (999 / 10))}. f_le ?mn p \<and> f_le p ?mx"
    using f by (simp add: LATENCY_PERCENTILES_def)
  ultimately show ?thesis
    using numpy_float.fmin_least [OF assms(1) nn assms(2)] numpy_float.fmax_greatest [OF assms(1) nn assms(2)]
    by blast
qed

lemma latency_summary_ordered_witness:
  "\<forall>sp. \<exists>d. latency_summary np_ref sp [Num 3, Num 1, Num 2] ''linear'' = Inr d \<and> dict_get d ''n'' = Some (f_of_int 3)"
proof
  fix sp
  have "moderate [Num 3, Num 1, Num 2]" using moderate_of_ints [of "[3, 1, 2]"] by simp
  moreover have "''linear'' \<in> set percentile_methods" by (simp add: percentile_methods_def)
  ultimately obtain mn p50 p90 p99 p999 mx where
    "latency_summary np_ref sp [Num 3, Num 1, Num 2] ''linear'' = Inr
      [(''n'', f_of_int (int (length [Num 3, Num 1, Num 2]))), (''min'', mn), (''p50'', p50), (''p90'', p90), (''p99'', p99),
       (''p99.9'', p999), (''max'', mx), (''mean'', np_mean sp [Num 3, Num 1, Num 2]),
       (''std'', if length [Num 3, Num 1, Num 2] < 2 then NaN else np_std1 sp [Num 3, Num 1, Num 2])]"
    using latency_summary_ordered [OF np_ref.numpy_float_axioms, of "[Num 3, Num 1, Num 2]" "''linear''" sp] by blast
  then show "\<exists>d. latency_summary np_ref sp [Num 3, Num 1, Num 2] ''linear'' = Inr d \<and> dict_get d ''n'' = Some (f_of_int 3)"
    by simp
qed

text \<open>
  Property C13. Histograms are complete: each of the three counts every row with a value exactly
  once, so that with the rows of a missing value they add up to the row count; a key is present
  exactly when it occurs, with its number of occurrences; ECN keys are 2-bit numbers; and the
  dominant DSCP is the most frequent one, the smallest of them on a tie.
\<close>

theorem dscp_distribution_complete:
  assumes "numpy_int np"
  shows "dscp_distribution np None = None \<and> (\<exists>d. dscp_distribution np (Some tos) = Some d
    \<and> sum_list (map snd (dscp_hist d)) + tos_missing d = length tos
    \<and> sum_list (map snd (ecn_hist d)) + tos_missing d = length tos
    \<and> sum_list (map snd (tos_hist d)) + tos_missing d = length tos
    \<and> (\<forall>k. dict_get_or (dscp_hist d) k 0 = length (filter (\<lambda>t. 0 \<le> t \<and> t div 4 = k) tos))
    \<and> (\<forall>k. dict_get_or (ecn_hist d) k 0 = length (filter (\<lambda>t. 0 \<le> t \<and> t mod 4 = k) tos))
    \<and> (\<forall>k. dict_get_or (tos_hist d) k 0 = length (filter (\<lambda>t. 0 \<le> t \<and> t = k) tos))
    \<and> set (dict_keys (ecn_hist d)) \<subseteq> {0..3}
    \<and> (dominant_dscp d = None \<longleftrightarrow> list_all (\<lambda>t. t < 0) tos)
    \<and> (\<forall>k. dominant_dscp d = Some k \<longrightarrow> (\<forall>k'.
         dict_get_or (dscp_hist d) k' 0 \<le> dict_get_or (dscp_hist d) k 0
         \<and> (k' < k \<longrightarrow> dict_get_or (dscp_hist d) k' 0 < dict_get_or (dscp_hist d) k 0))))"
proof -
  let ?v = "filter (\<lambda>t. 0 \<le> t) tos"
  let ?h = "\<lambda>xs. zip (fst (np_unique_counts np xs)) (snd (np_unique_counts np xs))"
  let ?d = "map (drop_bit 2) ?v" and ?e = "map (\<lambda>t. t AND 3) ?v"
  let ?r = "\<lparr>dscp_hist = ?h ?d, ecn_hist = ?h ?e, tos_hist = ?h ?v, tos_missing = length tos - length ?v,
     dominant_dscp = (if ?v \<noteq> [] then Some (fst (np_unique_counts np ?d) ! np_argmax np (snd (np_unique_counts np ?d))) else None)\<rparr>"
  note tot = numpy_int.unique_counts_zip_total [OF assms] and get = numpy_int.hist_get [OF assms]
  have eq: "dscp_distribution np (Some tos) = Some ?r"
    by (simp add: dscp_distribution_def case_prod_unfold Let_def)
  have len: "length ?v + (length tos - length ?v) = length tos" by (simp add: length_filter_le)
  have and3: "t AND 3 = t mod 4" for t :: int using take_bit_eq_mask [of 2 t] by (simp add: mask_eq_exp_minus_1 take_bit_eq_mod)
  have dom: "dict_get_or (?h ?d) k' 0 \<le> dict_get_or (?h ?d) k 0
      \<and> (k' < k \<longrightarrow> dict_get_or (?h ?d) k' 0 < dict_get_or (?h ?d) k 0)" if "dominant_dscp ?r = Some k" for k k'
  proof -
    from that have "?d \<noteq> []" and k: "fst (np_unique_counts np ?d) ! np_argmax np (snd (np_unique_counts np ?d)) = k"
      by (simp_all split: if_splits)
    from numpy_int.dominant_most_frequent [OF assms this(1)] k
    have "k \<in> set ?d" "\<forall>y \<in> set ?d. count_list ?d y \<le> count_list ?d k"
      "\<forall>y \<in> set ?d. y < k \<longrightarrow> count_list ?d y < count_list ?d k" by blast+
    then show ?thesis unfolding get by (cases "k' \<in> set ?d") (auto simp: count_list_0_iff count_list_pos)
  qed
  have "dict_get_or (?h ?d) k 0 = length (filter (\<lambda>t. 0 \<le> t \<and> t div 4 = k) tos)"
    "dict_get_or (?h ?e) k 0 = length (filter (\<lambda>t. 0 \<le> t \<and> t mod 4 = k) tos)"
    "dict_get_or (?h ?v) k 0 = length (filter (\<lambda>t. 0 \<le> t \<and> t = k) tos)" for k
    by (simp_all add: get count_list_map_filter count_list_filter drop_bit_eq_div and3)
  moreover have "set (dict_keys (?h ?e)) \<subseteq> {0..3}"
    by (auto simp: dict_keys_def numpy_int.unique_counts_zip [OF assms] numpy_int.unique_set [OF assms] and3)
  moreover have "dominant_dscp ?r = None \<longleftrightarrow> list_all (\<lambda>t. t < 0) tos"
    by (auto simp: filter_empty_conv list_all_iff not_le)
  ultimately show ?thesis
    using tot [of ?d] tot [of ?e] tot [of ?v] len dom
    by (intro conjI exI [of _ ?r] eq allI impI) (simp_all add: dscp_distribution_def)
qed

lemma dscp_distribution_complete_witness:
  "\<exists>d. dscp_distribution np_ref (Some [184, 0, -1, 184]) = Some d
     \<and> sum_list (map snd (dscp_hist d)) + tos_missing d = 4 \<and> dict_get_or (dscp_hist d) 46 0 = 2"
  using dscp_distribution_complete [OF np_ref.numpy_int_axioms, of "[184, 0, -1, 184]"] by auto

end
