(* ===== verification/PyRepr.thy ===== *)
theory PyRepr
  imports PyFormat
begin

text \<open>
  \<open>repr\<close> of a float, which is also what \<open>str\<close>, the CSV writer and the JSON encoder
  print: the shortest decimal that reads back as the same number, the nearest one among those of
  that length. The section on the round trip shows that 17 digits always suffice and that
  \<open>float(repr(x))\<close> is \<open>x\<close>.
\<close>

section \<open>Definitions\<close>

text \<open>A decimal with \<open>p + 1\<close> digits next to \<open>x\<close> that rounds to \<open>x\<close>, if there is one.\<close>

definition repr_pick :: "rat \<Rightarrow> int \<Rightarrow> nat \<Rightarrow> int option" where
  "repr_pick x e p =
     (let y = x * 10 powi (int p - e); lo = \<lfloor>y\<rfloor>; ok = (\<lambda>m. rnd (of_int m * 10 powi (e - int p)) = x)
      in if ok lo \<and> ok (lo + 1) then Some (rne y)
         else if ok lo then Some lo else if ok (lo + 1) then Some (lo + 1) else None)"

definition repr_digits :: "rat \<Rightarrow> int \<times> nat \<times> int" where
  "repr_digits x =
     (let e = ilog10 x
      in case find (\<lambda>p. repr_pick x e p \<noteq> None) [0..<17] of
           Some p \<Rightarrow> (let m = the (repr_pick x e p) in if m = 10 ^ (p + 1) then (10 ^ p, p, e + 1) else (m, p, e))
         | None \<Rightarrow> (rne (x * 10 powi (16 - e)), 16, e))"

definition repr_pos :: "rat \<Rightarrow> string" where
  "repr_pos x =
     (let (m, p, e) = repr_digits x
      in if -4 \<le> e \<and> e < 16
         then (if int p \<le> e then pos_str (m * 10 ^ nat (e - int p)) @ ''.0'' else fixed_digits (nat (int p - e)) m)
         else (if p = 0 then pos_str m else fixed_digits p m) @ exp_str e)"

definition py_repr :: "f64 \<Rightarrow> string" where
  "py_repr x = (case x of
      NaN \<Rightarrow> ''nan''
    | Inf b \<Rightarrow> (if b then ''-inf'' else ''inf'')
    | NegZero \<Rightarrow> ''-0.0''
    | Num r \<Rightarrow> (if r = 0 then ''0.0'' else if r < 0 then CHR ''-'' # repr_pos (- r) else repr_pos r))"

section \<open>Decimal digits\<close>

lemma pos_str_decimal: "list_all is_decimal (pos_str n)"
proof (induction n rule: pos_str.induct)
  case (1 n)
  then show ?case by (subst pos_str.simps) (auto simp: nat_less_iff)
qed

lemma pos_str_not_Nil [simp]: "pos_str n \<noteq> []"
  by (subst pos_str.simps) simp

lemma dec_value_append: "dec_value (s @ t) = dec_value s * 10 ^ length t + dec_value t"
proof (induction t rule: rev_induct)
  case Nil
  then show ?case by (simp add: dec_value_def)
next
  case (snoc c t)
  then show ?case
    using dec_value_append_single [of "s @ t" c] dec_value_append_single [of t c] by (simp add: algebra_simps)
qed

lemma dec_value_pos_str [simp]: "0 \<le> n \<Longrightarrow> dec_value (pos_str n) = n"
  using dec_value_nat_str [of "nat n"] by (simp add: nat_str_pos_str)

lemma length_pos_str_le: "0 \<le> n \<Longrightarrow> n < 10 ^ k \<Longrightarrow> 0 < k \<Longrightarrow> length (pos_str n) \<le> k"
  using length_nat_str_le [of "nat n" k] by (simp add: nat_str_pos_str nat_less_iff)

lemma pos_str_bounds: "0 < n \<Longrightarrow> 10 ^ (length (pos_str n) - 1) \<le> n \<and> n < 10 ^ length (pos_str n)"
proof (induction n rule: pos_str.induct)
  case (1 n)
  show ?case
  proof (cases "n < 10")
    case True
    then show ?thesis using 1 by (simp add: pos_str.simps [of n])
  next
    case False
    then have IH: "10 ^ (length (pos_str (n div 10)) - 1) \<le> n div 10" "n div 10 < 10 ^ length (pos_str (n div 10))"
      using 1 by simp_all
    obtain k where k: "length (pos_str (n div 10)) = Suc k" by (metis pos_str_not_Nil length_0_conv not0_implies_Suc)
    have "10 * 10 ^ k \<le> n" "n < 10 * (10 * 10 ^ k)" using IH unfolding k by simp_all
    then show ?thesis using False k by (simp add: pos_str.simps [of n])
  qed
qed

lemma dec_value_zeros: "dec_value (replicate k (CHR ''0'')) = 0"
proof (induction k)
  case (Suc k)
  have "dec_value (replicate k (CHR ''0'') @ [CHR ''0'']) = 0"
    using Suc by (simp only: dec_value_append_single) (simp add: digit_val_def code_def)
  then show ?case by (simp add: replicate_append_same)
qed (simp add: dec_value_def)

lemma zfill_props:
  assumes "0 \<le> n"
  shows "dec_value (zfill w (pos_str n)) = n" and "list_all is_decimal (zfill w (pos_str n))"
    and "zfill w (pos_str n) \<noteq> []"
proof -
  have "is_decimal (CHR ''0'')" by (simp add: is_decimal_def code_def)
  then show "list_all is_decimal (zfill w (pos_str n))"
    using pos_str_decimal [of n] by (auto simp: zfill_def list_all_iff)
qed (use assms in \<open>simp_all add: zfill_def dec_value_append dec_value_zeros\<close>)

lemma length_zfill_pos_str: "0 \<le> n \<Longrightarrow> n < 10 ^ w \<Longrightarrow> 0 < w \<Longrightarrow> length (zfill w (pos_str n)) = w"
  using length_pos_str_le [of n w] by (simp add: length_zfill)

lemma ilog10_lower:
  assumes "0 < x"
  shows "10 powi (ilog10 x) \<le> x"
proof -
  obtain n d where q: "quotient_of x = (n, d)" by force
  have d: "0 < d" "x = of_int n / of_int d" using q quotient_of_denom_pos quotient_of_div by blast+
  then have n: "0 < n" using assms by (simp add: zero_less_divide_iff)
  define a b where "a = length (pos_str n)" and "b = length (pos_str d)"
  have a: "0 < a" using pos_str_not_Nil [of n] by (simp add: a_def)
  have "of_int (10 ^ (a - 1)) \<le> (of_int n :: rat)" "of_int d < (of_int (10 ^ b) :: rat)"
    using pos_str_bounds [OF n] pos_str_bounds [OF d(1)] by (simp_all only: of_int_le_iff of_int_less_iff a_def b_def)
  then have "(10::rat) ^ (a - 1) \<le> of_int n" "of_int d < (10::rat) ^ b" by simp_all
  then have "(10::rat) ^ (a - 1) / 10 ^ b \<le> x"
    unfolding d(2) using n d(1) by (intro frac_le) simp_all
  moreover have "int a - int b - 1 = int (a - 1) - int b" using a by simp
  moreover have "(10::rat) powi (int (a - 1) - int b) = 10 powi int (a - 1) / 10 powi int b"
    by (rule power_int_diff) simp
  ultimately have "(10::rat) powi (int a - int b - 1) \<le> x" by (simp only: power_int_of_nat)
  then show ?thesis by (simp add: ilog10_def q a_def b_def Let_def)
qed

section \<open>Seventeen digits suffice\<close>

lemma rne_near: "\<bar>z - of_int j\<bar> < 1 / 2 \<Longrightarrow> rne z = j"
proof -
  assume "\<bar>z - of_int j\<bar> < 1 / 2"
  with rne_error [of z] have "of_int (rne z) < (of_int (j + 1) :: rat)" "(of_int (j - 1) :: rat) < of_int (rne z)"
    unfolding abs_le_iff abs_less_iff of_int_add of_int_diff of_int_1 by linarith+
  then have "rne z < j + 1" "j - 1 < rne z" by (simp_all only: of_int_less_iff)
  then show ?thesis by simp
qed

lemma ulp_exp_upper: "0 < x \<Longrightarrow> x < 2 powi (53 + ulp_exp x)"
proof -
  assume x: "0 < x"
  then have "x < 2 powi (ilog2 x + 1)" by (rule ilog2_bounds)
  also have "\<dots> \<le> 2 powi (53 + ulp_exp x)" using x by (simp add: ulp_exp_def)
  finally show ?thesis .
qed

lemma ulp_exp_le:
  assumes "0 < y" and "y < 2 powi (53 + u)" and "-1074 \<le> u"
  shows "ulp_exp y \<le> u"
proof -
  have "2 powi (ilog2 y) \<le> y" using assms(1) by (rule ilog2_bounds)
  with assms(2) have "(2::rat) powi (ilog2 y) < 2 powi (53 + u)" by linarith
  then show ?thesis using assms(1,3) by (simp add: ulp_exp_def)
qed

text \<open>A decimal within half a unit of the seventeenth digit rounds back.\<close>

lemma rnd_close:
  assumes x: "0 < x" "rnd x = x" and y: "\<bar>y - x\<bar> \<le> x * (5 / 10 ^ 17)"
  shows "rnd y = x"
proof -
  let ?u = "ulp_exp x" and ?v = "ulp_exp y"
  define w where "w = (2::rat) powi ?u"
  have w: "0 < w" by (simp add: w_def)
  have "x = of_int (rne (x / w)) * w" using x by (simp add: rnd_def w_def)
  then obtain k where k: "x = of_int k * w" by blast
  have p53: "(2::rat) powi (53 + n) = 9007199254740992 * 2 powi n" for n by (simp add: powi2_add)
  have xu: "x < 9007199254740992 * w" using ulp_exp_upper [OF x(1)] by (simp add: p53 w_def)
  then have "of_int k < (of_int 9007199254740992 :: rat)" using k w by simp
  then have "k + 1 \<le> 9007199254740992" by (simp only: of_int_less_iff)
  then have "of_int (k + 1) \<le> (of_int 9007199254740992 :: rat)" by (simp only: of_int_le_iff)
  then have kw: "x + w \<le> 9007199254740992 * w" using k w by (simp add: algebra_simps)
  have y2: "y \<le> x + x / 20000000000000000" "x - x / 20000000000000000 \<le> y"
    using y unfolding abs_le_iff by simp_all
  have ypos: "0 < y" using y2(2) x(1) by simp
  have "y < x + w" using y2(1) xu w by simp
  with kw have "y < 2 powi (53 + ?u)" unfolding p53 w_def by linarith
  then have vu: "?v \<le> ?u" using ypos by (intro ulp_exp_le) (simp_all add: ulp_exp_def)
  define j where "j = k * 2 ^ nat (?u - ?v)"
  have "w = of_int (2 ^ nat (?u - ?v)) * 2 powi ?v"
    using vu powi2_add [of "?u - ?v" ?v] by (simp add: w_def power_int_def)
  then have xj: "x = of_int j * 2 powi ?v" by (simp add: k j_def)
  have "y < 9007199254740992 * 2 powi ?v" using ulp_exp_upper [OF ypos] by (simp add: p53)
  with y2 have "\<bar>y - x\<bar> < 2 powi ?v / 2" unfolding abs_less_iff by linarith
  moreover have "y / 2 powi ?v - of_int j = (y - x) / 2 powi ?v" by (simp add: xj diff_divide_distrib)
  ultimately have "\<bar>y / 2 powi ?v - of_int j\<bar> < 1 / 2" by (simp add: abs_divide pos_divide_less_eq)
  then have "rne (y / 2 powi ?v) = j" by (rule rne_near)
  then show ?thesis using ypos xj by (simp add: rnd_def)
qed

lemma repr_pick_16:
  assumes "0 < x" and "rnd x = x"
  shows "repr_pick x (ilog10 x) 16 \<noteq> None"
proof -
  let ?e = "ilog10 x"
  define s where "s = (10::rat) powi (16 - ?e)"
  have s: "0 < s" by (simp add: s_def)
  have inv: "(10::rat) powi (?e - 16) = 1 / s"
    using power_int_minus [of "10::rat" "16 - ?e"] by (simp add: s_def inverse_eq_divide)
  have "(10::rat) powi ?e = 10 ^ 16 / s"
    using power_int_diff [of "10::rat" 16 "16 - ?e"] by (simp add: s_def)
  with ilog10_lower [OF assms(1)] have xs: "10 ^ 16 / s \<le> x" by simp
  define m where "m = rne (x * s)"
  have "\<bar>of_int m - x * s\<bar> \<le> 1 / 2" unfolding m_def by (rule rne_error)
  moreover have "of_int m / s - x = (of_int m - x * s) / s" using s by (simp add: diff_divide_distrib)
  then have "\<bar>of_int m / s - x\<bar> = \<bar>of_int m - x * s\<bar> / s" using s by (simp add: abs_divide)
  ultimately have "\<bar>of_int m / s - x\<bar> \<le> (1 / 2) / s" using s by (simp only: divide_right_mono less_imp_le)
  also have "\<dots> = (10 ^ 16 / s) * (5 / 10 ^ 17)" using s by (simp add: field_simps)
  also have "\<dots> \<le> x * (5 / 10 ^ 17)" using xs by (rule mult_right_mono) simp
  finally have "rnd (of_int m / s) = x" by (rule rnd_close [OF assms])
  moreover have "m = \<lfloor>x * s\<rfloor> \<or> m = \<lfloor>x * s\<rfloor> + 1" unfolding m_def by (auto simp: rne_def Let_def)
  ultimately have "rnd (of_int \<lfloor>x * s\<rfloor> * 10 powi (?e - 16)) = x \<or> rnd (of_int (\<lfloor>x * s\<rfloor> + 1) * 10 powi (?e - 16)) = x"
    unfolding inv by (elim disjE) simp_all
  then show ?thesis by (auto simp: repr_pick_def Let_def s_def)
qed

lemma repr_pick_sound:
  assumes "repr_pick x e p = Some m"
  shows "rnd (of_int m * 10 powi (e - int p)) = x"
    and "m = \<lfloor>x * 10 powi (int p - e)\<rfloor> \<or> m = \<lfloor>x * 10 powi (int p - e)\<rfloor> + 1"
proof -
  define y ok where "y = x * 10 powi (int p - e)" and "ok m \<longleftrightarrow> rnd (of_int m * 10 powi (e - int p)) = x" for m
  have "rne y = \<lfloor>y\<rfloor> \<or> rne y = \<lfloor>y\<rfloor> + 1" by (simp add: rne_def Let_def)
  moreover have "(if ok \<lfloor>y\<rfloor> \<and> ok (\<lfloor>y\<rfloor> + 1) then Some (rne y)
      else if ok \<lfloor>y\<rfloor> then Some \<lfloor>y\<rfloor> else if ok (\<lfloor>y\<rfloor> + 1) then Some (\<lfloor>y\<rfloor> + 1) else None) = Some m"
    using assms unfolding repr_pick_def Let_def y_def ok_def .
  ultimately have "ok m \<and> (m = \<lfloor>y\<rfloor> \<or> m = \<lfloor>y\<rfloor> + 1)" by (auto split: if_splits)
  then show "rnd (of_int m * 10 powi (e - int p)) = x"
    and "m = \<lfloor>x * 10 powi (int p - e)\<rfloor> \<or> m = \<lfloor>x * 10 powi (int p - e)\<rfloor> + 1"
    by (simp_all only: ok_def y_def)
qed

lemma repr_pick_nonneg:
  assumes "repr_pick x e p = Some m" and "0 < x"
  shows "0 \<le> m"
proof -
  have "0 \<le> \<lfloor>x * 10 powi (int p - e)\<rfloor>" using assms(2) by (simp add: zero_le_floor)
  then show ?thesis using repr_pick_sound(2) [OF assms(1)] by linarith
qed

lemma repr_digits_sound:
  assumes "0 < x" and "rnd x = x" and "repr_digits x = (m, p, e)"
  shows "rnd (of_int m * 10 powi (e - int p)) = x" and "0 \<le> m"
proof -
  let ?e = "ilog10 x"
  obtain q where q: "find (\<lambda>p. repr_pick x ?e p \<noteq> None) [0..<17] = Some q"
    using repr_pick_16 [OF assms(1,2)] by (cases "find (\<lambda>p. repr_pick x ?e p \<noteq> None) [0..<17]") (auto simp: find_None_iff)
  then obtain k where k: "repr_pick x ?e q = Some k" by (auto simp: find_Some_iff)
  have r: "rnd (of_int k * 10 powi (?e - int q)) = x" "0 \<le> k"
    using repr_pick_sound [OF k] repr_pick_nonneg [OF k assms(1)] by blast+
  have "m = 10 ^ p \<and> p = q \<and> e = ?e + 1 \<and> k = 10 ^ (p + 1) \<or> m = k \<and> p = q \<and> e = ?e"
    using assms(3) q k by (auto simp: repr_digits_def Let_def split: if_splits)
  moreover have "(of_int (10 ^ q) :: rat) * 10 powi (?e + 1 - int q) = of_int (10 ^ (q + 1)) * 10 powi (?e - int q)"
    using power_int_add [of "10::rat" "?e - int q" 1] by (simp add: algebra_simps)
  ultimately have "of_int m * (10::rat) powi (e - int p) = of_int k * 10 powi (?e - int q) \<and> 0 \<le> m" using r(2) by auto
  then show "rnd (of_int m * 10 powi (e - int p)) = x" "0 \<le> m" using r(1) by simp_all
qed

section \<open>Reading a printed number\<close>

lemma span_decimal:
  assumes "list_all is_decimal s" and "t = [] \<or> \<not> is_decimal (hd t)"
  shows "takeWhile is_decimal (s @ t) = s" and "dropWhile is_decimal (s @ t) = t"
  using assms by (induction s) (cases t; simp; fail | simp; fail)+

lemma not_decimal_marks [simp]: "\<not> is_decimal (CHR ''.'')" "\<not> is_decimal (CHR ''e'')"
  by (simp_all add: is_decimal_def code_def)

lemma parse_exponent_exp_str: "parse_exponent (exp_str e) = Some e"
  using zfill_props [of "\<bar>e\<bar>" 2] by (cases "e < 0") (simp_all add: exp_str_def parse_exponent_def split_sign_def)

lemma parse_decimal_int:
  assumes "0 \<le> m" and "t = [] \<or> t = exp_str e"
  shows "parse_decimal (pos_str m @ t) = Some (of_int m * 10 powi (if t = [] then 0 else e))"
proof -
  have t: "t = [] \<or> \<not> is_decimal (hd t)" using assms(2) by (auto simp: exp_str_def)
  have p: "parse_exponent t = Some (if t = [] then 0 else e)"
    using assms(2) parse_exponent_exp_str by (auto simp: parse_exponent_def)
  have "(case t of [] \<Rightarrow> ([], []) | c # r \<Rightarrow> if c = CHR ''.'' then (takeWhile is_decimal r, dropWhile is_decimal r) else ([], t)) = ([], t)"
    using assms(2) by (auto simp: exp_str_def)
  then show ?thesis
    using p assms(1) by (simp add: parse_decimal_def span_decimal [OF pos_str_decimal t])
qed

lemma parse_decimal_fixed:
  assumes "0 \<le> m" and "0 < d" and "t = [] \<or> t = exp_str e"
  shows "parse_decimal (fixed_digits d m @ t) = Some (of_int m * 10 powi ((if t = [] then 0 else e) - int d))"
proof -
  let ?a = "pos_str (m div 10 ^ d)" and ?b = "zfill d (pos_str (m mod 10 ^ d))"
  have t: "t = [] \<or> \<not> is_decimal (hd t)" using assms(3) by (auto simp: exp_str_def)
  have p: "parse_exponent t = Some (if t = [] then 0 else e)"
    using assms(3) parse_exponent_exp_str by (auto simp: parse_exponent_def)
  have b: "list_all is_decimal ?b" "length ?b = d" "dec_value ?b = m mod 10 ^ d"
    using zfill_props [of "m mod 10 ^ d" d] length_zfill_pos_str [of "m mod 10 ^ d" d] assms(2) by simp_all
  have v: "dec_value (?a @ ?b) = m" using b assms(1) div_mult_mod_eq [of m "10 ^ d"] by (simp add: dec_value_append pos_imp_zdiv_nonneg_iff)
  have f: "fixed_digits d m @ t = ?a @ (CHR ''.'' # ?b @ t)" using assms(2) by (simp add: fixed_digits_def)
  show ?thesis unfolding f parse_decimal_def Let_def
    using p v b(2) by (simp add: span_decimal [OF pos_str_decimal] span_decimal [OF b(1) t])
qed

lemma parse_decimal_repr_pos:
  assumes "0 < x" and "rnd x = x"
  shows "\<exists>r. parse_decimal (repr_pos x) = Some r \<and> rnd r = x"
proof -
  obtain m p e where d: "repr_digits x = (m, p, e)" by (metis prod_cases3)
  note r = repr_digits_sound [OF assms d]
  have pw: "(of_int (m * 10 ^ nat (e - int p)) :: rat) = of_int m * 10 powi (e - int p)" if "int p \<le> e"
    using that by (simp add: power_int_def)
  have "pos_str (m * 10 ^ nat (e - int p)) @ ''.0'' = fixed_digits 1 (m * 10 ^ nat (e - int p) * 10)"
  proof -
    have "pos_str 0 = ''0''" by code_simp
    then show ?thesis by (simp add: fixed_digits_def zfill_def)
  qed
  then have i: "parse_decimal (pos_str (m * 10 ^ nat (e - int p)) @ ''.0'') = Some (of_int m * 10 powi (e - int p))" if "int p \<le> e"
    using parse_decimal_fixed [of "m * 10 ^ nat (e - int p) * 10" 1 "[]"] r(2) pw [OF that]
    by (simp add: power_int_minus)
  have f: "parse_decimal (fixed_digits (nat (int p - e)) m) = Some (of_int m * 10 powi (e - int p))" if "\<not> int p \<le> e"
    using parse_decimal_fixed [of m "nat (int p - e)" "[]"] r(2) that by simp
  have g: "parse_decimal ((if p = 0 then pos_str m else fixed_digits p m) @ exp_str e) = Some (of_int m * 10 powi (e - int p))"
    using parse_decimal_fixed [of m p "exp_str e" e] parse_decimal_int [of m "exp_str e" e] r(2)
    by (auto simp: exp_str_def)
  have "parse_decimal (repr_pos x) = Some (of_int m * 10 powi (e - int p))"
    using i f g by (auto simp: repr_pos_def d)
  with r(1) show ?thesis by blast
qed

text \<open>The characters of a printed number: digits, point, exponent letter and signs.\<close>

definition numeric_char :: "char \<Rightarrow> bool" where
  "numeric_char c = (is_decimal c \<or> c \<in> {CHR ''.'', CHR ''e'', CHR ''+'', CHR ''-''})"

lemma numeric_char_plain:
  assumes "numeric_char c"
  shows "\<not> is_space c" and "c \<noteq> CHR ''_''" and "c \<noteq> CHR '',''" and "c \<noteq> CHR 0x22" and "c \<noteq> CHR 0x0A" and "c \<noteq> CHR 0x0D"
  using assms by (auto simp: numeric_char_def is_space_def is_decimal_def code_def Let_def)

lemma numeric_pos_str: "list_all numeric_char (pos_str n)"
  using pos_str_decimal [of n] by (auto simp: list_all_iff numeric_char_def)

lemma numeric_zfill: "list_all numeric_char (zfill w (pos_str n))"
  using numeric_pos_str [of n] by (auto simp: zfill_def list_all_iff numeric_char_def is_decimal_def code_def)

lemma numeric_fixed_digits: "list_all numeric_char (fixed_digits d m)"
  using numeric_pos_str numeric_zfill by (simp add: fixed_digits_def numeric_char_def)

lemma numeric_exp_str: "list_all numeric_char (exp_str e)"
  using numeric_zfill by (simp add: exp_str_def numeric_char_def)

lemma numeric_repr_pos: "list_all numeric_char (repr_pos x)"
  using numeric_pos_str numeric_fixed_digits numeric_exp_str
  by (simp add: repr_pos_def split_def Let_def numeric_char_def is_decimal_def code_def)

lemma repr_pos_hd: "repr_pos x \<noteq> [] \<and> is_decimal (hd (repr_pos x))"
proof -
  have h: "is_decimal (hd (pos_str n @ t))" for n t
    using pos_str_decimal [of n] by (cases "pos_str n") auto
  show ?thesis
    by (simp add: repr_pos_def split_def Let_def fixed_digits_def h del: hd_append2) 
qed

lemma drop_underscores_none: "CHR ''_'' \<notin> set s \<Longrightarrow> drop_underscores d s = Some s"
  by (induction s arbitrary: d) auto

lemma py_float_numeric:
  assumes n: "list_all numeric_char s" and h: "s \<noteq> []" "is_decimal (hd s)" and p: "parse_decimal s = Some r"
  shows "py_float s = Inr (fpack False r)" and "py_float (CHR ''-'' # s) = Inr (fpack True (- r))"
proof -
  have c: "\<not> is_space c" "c \<noteq> CHR ''_''" if "c \<in> set s" for c
    using n that numeric_char_plain by (auto simp: list_all_iff)
  have st: "strip s = s" "strip (CHR ''-'' # s) = CHR ''-'' # s" using c by (auto intro!: strip_no_space)
  have du: "drop_underscores False s = Some s" "drop_underscores False (CHR ''-'' # s) = Some (CHR ''-'' # s)"
    using c(2) by (auto intro!: drop_underscores_none)
  have sg: "split_sign s = (False, s)" "split_sign (CHR ''-'' # s) = (True, s)"
    using h is_decimal_not_special [OF h(2)] by (cases s; simp add: split_sign_def)+
  have "lower_char (hd s) \<noteq> CHR ''i''" "lower_char (hd s) \<noteq> CHR ''n''"
    using h(2) by (auto simp: lower_char_def is_decimal_def code_def Let_def)
  then have name: "lower s \<noteq> ''inf''" "lower s \<noteq> ''infinity''" "lower s \<noteq> ''nan''"
    using h(1) by (cases s; simp add: lower_def)+
  show "py_float s = Inr (fpack False r)" "py_float (CHR ''-'' # s) = Inr (fpack True (- r))"
    using name p by (simp_all only: py_float_def st du sg option.case Let_def prod.case simp_thms if_False if_True)
qed

text \<open>\<open>float(repr(x))\<close> is \<open>x\<close> for every binary64 number.\<close>

lemma py_float_repr:
  assumes "f64_wf x"
  shows "py_float (py_repr x) = Inr x"
proof (cases x)
  case (Num r)
  have wf: "rnd r = r" "\<bar>r\<bar> < 2 ^ 1024" using assms Num by simp_all
  note chars = numeric_repr_pos repr_pos_hd [THEN conjunct1] repr_pos_hd [THEN conjunct2]
  consider "r = 0" | "0 < r" | "r < 0" by linarith
  then show ?thesis
  proof cases
    case 1
    have "py_float ''0.0'' = Inr (Num 0)" by code_simp
    then show ?thesis using 1 Num by (simp add: py_repr_def)
  next
    case 2
    obtain q where q: "parse_decimal (repr_pos r) = Some q" "rnd q = r"
      using parse_decimal_repr_pos [OF 2 wf(1)] by blast
    have "fpack False q = Num r" using q(2) wf 2 by (simp add: fpack_def)
    then show ?thesis using py_float_numeric(1) [OF chars q(1)] 2 Num by (simp add: py_repr_def)
  next
    case 3
    then have pos: "0 < - r" "rnd (- r) = - r" using wf by (simp_all add: rnd_uminus)
    obtain q where q: "parse_decimal (repr_pos (- r)) = Some q" "rnd q = - r"
      using parse_decimal_repr_pos [OF pos] by blast
    have "fpack True (- q) = Num r" using q(2) wf 3 by (simp add: fpack_def rnd_uminus)
    then show ?thesis using py_float_numeric(2) [OF chars q(1)] 3 Num by (simp add: py_repr_def)
  qed
next
  case (Inf b)
  have "py_float ''inf'' = Inr (Inf False)" "py_float ''-inf'' = Inr (Inf True)" by code_simp+
  then show ?thesis using Inf by (simp add: py_repr_def)
next
  case NaN
  have "py_float ''nan'' = Inr NaN" by code_simp
  then show ?thesis using NaN by (simp add: py_repr_def)
next
  case NegZero
  have "py_float ''-0.0'' = Inr NegZero" by code_simp
  then show ?thesis using NegZero by (simp add: py_repr_def)
qed

section \<open>The length of a printed number\<close>

lemma powi10_less_iff: "(10::rat) powi a < 10 powi b \<longleftrightarrow> a < b"
  by (metis linorder_not_less one_less_numeral_iff one_le_numeral power_int_increasing
      power_int_strict_increasing semiring_norm(76))

lemma ilog10_upper:
  assumes "0 < x"
  shows "x < 10 powi (ilog10 x + 1)"
proof -
  obtain n d where q: "quotient_of x = (n, d)" by force
  have d: "0 < d" "x = of_int n / of_int d" using q quotient_of_denom_pos quotient_of_div by blast+
  then have n: "0 < n" using assms by (simp add: zero_less_divide_iff)
  define a b where "a = length (pos_str n)" and "b = length (pos_str d)"
  have b: "0 < b" using pos_str_not_Nil [of d] by (simp add: b_def)
  have "(of_int n :: rat) < of_int (10 ^ a)" "of_int (10 ^ (b - 1)) \<le> (of_int d :: rat)"
    using pos_str_bounds [OF n] pos_str_bounds [OF d(1)] by (simp_all only: of_int_le_iff of_int_less_iff a_def b_def)
  then have "of_int n < (10::rat) ^ a" "(10::rat) ^ (b - 1) \<le> of_int d" by simp_all
  then have "x < 10 ^ a / 10 ^ (b - 1)" unfolding d(2) using n by (intro frac_less) simp_all
  moreover have "int a - int b + 1 = int a - int (b - 1)" using b by simp
  moreover have "(10::rat) powi (int a - int (b - 1)) = 10 powi int a / 10 powi int (b - 1)"
    by (rule power_int_diff) simp
  ultimately have "x < (10::rat) powi (int a - int b + 1)" by (simp only: power_int_of_nat)
  then show ?thesis by (auto simp: ilog10_def q a_def b_def Let_def)
qed

lemma repr_digits_bounds:
  assumes "0 < x" and "rnd x = x" and "repr_digits x = (m, p, e)"
  shows "m \<le> 10 ^ 17" and "p \<le> 16" and "e = ilog10 x \<or> e = ilog10 x + 1"
proof -
  let ?e = "ilog10 x"
  obtain q where q: "find (\<lambda>p. repr_pick x ?e p \<noteq> None) [0..<17] = Some q"
    using repr_pick_16 [OF assms(1,2)] by (cases "find (\<lambda>p. repr_pick x ?e p \<noteq> None) [0..<17]") (auto simp: find_None_iff)
  then obtain k where k: "repr_pick x ?e q = Some k" and q16: "q \<le> 16" by (auto simp: find_Some_iff)
  have "x * 10 powi (int q - ?e) < 10 powi (?e + 1) * 10 powi (int q - ?e)"
    using ilog10_upper [OF assms(1)] by (intro mult_strict_right_mono) simp_all
  also have "\<dots> = 10 powi int (q + 1)" using power_int_add [of "10::rat" "?e + 1" "int q - ?e"] by (simp add: algebra_simps)
  finally have "x * 10 powi (int q - ?e) < of_int (10 ^ (q + 1))" by (simp only: power_int_of_nat of_int_power of_int_numeral)
  then have "\<lfloor>x * 10 powi (int q - ?e)\<rfloor> < 10 ^ (q + 1)" by (simp only: floor_less_iff)
  then have k10: "k \<le> 10 ^ (q + 1)" using repr_pick_sound(2) [OF k] by linarith
  have "(10::int) ^ (q + 1) \<le> 10 ^ 17" "(10::int) ^ q \<le> 10 ^ 17" using q16 by (intro power_increasing; simp)+
  then show "m \<le> 10 ^ 17" "p \<le> 16" "e = ?e \<or> e = ?e + 1"
    using assms(3) q k k10 q16 by (auto simp: repr_digits_def Let_def split: if_splits)
qed

lemma ilog10_range:
  assumes "0 < x" and "rnd x = x" and "x < 2 ^ 1024"
  shows "-400 \<le> ilog10 x" and "ilog10 x \<le> 400"
proof -
  have "10 powi (ilog10 x) < (2::rat) ^ 1024" using ilog10_lower [OF assms(1)] assms(3) by linarith
  also have "\<dots> < 10 ^ 400" by simp
  also have "\<dots> = 10 powi 400" by simp
  finally show "ilog10 x \<le> 400" by (simp only: powi10_less_iff)
  have w: "(2::rat) powi (-1074) \<le> 2 powi (ulp_exp x)" unfolding powi2_le_iff by (simp add: ulp_exp_def)
  have k: "x = of_int (rne (x / 2 powi (ulp_exp x))) * 2 powi (ulp_exp x)" using assms(1,2) by (simp add: rnd_def)
  then have "0 < rne (x / 2 powi (ulp_exp x))" using assms(1) by (metis of_int_0_less_iff zero_less_mult_pos2 powi2_pos)
  then have "1 * 2 powi (ulp_exp x) \<le> x" by (subst k) (intro mult_right_mono; simp)
  with w ilog10_upper [OF assms(1)] have "(2::rat) powi (-1074) < 10 powi (ilog10 x + 1)" by linarith
  moreover have "(10::rat) powi (-399) < 2 powi (-1074)" by (simp add: power_int_minus)
  ultimately have "(10::rat) powi (-399) < 10 powi (ilog10 x + 1)" by linarith
  then show "-400 \<le> ilog10 x" by (simp only: powi10_less_iff)
qed

lemma length_fixed_digits:
  assumes "0 \<le> m" and "m < 10 ^ k" and "0 < k"
  shows "length (fixed_digits d m) \<le> k + d + 1"
proof -
  have "m div 10 ^ d \<le> m div 1" using assms(1) by (intro zdiv_mono2) simp_all
  then have "m div 10 ^ d \<le> m" by simp
  then have "length (pos_str (m div 10 ^ d)) \<le> k"
    using assms by (intro length_pos_str_le) (simp_all add: pos_imp_zdiv_nonneg_iff)
  moreover have "length (zfill d (pos_str (m mod 10 ^ d))) \<le> d" if "0 < d"
    using length_zfill_pos_str [of "m mod 10 ^ d" d] that by simp
  ultimately show ?thesis by (simp add: fixed_digits_def) fastforce
qed

lemma length_repr_pos:
  assumes "0 < x" and "rnd x = x" and "x < 2 ^ 1024"
  shows "length (repr_pos x) \<le> 100"
proof -
  obtain m p e where d: "repr_digits x = (m, p, e)" by (metis prod_cases3)
  note b = repr_digits_bounds [OF assms(1,2) d] and m0 = repr_digits_sound(2) [OF assms(1,2) d]
  have e: "\<bar>e\<bar> \<le> 401" using b(3) ilog10_range [OF assms] by linarith
  have m: "m < 10 ^ 18" using b(1) by simp
  have exp: "length (exp_str e) \<le> 10"
    using length_pos_str_le [of "\<bar>e\<bar>" 3] e by (simp add: exp_str_def length_zfill)
  have "length (pos_str (m * 10 ^ nat (e - int p))) \<le> 40" if "e < 16"
  proof -
    have "(10::int) ^ nat (e - int p) \<le> 10 ^ 16" using that by (intro power_increasing) simp_all
    then have "m * 10 ^ nat (e - int p) \<le> m * 10 ^ 16" using m0 by (rule mult_left_mono)
    then have "m * 10 ^ nat (e - int p) < 10 ^ 40" using m by simp
    then show ?thesis using m0 by (intro length_pos_str_le) simp_all
  qed
  moreover have "length (fixed_digits (nat (int p - e)) m) \<le> 50" if "-4 \<le> e"
    using length_fixed_digits [OF m0 m, of "nat (int p - e)"] b(2) that by simp
  moreover have "length (fixed_digits p m) \<le> 50" "length (pos_str m) \<le> 18"
    using length_fixed_digits [OF m0 m, of p] length_pos_str_le [OF m0 m] b(2) by simp_all
  ultimately show ?thesis using exp by (auto simp: repr_pos_def d)
qed

lemma py_repr_plain:
  assumes "f64_wf x"
  shows "py_repr x \<noteq> []" and "length (py_repr x) \<le> 101"
    and "c \<in> set (py_repr x) \<Longrightarrow> c \<noteq> CHR '','' \<and> c \<noteq> CHR 0x22 \<and> c \<noteq> CHR 0x0A \<and> c \<noteq> CHR 0x0D"
proof -
  have n: "c \<noteq> CHR '','' \<and> c \<noteq> CHR 0x22 \<and> c \<noteq> CHR 0x0A \<and> c \<noteq> CHR 0x0D" if "c \<in> set (repr_pos r)" for c r
    using numeric_repr_pos [of r] that numeric_char_plain [of c] by (auto simp: list_all_iff)
  show "py_repr x \<noteq> []" using repr_pos_hd by (cases x) (auto simp: py_repr_def)
  show "c \<noteq> CHR '','' \<and> c \<noteq> CHR 0x22 \<and> c \<noteq> CHR 0x0A \<and> c \<noteq> CHR 0x0D" if "c \<in> set (py_repr x)"
    using that n by (cases x) (auto simp: py_repr_def split: if_splits)
  show "length (py_repr x) \<le> 101"
  proof (cases x)
    case (Num r)
    with assms have r: "rnd r = r" "\<bar>r\<bar> < 2 ^ 1024" by simp_all
    have "length (repr_pos r) \<le> 100" if "0 < r" using length_repr_pos [of r] that r by simp
    moreover have "length (repr_pos (- r)) \<le> 100" if "r < 0"
      using length_repr_pos [of "- r"] that r by (simp add: rnd_uminus)
    ultimately show ?thesis using Num by (auto simp: py_repr_def not_less)
  qed (simp_all add: py_repr_def)
qed

end
