(* ===== verification/PyBytes.thy ===== *)
theory PyBytes
  imports Prelude "HOL-Library.Word"
begin

text \<open>
  Python's \<open>bytes\<close> and the part of \<open>struct\<close> the programs use: unsigned and signed
  integers of a fixed number of bytes, in big- and little-endian order. Packing checks the range
  and raises \<open>struct.error\<close>; packing and unpacking are inverse.
\<close>

type_synonym byte = "8 word"
type_synonym bytes = "byte list"

fun le_bytes :: "nat \<Rightarrow> int \<Rightarrow> bytes" where
  "le_bytes 0 n = []"
| "le_bytes (Suc k) n = word_of_int n # le_bytes k (n div 256)"

fun le_int :: "bytes \<Rightarrow> int" where
  "le_int [] = 0"
| "le_int (b # bs) = uint b + 256 * le_int bs"

definition be_bytes :: "nat \<Rightarrow> int \<Rightarrow> bytes" where
  "be_bytes k n = rev (le_bytes k n)"

definition be_int :: "bytes \<Rightarrow> int" where
  "be_int bs = le_int (rev bs)"

text \<open>An unsigned field of \<open>k\<close> bytes, and the two's complement reading of one.\<close>

definition pack_unsigned :: "nat \<Rightarrow> int \<Rightarrow> int res" where
  "pack_unsigned k n = (if 0 \<le> n \<and> n < 256 ^ k then Inr n else Inl (StructError ''argument out of range''))"

definition to_signed :: "nat \<Rightarrow> int \<Rightarrow> int" where
  "to_signed k n = (if 2 * n < 256 ^ k then n else n - 256 ^ k)"

lemma length_le_bytes [simp]: "length (le_bytes k n) = k"
  by (induction k arbitrary: n) simp_all

lemma length_be_bytes [simp]: "length (be_bytes k n) = k"
  by (simp add: be_bytes_def)

lemma uint_byte_mod: "uint (word_of_int n :: byte) = n mod 256"
  by (simp add: uint_word_of_int)

lemma uint_byte_range [simp]: "0 \<le> uint (b :: byte)" "uint (b :: byte) < 256"
  using uint_lt2p [of b] by simp_all

lemma le_int_le_bytes: "0 \<le> n \<Longrightarrow> n < 256 ^ k \<Longrightarrow> le_int (le_bytes k n) = n"
proof (induction k arbitrary: n)
  case (Suc k)
  have "n div 256 < 256 ^ k" using Suc.prems by (simp add: div_less_iff_less_mult mult.commute)
  then have "le_int (le_bytes k (n div 256)) = n div 256"
    using Suc by (simp add: pos_imp_zdiv_nonneg_iff)
  then show ?case by (simp add: uint_byte_mod)
qed simp

lemma le_int_range: "0 \<le> le_int bs \<and> le_int bs < 256 ^ length bs"
proof (induction bs)
  case (Cons b bs)
  define p :: int where "p = 256 ^ length bs"
  have "uint b + 256 * le_int bs < 256 * p" "0 \<le> uint b + 256 * le_int bs"
    using Cons uint_byte_range [of b] unfolding p_def [symmetric] by linarith+
  then show ?case by (simp add: p_def)
qed simp

lemma le_bytes_le_int: "le_bytes (length bs) (le_int bs) = bs"
proof (induction bs)
  case (Cons b bs)
  have "(uint b + 256 * le_int bs) div 256 = le_int bs"
    using uint_byte_range [of b] by simp
  moreover have "(word_of_int (uint b + 256 * le_int bs) :: byte) = b"
    by (rule word_uint_eqI) (simp only: uint_byte_mod mod_mult_self2 mod_pos_pos_trivial uint_byte_range)
  ultimately show ?case using Cons by simp
qed simp

lemma be_int_be_bytes: "0 \<le> n \<Longrightarrow> n < 256 ^ k \<Longrightarrow> be_int (be_bytes k n) = n"
  by (simp add: be_int_def be_bytes_def le_int_le_bytes)

lemma be_bytes_be_int: "be_bytes (length bs) (be_int bs) = bs"
  using le_bytes_le_int [of "rev bs"] by (simp add: be_int_def be_bytes_def)

lemma be_int_range: "0 \<le> be_int bs" "be_int bs < 256 ^ length bs"
  using le_int_range [of "rev bs"] by (simp_all add: be_int_def)

end
