(* ===== verification/Listener.thy ===== *)
theory Listener
  imports Loader Metrics PyRepr PyBytes
begin

text \<open>
  \<open>workload/listener.py\<close>: the receiver of the time-sensitive flow. The socket and the clock
  are the sequence of events they deliver: a datagram with its control messages and the time at
  which the program reads the clock after it, a receive timeout, or an interrupt while the program
  waits. The main loop is a function over that sequence, with the numbers of every progress line. The CSV file
  is the text the \<open>csv\<close> writer produces. The lemmas show which packets become rows and with
  which values, that the closing report never indexes out of range and counts losses the way
  the analysis does, and that the loader reads back exactly the rows written.
\<close>

section \<open>Receiving\<close>

definition PKT_HEADER_SIZE :: nat where
  "PKT_HEADER_SIZE = 12"

definition unpack_header :: "bytes \<Rightarrow> int \<times> int" where
  "unpack_header data = (be_int (take 4 data), be_int (take 8 (drop 4 data)))"

text \<open>The Linux values of the socket constants.\<close>

definition IPPROTO_IP :: int where "IPPROTO_IP = 0"
definition IP_TOS :: int where "IP_TOS = 1"
definition SOL_SOCKET :: int where "SOL_SOCKET = 1"
definition SCM_TIMESTAMPNS_NEW :: int where "SCM_TIMESTAMPNS_NEW = 64"

text \<open>A signed 64-bit field in the byte order of the host.\<close>

definition native_q :: "bool \<Rightarrow> bytes \<Rightarrow> int" where
  "native_q little bs = to_signed 8 (if little then le_int bs else be_int bs)"

type_synonym cmsg = "int \<times> int \<times> bytes"

fun scan_cmsgs :: "bool \<Rightarrow> int option \<Rightarrow> int option \<Rightarrow> cmsg list \<Rightarrow> (int option \<times> int option) res" where
  "scan_cmsgs little tos kts [] = Inr (tos, kts)"
| "scan_cmsgs little tos kts ((level, ctype, cdata) # ms) =
     (if level = IPPROTO_IP \<and> ctype = IP_TOS
      then (case cdata of
              [] \<Rightarrow> Inl (IndexError ''index out of range'')
            | b # _ \<Rightarrow> scan_cmsgs little (Some (uint b)) kts ms)
      else if level = SOL_SOCKET \<and> ctype = SCM_TIMESTAMPNS_NEW \<and> 16 \<le> length cdata
      then (let sec = native_q little (take 8 cdata); nsec = native_q little (take 8 (drop 8 cdata))
            in scan_cmsgs little tos (Some (sec * 1000000000 + nsec)) ms)
      else scan_cmsgs little tos kts ms)"

definition recv_one ::
  "bool \<Rightarrow> bool \<Rightarrow> bool \<Rightarrow> bytes \<Rightarrow> cmsg list \<Rightarrow> (bytes \<times> int option \<times> int option) res" where
  "recv_one little record_tos kernel_ts data ancdata =
     (if \<not> record_tos \<and> \<not> kernel_ts then Inr (data, None, None)
      else res_bind (scan_cmsgs little (if record_tos then Some (-1) else None) None ancdata)
             (\<lambda>(tos, kts). Inr (data, tos, kts)))"

section \<open>The main loop\<close>

record listener_args =
  la_interval :: f64
  la_record_tos :: bool
  la_kernel_ts :: bool
  la_little :: bool
  la_quiet :: bool

record row =
  row_seq :: int
  row_send_ns :: int
  row_recv_ns :: int
  row_latency_ms :: f64
  row_jitter_us :: f64
  row_pkt_size :: int
  row_tos :: "int option"
  row_recv_kernel_ns :: "int option"

text \<open>A progress line: packets so far, throughput in KB/s, latency and jitter of the last packet.\<close>

type_synonym progress = "nat \<times> f64 \<times> f64 \<times> f64"

record listener_state =
  ls_results :: "row list"
  ls_prev_recv_ns :: "int option"
  ls_total_bytes :: int
  ls_start_time :: "int option"
  ls_progress :: "progress list"

datatype net_event = Timeout | Datagram bytes "cmsg list" int | Interrupt

definition listener_init :: listener_state where
  "listener_init = \<lparr>ls_results = [], ls_prev_recv_ns = None, ls_total_bytes = 0, ls_start_time = None,
     ls_progress = []\<rparr>"

definition make_row :: "listener_args \<Rightarrow> int \<Rightarrow> int option \<Rightarrow> bytes \<Rightarrow> int option \<Rightarrow> int option \<Rightarrow> int \<Rightarrow> row" where
  "make_row a expected_interval_ns prev data tos kernel_ns now =
     (let (seq, sent) = unpack_header data
      in \<lparr>row_seq = seq, row_send_ns = sent, row_recv_ns = now,
          row_latency_ms = f_div (f_of_int (now - sent)) (Num 1000000),
          row_jitter_us = (case prev of None \<Rightarrow> Num 0
             | Some p \<Rightarrow> f_div (f_of_int (now - (p + expected_interval_ns))) (Num 1000)),
          row_pkt_size = int (length data),
          row_tos = (if la_record_tos a then tos else None),
          row_recv_kernel_ns = (if la_kernel_ts a then Some (case kernel_ns of Some k \<Rightarrow> k | None \<Rightarrow> -1) else None)\<rparr>)"

definition progress_lines :: "listener_args \<Rightarrow> nat \<Rightarrow> int \<Rightarrow> int option \<Rightarrow> row \<Rightarrow> progress list" where
  "progress_lines a n total_bytes start_time r =
     (if \<not> la_quiet a \<and> n mod 1000 = 0
      then (let elapsed = f_div (f_of_int (row_recv_ns r - the start_time)) (Num 1000000000);
                bw = (if f_lt (Num 0) elapsed then f_div (f_of_int total_bytes) elapsed else Num 0)
            in [(n, f_div bw (Num 1024), row_latency_ms r, row_jitter_us r)])
      else [])"

text \<open>One pass of the loop: the new state, and whether the loop goes on.\<close>

fun listener_step :: "listener_args \<Rightarrow> int \<Rightarrow> listener_state \<Rightarrow> net_event \<Rightarrow> (listener_state \<times> bool) res" where
  "listener_step a iv st Timeout = Inr (st, ls_results st = [])"
| "listener_step a iv st Interrupt = Inr (st, False)"
| "listener_step a iv st (Datagram d anc now) =
     res_bind (recv_one (la_little a) (la_record_tos a) (la_kernel_ts a) d anc) (\<lambda>(data, tos, kernel_ns).
       let st1 = st\<lparr>ls_start_time := (case ls_start_time st of None \<Rightarrow> Some now | s \<Rightarrow> s)\<rparr>
       in if length data < PKT_HEADER_SIZE then Inr (st1, True)
          else let total = ls_total_bytes st + int (length data); row = make_row a iv (ls_prev_recv_ns st) data tos kernel_ns now
               in Inr (st1\<lparr>ls_total_bytes := total, ls_prev_recv_ns := Some now, ls_results := ls_results st @ [row],
                           ls_progress := ls_progress st
                             @ progress_lines a (length (ls_results st) + 1) total (ls_start_time st1) row\<rparr>, True))"

text \<open>\<open>None\<close>: the events are used up and the program still waits for the next one.\<close>

fun listener_loop :: "listener_args \<Rightarrow> int \<Rightarrow> listener_state \<Rightarrow> net_event list \<Rightarrow> listener_state res option" where
  "listener_loop a iv st [] = None"
| "listener_loop a iv st (ev # evs) = (case listener_step a iv st ev of
      Inl e \<Rightarrow> Some (Inl e)
    | Inr (st', go) \<Rightarrow> if go then listener_loop a iv st' evs else Some (Inr st'))"

section \<open>The closing report\<close>

text \<open>\<open>xs[i]\<close> with Python's negative indices.\<close>

definition py_index :: "'a list \<Rightarrow> int \<Rightarrow> 'a res" where
  "py_index xs i = (let j = (if i < 0 then i + int (length xs) else i)
     in if 0 \<le> j \<and> j < int (length xs) then Inr (xs ! nat j) else Inl (IndexError ''list index out of range''))"

definition p99_index :: "nat \<Rightarrow> int res" where
  "p99_index n = int_of_f64 (f_mul (f_of_int (int n)) (f_lit (99 / 100)))"

definition order_stats :: "f64 list \<Rightarrow> (f64 \<times> f64 \<times> f64) res" where
  "order_stats xs =
     res_bind (py_index xs (int (length xs div 2))) (\<lambda>p50.
     res_bind (res_bind (p99_index (length xs)) (py_index xs)) (\<lambda>p99.
     res_bind (py_index xs (-1)) (\<lambda>mx. Inr (p50, p99, mx))))"

fun count_reorders :: "int \<Rightarrow> nat \<Rightarrow> int list \<Rightarrow> nat" where
  "count_reorders max_seen reorders [] = reorders"
| "count_reorders max_seen reorders (s # ss) =
     (if s < max_seen then count_reorders max_seen (reorders + 1) ss else count_reorders s reorders ss)"

record loss_report =
  lr_expected :: int
  lr_loss :: int
  lr_dups :: int
  lr_reorders :: nat

definition listener_loss :: "int list \<Rightarrow> loss_report" where
  "listener_loss seqs =
     (let unique = int (card (set seqs)); expected = Max (set seqs) + 1
      in \<lparr>lr_expected = expected, lr_loss = expected - unique, lr_dups = int (length seqs) - unique,
          lr_reorders = count_reorders (-1) 0 seqs\<rparr>)"

record listener_report =
  rep_elapsed_s :: f64
  rep_kb_s :: f64
  rep_loss_pct :: f64
  rep_loss :: loss_report
  rep_latency :: "f64 \<times> f64 \<times> f64"
  rep_jitter :: "(f64 \<times> f64 \<times> f64) option"
  rep_tos :: "(int, nat) dict option"

definition elapsed_s :: "row list \<Rightarrow> f64" where
  "elapsed_s rows = (let e = f_div (f_of_int (row_recv_ns (last rows) - row_recv_ns (hd rows))) (Num 1000000000)
     in if f_lt e (f_lit (1 / 1000000000)) then f_lit (1 / 1000000000) else e)"

text \<open>\<open>/\<close> on two integers: the quotient, rounded once.\<close>

definition int_truediv :: "int \<Rightarrow> int \<Rightarrow> f64 res" where
  "int_truediv m n =
     (if n = 0 then Inl (ZeroDivisionError ''division by zero'')
      else let q = fpack ((m < 0) \<noteq> (n < 0)) (of_int m / of_int n)
           in if is_inf q then Inl (OverflowError ''integer division result too large for a float'') else Inr q)"

definition tos_distribution :: "row list \<Rightarrow> (int, nat) dict" where
  "tos_distribution rows =
     foldl (\<lambda>d r. dict_put d (the (row_tos r)) ((case dict_get d (the (row_tos r)) of None \<Rightarrow> 0 | Some c \<Rightarrow> c) + 1)) [] rows"

definition report_rows :: "listener_args \<Rightarrow> int \<Rightarrow> row list \<Rightarrow> listener_report res" where
  "report_rows a total_bytes rows =
     (let loss = listener_loss (map row_seq rows); latencies = f_sort (map row_latency_ms rows); jitters = f_sort (map (\<lambda>r. f_abs (row_jitter_us r)) (drop 1 rows))
      in res_bind (py_div (f_of_int total_bytes) (elapsed_s rows)) (\<lambda>bw.
         res_bind (int_truediv (lr_loss loss) (lr_expected loss)) (\<lambda>lost.
         res_bind (order_stats latencies) (\<lambda>lat.
         res_bind (if jitters = [] then Inr None else res_bind (order_stats jitters) (\<lambda>j. Inr (Some j))) (\<lambda>jit.
         Inr \<lparr>rep_elapsed_s = elapsed_s rows, rep_kb_s = f_div bw (Num 1024), rep_loss_pct = f_mul lost (Num 100),
              rep_loss = loss, rep_latency = lat,
              rep_jitter = jit, rep_tos = (if la_record_tos a then Some (tos_distribution rows) else None)\<rparr>)))))"

section \<open>The CSV file\<close>

definition row_keys :: "row \<Rightarrow> string list" where
  "row_keys r = [''seq'', ''send_ns'', ''recv_ns'', ''latency_ms'', ''jitter_us'', ''pkt_size'']
     @ (if row_tos r = None then [] else [''tos'']) @ (if row_recv_kernel_ns r = None then [] else [''recv_kernel_ns''])"

definition row_fields :: "row \<Rightarrow> string list" where
  "row_fields r = [int_str (row_seq r), int_str (row_send_ns r), int_str (row_recv_ns r),
      py_repr (row_latency_ms r), py_repr (row_jitter_us r), int_str (row_pkt_size r)]
     @ (case row_tos r of None \<Rightarrow> [] | Some t \<Rightarrow> [int_str t])
     @ (case row_recv_kernel_ns r of None \<Rightarrow> [] | Some k \<Rightarrow> [int_str k])"

definition listener_csv :: "row list \<Rightarrow> string" where
  "listener_csv rows = csv_write (row_keys (hd rows) # map row_fields rows)"

section \<open>Which packets become rows\<close>

text \<open>
  The packets of an event sequence that are long enough to carry a header, with the control data
  read for them and their receive times, and the rows made of them.
\<close>

type_synonym packet = "bytes \<times> int option \<times> int option \<times> int"

fun accepted :: "listener_args \<Rightarrow> net_event list \<Rightarrow> packet list" where
  "accepted a [] = []"
| "accepted a (Datagram d anc t # evs) =
     (case recv_one (la_little a) (la_record_tos a) (la_kernel_ts a) d anc of
        Inl _ \<Rightarrow> accepted a evs
      | Inr (data, tos, k) \<Rightarrow> if length data < PKT_HEADER_SIZE then accepted a evs else (data, tos, k, t) # accepted a evs)"
| "accepted a (_ # evs) = accepted a evs"

fun rows_of :: "listener_args \<Rightarrow> int \<Rightarrow> int option \<Rightarrow> packet list \<Rightarrow> row list" where
  "rows_of a iv prev [] = []"
| "rows_of a iv prev ((d, tos, k, t) # ps) = make_row a iv prev d tos k t # rows_of a iv (Some t) ps"

lemma length_rows_of [simp]: "length (rows_of a iv prev ps) = length ps"
  by (induction a iv prev ps rule: rows_of.induct) simp_all

lemma rows_of_nth:
  "i < length ps \<Longrightarrow> rows_of a iv prev ps ! i =
     (case ps ! i of (d, tos, k, t) \<Rightarrow>
        make_row a iv (if i = 0 then prev else Some (snd (snd (snd (ps ! (i - 1)))))) d tos k t)"
proof (induction a iv prev ps arbitrary: i rule: rows_of.induct)
  case (2 a iv prev d tos k t ps)
  show ?case
  proof (cases i)
    case (Suc j)
    then show ?thesis using 2 by (cases j) auto
  qed simp
qed simp

lemma rows_of_sizes: "map row_pkt_size (rows_of a iv prev ps) = map (\<lambda>(d, _). int (length d)) ps"
  by (induction a iv prev ps rule: rows_of.induct) (simp_all add: make_row_def unpack_header_def)

lemma rows_of_values:
  assumes "i < length ps" and "ps ! i = (d, tos, k, t)"
  shows "row_seq (rows_of a iv None ps ! i) = be_int (take 4 d)"
    and "row_send_ns (rows_of a iv None ps ! i) = be_int (take 8 (drop 4 d))"
    and "row_recv_ns (rows_of a iv None ps ! i) = t"
    and "row_pkt_size (rows_of a iv None ps ! i) = int (length d)"
    and "row_latency_ms (rows_of a iv None ps ! i) = f_div (f_of_int (t - be_int (take 8 (drop 4 d)))) (Num 1000000)"
    and "row_jitter_us (rows_of a iv None ps ! i) = (if i = 0 then Num 0
           else f_div (f_of_int (t - (row_recv_ns (rows_of a iv None ps ! (i - 1)) + iv))) (Num 1000))"
    and "row_tos (rows_of a iv None ps ! i) = (if la_record_tos a then tos else None)"
    and "row_recv_kernel_ns (rows_of a iv None ps ! i)
           = (if la_kernel_ts a then Some (case k of None \<Rightarrow> -1 | Some ns \<Rightarrow> ns) else None)"
proof -
  have "row_recv_ns (rows_of a iv None ps ! (i - 1)) = snd (snd (snd (ps ! (i - 1))))"
    using assms(1) by (simp add: rows_of_nth make_row_def unpack_header_def split: prod.splits)
  then show "row_jitter_us (rows_of a iv None ps ! i) = (if i = 0 then Num 0
      else f_div (f_of_int (t - (row_recv_ns (rows_of a iv None ps ! (i - 1)) + iv))) (Num 1000))"
    using assms by (simp add: rows_of_nth make_row_def unpack_header_def)
qed (use assms in \<open>simp_all add: rows_of_nth make_row_def unpack_header_def split: option.split\<close>)

lemma recv_one_data: "recv_one l r k d anc = Inr (data, tos, kts) \<Longrightarrow> data = d"
  by (auto simp: recv_one_def res_bind_Inr_conv split: if_splits)

lemma listener_step_go:
  assumes "listener_step a iv st ev = Inr (st1, True)"
  shows "Interrupt \<noteq> ev \<and> ls_results st1 @ rows_of a iv (ls_prev_recv_ns st1) (accepted a pre)
        = ls_results st @ rows_of a iv (ls_prev_recv_ns st) (accepted a (ev # pre))
      \<and> ls_total_bytes st1 + sum_list (map (\<lambda>(d, _). int (length d)) (accepted a pre))
        = ls_total_bytes st + sum_list (map (\<lambda>(d, _). int (length d)) (accepted a (ev # pre)))"
proof (cases ev)
  case (Datagram d anc t)
  with assms obtain data tos k where r: "recv_one (la_little a) (la_record_tos a) (la_kernel_ts a) d anc = Inr (data, tos, k)"
    by (auto simp: res_bind_Inr_conv)
  show ?thesis
  proof (cases "length data < PKT_HEADER_SIZE")
    case True
    then show ?thesis using assms Datagram r by auto
  next
    case False
    then show ?thesis using assms Datagram r by (auto simp: Let_def)
  qed
qed (use assms in auto)

text \<open>
  When the loop stops: at the first interrupt, at the first timeout after an accepted packet, or at
  a datagram whose control data cannot be read (the exception leaves the program). Until then it waits.
\<close>

definition loop_stops :: "listener_args \<Rightarrow> net_event list \<Rightarrow> net_event \<Rightarrow> bool" where
  "loop_stops a pre ev = (case ev of Interrupt \<Rightarrow> True | Timeout \<Rightarrow> accepted a pre \<noteq> []
     | Datagram d anc t \<Rightarrow> isl (recv_one (la_little a) (la_record_tos a) (la_kernel_ts a) d anc))"

definition waits :: "listener_args \<Rightarrow> net_event list \<Rightarrow> net_event list \<Rightarrow> bool" where
  "waits a seen evs \<longleftrightarrow> (\<forall>pre ev post. evs = pre @ ev # post \<longrightarrow> \<not> loop_stops a (seen @ pre) ev)"

lemma waits_Nil [simp]: "waits a seen []"
  by (simp add: waits_def)

lemma waits_Cons [simp]: "waits a seen (ev # evs) \<longleftrightarrow> \<not> loop_stops a seen ev \<and> waits a (seen @ [ev]) evs"
proof
  assume w: "waits a seen (ev # evs)"
  have "\<not> loop_stops a seen ev" using w unfolding waits_def by (metis append_Nil append_Nil2)
  moreover have "waits a (seen @ [ev]) evs" unfolding waits_def
  proof (intro allI impI)
    fix pre e post
    assume "evs = pre @ e # post"
    then have "ev # evs = (ev # pre) @ e # post" by simp
    then show "\<not> loop_stops a ((seen @ [ev]) @ pre) e" using w unfolding waits_def by fastforce
  qed
  ultimately show "\<not> loop_stops a seen ev \<and> waits a (seen @ [ev]) evs" ..
qed (auto simp: waits_def Cons_eq_append_conv)

lemma accepted_append [simp]: "accepted a (xs @ ys) = accepted a xs @ accepted a ys"
proof (induction a xs rule: accepted.induct)
  case (2 a d anc t xs)
  then show ?case
    by (cases "recv_one (la_little a) (la_record_tos a) (la_kernel_ts a) d anc") (simp_all split: prod.split)
qed simp_all

lemma listener_step_Inl:
  assumes "listener_step a iv st ev = Inl e"
  shows "\<exists>d anc t. ev = Datagram d anc t \<and> recv_one (la_little a) (la_record_tos a) (la_kernel_ts a) d anc = Inl e"
proof (cases ev)
  case (Datagram d anc t)
  with assms show ?thesis
    by (cases "recv_one (la_little a) (la_record_tos a) (la_kernel_ts a) d anc") (auto simp: Let_def split: if_splits)
qed (use assms in simp_all)

lemma listener_step_stops:
  assumes "listener_step a iv st ev = Inr (st1, go)" and "ls_results st = [] \<longleftrightarrow> accepted a seen = []"
  shows "go \<longleftrightarrow> \<not> loop_stops a seen ev" "go \<Longrightarrow> ls_results st1 = [] \<longleftrightarrow> accepted a (seen @ [ev]) = []"
proof -
  have "(go \<longleftrightarrow> \<not> loop_stops a seen ev) \<and> (go \<longrightarrow> (ls_results st1 = [] \<longleftrightarrow> accepted a (seen @ [ev]) = []))"
  proof (cases ev)
    case (Datagram d anc t)
    with assms(1) obtain data tos k where r: "recv_one (la_little a) (la_record_tos a) (la_kernel_ts a) d anc = Inr (data, tos, k)"
      by (auto simp: res_bind_Inr_conv)
    show ?thesis
      by (cases "length data < PKT_HEADER_SIZE") (use assms Datagram r in \<open>auto simp: loop_stops_def Let_def\<close>)
  qed (use assms in \<open>auto simp: loop_stops_def\<close>)
  then show "go \<longleftrightarrow> \<not> loop_stops a seen ev" "go \<Longrightarrow> ls_results st1 = [] \<longleftrightarrow> accepted a (seen @ [ev]) = []" by blast+
qed

lemma listener_loop_None:
  assumes "ls_results st = [] \<longleftrightarrow> accepted a seen = []"
  shows "listener_loop a iv st evs = None \<longleftrightarrow> waits a seen evs"
  using assms
proof (induction evs arbitrary: st seen)
  case (Cons ev evs)
  show ?case
  proof (cases "listener_step a iv st ev")
    case (Inl e)
    then show ?thesis using listener_step_Inl [OF Inl] by (auto simp: loop_stops_def)
  next
    case (Inr r)
    obtain st1 go where r: "r = (st1, go)" by (cases r)
    note st = listener_step_stops [OF Inr [unfolded r] Cons.prems]
    then show ?thesis using Cons.IH [of st1 "seen @ [ev]"] Inr r by auto
  qed
qed simp

text \<open>What the loop returns is decided by the events up to the first one that stops it.\<close>

lemma listener_loop_exact:
  assumes "listener_loop a iv st evs = Some r" and "ls_results st = [] \<longleftrightarrow> accepted a seen = []"
  shows "\<exists>pre ev post. evs = pre @ ev # post \<and> waits a seen pre \<and> loop_stops a (seen @ pre) ev
    \<and> (case r of
         Inl e \<Rightarrow> \<exists>d anc t. ev = Datagram d anc t \<and> recv_one (la_little a) (la_record_tos a) (la_kernel_ts a) d anc = Inl e
       | Inr st' \<Rightarrow> ev \<in> {Interrupt, Timeout}
           \<and> ls_results st' = ls_results st @ rows_of a iv (ls_prev_recv_ns st) (accepted a pre)
           \<and> ls_total_bytes st' = ls_total_bytes st + sum_list (map (\<lambda>(d, _). int (length d)) (accepted a pre)))"
  using assms
proof (induction evs arbitrary: st seen)
  case (Cons ev evs)
  show ?case
  proof (cases "listener_step a iv st ev")
    case (Inl e)
    then show ?thesis using listener_step_Inl [OF Inl] Cons.prems
      by (intro exI [of _ "[]"] exI [of _ ev] exI [of _ evs]) (auto simp: loop_stops_def)
  next
    case (Inr r')
    obtain st1 go where r: "r' = (st1, go)" by (cases r')
    note st = listener_step_stops [OF Inr [unfolded r] Cons.prems(2)]
    show ?thesis
    proof (cases go)
      case False
      then have "ev \<in> {Interrupt, Timeout}" "st1 = st"
        using Inr r by (cases ev; auto simp: res_bind_Inr_conv Let_def split: if_splits prod.splits)+
      then show ?thesis using st Inr r Cons.prems(1) False
        by (intro exI [of _ "[]"] exI [of _ ev] exI [of _ evs]) auto
    next
      case True
      with Cons.prems(1) Inr r have "listener_loop a iv st1 evs = Some r" by simp
      from Cons.IH [OF this st(2) [OF True]] obtain pre e post where IH:
        "evs = pre @ e # post" "waits a (seen @ [ev]) pre" "loop_stops a ((seen @ [ev]) @ pre) e"
        "case r of
           Inl er \<Rightarrow> \<exists>d anc t. e = Datagram d anc t \<and> recv_one (la_little a) (la_record_tos a) (la_kernel_ts a) d anc = Inl er
         | Inr st' \<Rightarrow> e \<in> {Interrupt, Timeout}
             \<and> ls_results st' = ls_results st1 @ rows_of a iv (ls_prev_recv_ns st1) (accepted a pre)
             \<and> ls_total_bytes st' = ls_total_bytes st1 + sum_list (map (\<lambda>(d, _). int (length d)) (accepted a pre))" by blast
      have "listener_step a iv st ev = Inr (st1, True)" using Inr r True by simp
      note go = listener_step_go [OF this, of pre]
      show ?thesis
        by (rule exI [of _ "ev # pre"], rule exI [of _ e], rule exI [of _ post])
          (use IH go st(1) True in \<open>auto split: sum.splits\<close>)
    qed
  qed
qed simp

lemma waits_unique:
  assumes "pre @ ev # post = pre' @ ev' # post'" and "waits a seen pre" and "waits a seen pre'"
    and "loop_stops a (seen @ pre) ev" and "loop_stops a (seen @ pre') ev'"
  shows "pre = pre' \<and> ev = ev'"
  using assms
proof (induction pre arbitrary: pre' seen)
  case Nil
  then show ?case by (cases pre') auto
next
  case (Cons x pre)
  then show ?case using Cons.IH [of _ "seen @ [x]"] by (cases pre') auto
qed

text \<open>A loop that reaches an interrupt, or a timeout after a packet, returns the rows of the packets before it.\<close>

lemma listener_loop_returns:
  assumes "waits a [] pre" and "loop_stops a pre ev" and "ev \<in> {Interrupt, Timeout}"
  shows "\<exists>st. listener_loop a iv listener_init (pre @ ev # post) = Some (Inr st) \<and> ls_results st = rows_of a iv None (accepted a pre)"
proof -
  let ?evs = "pre @ ev # post"
  have init: "ls_results listener_init = [] \<longleftrightarrow> accepted a [] = []" by (simp add: listener_init_def)
  have "\<not> waits a [] ?evs" unfolding waits_def using assms(2) by fastforce
  then obtain r where r: "listener_loop a iv listener_init ?evs = Some r"
    using listener_loop_None [OF init, of iv ?evs] by auto
  from listener_loop_exact [OF r init] obtain pre' ev' post' where ex: "?evs = pre' @ ev' # post'" "waits a [] pre'"
      "loop_stops a ([] @ pre') ev'"
      "case r of
         Inl e \<Rightarrow> \<exists>d anc t. ev' = Datagram d anc t \<and> recv_one (la_little a) (la_record_tos a) (la_kernel_ts a) d anc = Inl e
       | Inr st' \<Rightarrow> ev' \<in> {Interrupt, Timeout} \<and> ls_results st' = ls_results listener_init @ rows_of a iv (ls_prev_recv_ns listener_init) (accepted a pre')
           \<and> ls_total_bytes st' = ls_total_bytes listener_init + sum_list (map (\<lambda>(d, _). int (length d)) (accepted a pre'))" by blast
  have "pre' = pre \<and> ev' = ev" using waits_unique [OF ex(1) assms(1) ex(2) _ ex(3)] assms(2) by auto
  then show ?thesis using ex(4) r assms(3) by (cases r) (auto simp: listener_init_def)
qed

text \<open>One progress line for every thousand packets, none with \<open>--quiet\<close>.\<close>

definition progress_inv :: "listener_args \<Rightarrow> listener_state \<Rightarrow> bool" where
  "progress_inv a st \<longleftrightarrow> length (ls_progress st) = (if la_quiet a then 0 else length (ls_results st) div 1000)"

lemma progress_inv_step: "listener_step a iv st ev = Inr (st', go) \<Longrightarrow> progress_inv a st \<Longrightarrow> progress_inv a st'"
  by (cases ev) (auto simp: progress_inv_def progress_lines_def res_bind_Inr_conv Let_def div_Suc split: if_splits)

lemma listener_loop_progress:
  "listener_loop a iv st evs = Some (Inr st') \<Longrightarrow> progress_inv a st \<Longrightarrow> progress_inv a st'"
  by (induction evs arbitrary: st) (auto split: sum.splits if_splits dest: progress_inv_step)

section \<open>The report\<close>

lemma p99_index_range:
  assumes "0 < n" and "int n \<le> 2 ^ 46"
  shows "\<exists>i. p99_index n = Inr i \<and> int (n div 2) \<le> i \<and> i < int n"
proof -
  let ?q = "f_lit (99 / 100)" and ?N = "of_int (int n) :: rat"
  have q: "is_finite ?q" "1 / 2 \<le> fval ?q" "fval ?q \<le> 127 / 128" by code_simp+
  have n: "f_of_int (int n) = Num ?N" using assms(2) by (intro f_of_int_exact) simp
  obtain s where s: "f_mul (f_of_int (int n)) ?q = fpack s (?N * fval ?q)"
    using f_ops_finite(3) [of "Num ?N" ?q] q(1) n by auto
  have "?N * fval ?q \<le> ?N * (127 / 128)" using q(3) by (intro mult_left_mono) simp_all
  also have "\<dots> = of_int (127 * int n) * 2 powi (-7)" by (simp add: power_int_minus)
  finally have up: "?N * fval ?q \<le> of_int (127 * int n) * 2 powi (-7)" .
  have "rnd (?N * fval ?q) \<le> of_int (127 * int n) * 2 powi (-7)"
    using rnd_mono [OF up] rnd_exact [of "127 * int n" "-7"] assms(2) by simp
  also have "\<dots> < ?N" using assms(1) by (simp add: power_int_minus)
  finally have r: "rnd (?N * fval ?q) < ?N" .
  have "2 * int (n div 2) \<le> int n" by linarith
  then have "of_int (2 * int (n div 2)) \<le> ?N" by (simp only: of_int_le_iff)
  then have "of_int (int (n div 2)) \<le> ?N * (1 / 2)" by simp
  also have "\<dots> \<le> ?N * fval ?q" using q(2) by (intro mult_left_mono) simp_all
  finally have lo: "of_int (int (n div 2)) \<le> rnd (?N * fval ?q)" using assms(2) by (intro rnd_ge_int) auto
  have nn: "0 \<le> rnd (?N * fval ?q)" using lo by (rule order_trans [rotated]) simp
  have "?N \<le> 2 ^ 53" using assms(2) of_int_le_iff [of "int n" "2 ^ 53", where ?'a = rat] by simp
  also have "\<dots> < (2::rat) ^ 1024" by (rule power_strict_increasing) simp_all
  finally have "fpack s (?N * fval ?q) = Num (rnd (?N * fval ?q)) \<or> rnd (?N * fval ?q) = 0 \<and> fpack s (?N * fval ?q) = NegZero"
    using r nn by (auto simp: fpack_def Let_def)
  moreover have "\<lfloor>rnd (?N * fval ?q)\<rfloor> < int n" "int (n div 2) \<le> \<lfloor>rnd (?N * fval ?q)\<rfloor>"
    using r lo by (simp_all only: floor_less_iff le_floor_iff)
  ultimately show ?thesis using nn assms(1) by (auto simp: p99_index_def s)
qed

lemma order_stats_sorted:
  assumes "xs \<noteq> []" and "int (length xs) \<le> 2 ^ 46" and "sorted_wrt f_le xs" and "no_nan xs"
  shows "\<exists>p50 p99 mx. order_stats xs = Inr (p50, p99, mx) \<and> {p50, p99, mx} \<subseteq> set xs
    \<and> f_le p50 p99 \<and> f_le p99 mx \<and> (\<forall>x \<in> set xs. f_le x mx)"
proof -
  let ?n = "length xs"
  obtain i where i: "p99_index ?n = Inr i" "int (?n div 2) \<le> i" "i < int ?n"
    using p99_index_range [of ?n] assms by auto
  have n: "0 < ?n" using assms(1) by simp
  have h: "?n div 2 < ?n" "?n div 2 \<le> nat i" "nat i < ?n" "nat i \<le> ?n - 1" "?n - 1 < ?n" using i n by auto
  have os: "order_stats xs = Inr (xs ! (?n div 2), xs ! nat i, xs ! (?n - 1))"
    using i h(1) n by (simp add: order_stats_def py_index_def Let_def nat_diff_distrib')
  note le = sorted_wrt_f_le_nth [OF assms(3,4)]
  have mx: "f_le x (xs ! (?n - 1))" if x: "x \<in> set xs" for x
  proof -
    from x obtain j where j: "j < ?n" "x = xs ! j" by (auto simp: in_set_conv_nth)
    then show ?thesis using le [of j "?n - 1"] n by simp
  qed
  then show ?thesis using os le [OF h(2,3)] le [OF h(4,5)] nth_mem h(1,3,5) by blast
qed

lemma card_Suc_split:
  "card {i. i < Suc n \<and> P i} = (if P 0 then 1 else 0) + card {i. i < n \<and> P (Suc i)}"
proof -
  have "{i. i < Suc n \<and> P i} = (if P 0 then {0} else {}) \<union> Suc ` {i. i < n \<and> P (Suc i)}"
  proof (rule set_eqI)
    fix i show "i \<in> {i. i < Suc n \<and> P i} \<longleftrightarrow> i \<in> (if P 0 then {0} else {}) \<union> Suc ` {i. i < n \<and> P (Suc i)}"
      by (cases i) (auto simp: image_iff)
  qed
  then show ?thesis by (subst \<open>{i. i < Suc n \<and> P i} = _\<close>, subst card_Un_disjoint) (auto simp: card_image)
qed

lemma count_reorders_card:
  "count_reorders m r xs = r + card {i. i < length xs \<and> (xs ! i < m \<or> (\<exists>j < i. xs ! i < xs ! j))}"
proof (induction xs arbitrary: m r)
  case (Cons s ss)
  have ex: "(\<exists>j < Suc i. ss ! i < (s # ss) ! j) \<longleftrightarrow> ss ! i < s \<or> (\<exists>j < i. ss ! i < ss ! j)" for i
    by (simp add: Ex_less_Suc2)
  have "{i. i < length ss \<and> (ss ! i < m \<or> ss ! i < s \<or> (\<exists>j < i. ss ! i < ss ! j))}
      = {i. i < length ss \<and> (ss ! i < (if s < m then m else s) \<or> (\<exists>j < i. ss ! i < ss ! j))}" by auto
  then show ?case using Cons by (auto simp: card_Suc_split ex)
qed simp

lemma count_reorders_late:
  assumes "list_all (\<lambda>s. 0 \<le> s) xs"
  shows "count_reorders (-1) 0 xs = late_arrivals xs"
proof -
  have "\<not> xs ! i < -1" if "i < length xs" for i
    using assms nth_mem [OF that] by (auto simp: list_all_iff)
  then show ?thesis unfolding count_reorders_card late_arrivals_def
    by (simp, intro arg_cong [where f = card]) auto
qed

lemma f_sort_Nil: "f_sort xs = [] \<longleftrightarrow> xs = []"
  using length_f_sort [of xs] by (metis length_0_conv)

lemma order_stats_f_sort:
  assumes "xs \<noteq> []" and "int (length xs) \<le> 2 ^ 46" and "no_nan xs"
  shows "\<exists>p50 p99 mx. order_stats (f_sort xs) = Inr (p50, p99, mx) \<and> {p50, p99, mx} \<subseteq> set xs
    \<and> f_le p50 p99 \<and> f_le p99 mx \<and> (\<forall>x \<in> set xs. f_le x mx)"
  using order_stats_sorted [OF _ _ sorted_f_sort [OF assms(3)]] assms by (simp add: f_sort_Nil no_nan_def list_all_iff)

lemma loss_share:
  assumes "seqs \<noteq> []" and "list_all (\<lambda>s. 0 \<le> s) seqs"
  shows "\<exists>q. int_truediv (lr_loss (listener_loss seqs)) (lr_expected (listener_loss seqs)) = Inr q
    \<and> f_le (Num 0) (f_mul q (Num 100)) \<and> f_le (f_mul q (Num 100)) (Num 100)"
proof -
  define m n where "m = lr_loss (listener_loss seqs)" and "n = lr_expected (listener_loss seqs)"
  have "0 < card (set seqs)" using assms(1) by (simp add: card_gt_0_iff)
  then have mn: "0 \<le> m" "m < n" using card_le_Max_Suc [OF assms] by (simp_all add: m_def n_def listener_loss_def Let_def)
  let ?q = "fpack False (of_int m / of_int n)"
  have "is_finite ?q \<and> of_int 0 \<le> fval ?q \<and> fval ?q \<le> of_int 1"
    using mn by (intro conjI fpack_bounded_int [of 0 _ 1]) simp_all
  moreover from this have "is_finite (f_mul ?q (Num 100)) \<and> of_int 0 \<le> fval (f_mul ?q (Num 100)) \<and> fval (f_mul ?q (Num 100)) \<le> of_int 100"
    by (intro f_ops_int_bounds(2)) simp_all
  moreover have "\<not> is_inf x" if "is_finite x" for x using that by (cases x) simp_all
  ultimately show ?thesis using mn unfolding m_def [symmetric] n_def [symmetric]
    by (intro exI [of _ ?q]) (simp add: int_truediv_def Let_def)
qed

text \<open>The report is computed for every sequence of received rows.\<close>

lemma report_rows_total:
  assumes "rows \<noteq> []" and "int (length rows) \<le> 2 ^ 46"
    and "list_all (\<lambda>r. 0 \<le> row_seq r \<and> \<not> is_nan (row_latency_ms r) \<and> \<not> is_nan (row_jitter_us r)) rows"
  shows "\<exists>rep p50 p99 mx. report_rows a total_bytes rows = Inr rep \<and> rep_latency rep = (p50, p99, mx)
    \<and> {p50, p99, mx} \<subseteq> row_latency_ms ` set rows \<and> f_le p50 p99 \<and> f_le p99 mx
    \<and> (\<forall>r \<in> set rows. f_le (row_latency_ms r) mx)
    \<and> (rep_jitter rep = None \<longleftrightarrow> length rows = 1) \<and> rep_loss rep = listener_loss (map row_seq rows)
    \<and> f_le (Num 0) (rep_loss_pct rep) \<and> f_le (rep_loss_pct rep) (Num 100)"
proof -
  let ?l = "map row_latency_ms rows" and ?j = "map (\<lambda>r. f_abs (row_jitter_us r)) (drop 1 rows)"
  let ?loss = "listener_loss (map row_seq rows)"
  have abs: "is_nan (f_abs x) \<longleftrightarrow> is_nan x" for x by (cases x) simp_all
  have nl: "no_nan ?l" and nj: "no_nan ?j" and seqs: "list_all (\<lambda>s. 0 \<le> s) (map row_seq rows)"
    using assms(3) by (auto simp: no_nan_def list_all_iff abs dest: in_set_dropD)
  obtain p50 p99 mx where l: "order_stats (f_sort ?l) = Inr (p50, p99, mx)" "{p50, p99, mx} \<subseteq> set ?l"
      "f_le p50 p99" "f_le p99 mx" "\<forall>x \<in> set ?l. f_le x mx"
    using order_stats_f_sort [OF _ _ nl] assms(1,2) by auto
  obtain jit where jit: "(if f_sort ?j = [] then Inr None else res_bind (order_stats (f_sort ?j)) (\<lambda>j. Inr (Some j))) = Inr jit"
      "jit = None \<longleftrightarrow> length rows = 1"
  proof (cases "drop 1 rows = []")
    case True
    then show ?thesis using that [of None] assms(1) by (cases rows) (simp_all add: f_sort_Nil)
  next
    case False
    then obtain s where "order_stats (f_sort ?j) = Inr s"
      using order_stats_f_sort [OF _ _ nj] assms(2) by auto
    then show ?thesis using that [of "Some s"] False by (cases rows) (auto simp: f_sort_Nil)
  qed
  obtain q where q: "int_truediv (lr_loss ?loss) (lr_expected ?loss) = Inr q"
      "f_le (Num 0) (f_mul q (Num 100))" "f_le (f_mul q (Num 100)) (Num 100)"
    using loss_share [OF _ seqs] assms(1) by auto
  have bw: "py_div (f_of_int total_bytes) (elapsed_s rows) = Inr (f_div (f_of_int total_bytes) (elapsed_s rows))"
    by (simp add: py_div_def elapsed_s_def Let_def clamp_elapsed)
  let ?rep = "\<lparr>rep_elapsed_s = elapsed_s rows, rep_kb_s = f_div (f_div (f_of_int total_bytes) (elapsed_s rows)) (Num 1024),
     rep_loss_pct = f_mul q (Num 100), rep_loss = ?loss, rep_latency = (p50, p99, mx),
     rep_jitter = jit, rep_tos = (if la_record_tos a then Some (tos_distribution rows) else None)\<rparr>"
  have "report_rows a total_bytes rows = Inr ?rep" unfolding report_rows_def Let_def l(1) jit(1) q(1) bw by simp
  moreover have "rep_latency ?rep = (p50, p99, mx)" "rep_jitter ?rep = jit" "rep_loss ?rep = ?loss"
    "rep_loss_pct ?rep = f_mul q (Num 100)" by simp_all
  moreover have "{p50, p99, mx} \<subseteq> row_latency_ms ` set rows" "\<forall>r \<in> set rows. f_le (row_latency_ms r) mx"
    using l(2,5) by simp_all
  ultimately show ?thesis using l(3,4) jit(2) q(2,3) by metis
qed

section \<open>The file read back\<close>

definition printable :: "int \<Rightarrow> bool" where
  "printable n = (\<bar>n\<bar> < 10 ^ 100)"

lemma int_str_plain:
  assumes "printable n"
  shows "plain_field (int_str n)"
proof -
  have "length (nat_str (nat \<bar>n\<bar>)) \<le> 100" using assms unfolding printable_def by (intro length_nat_str_le) (simp_all add: nat_less_iff)
  then have "length (int_str n) \<le> 101" by (cases "n < 0") (simp_all add: int_str_def)
  then have "int (length (int_str n)) \<le> field_size_limit" by (simp add: field_size_limit_def)
  moreover have "\<not> csv_special c" if "c \<in> set (int_str n)" for c
    using int_str_chars [OF that] is_decimal_not_special [of c] by (auto simp: csv_special_def)
  moreover have "int_str n \<noteq> []" by (simp add: int_str_def)
  ultimately show ?thesis by (simp add: plain_field_def list_all_iff)
qed

lemma py_repr_plain_field: "f64_wf x \<Longrightarrow> plain_field (py_repr x)"
  using py_repr_plain [of x] by (auto simp: plain_field_def list_all_iff csv_special_def field_size_limit_def)

lemma int64_printable [simp]: "int64 n \<Longrightarrow> printable n"
  by (simp add: int64_def printable_def abs_less_iff)

lemma to_int_int64: "int64 n \<Longrightarrow> to_int (int_str n) = Inr n"
  by (intro to_int_int_str below_digit_limit_int) (simp only: int64_printable flip: printable_def)

text \<open>A row as long as the header pairs each field with its name.\<close>

lemma dict_get_fold_zip:
  "distinct (map fst kvs) \<Longrightarrow>
   dict_get (foldl (\<lambda>d (k, v). dict_put d k (Some v)) d kvs) c
   = (case map_of kvs c of None \<Rightarrow> dict_get d c | Some v \<Rightarrow> Some (Some v))"
proof (induction kvs arbitrary: d)
  case (Cons kv kvs)
  then show ?case
    by (cases kv) (auto simp: od.get_put split: option.splits dest: map_of_SomeD intro!: rev_image_eqI)
qed simp

lemma cell_full_row:
  assumes "distinct header" and "length row = length header"
  shows "cell header row c = (case map_of (zip header row) c of None \<Rightarrow> [] | Some v \<Rightarrow> v)"
proof -
  have "dict_get (dict_row header row) c = (case map_of (zip header row) c of None \<Rightarrow> None | Some v \<Rightarrow> Some (Some v))"
    using assms dict_get_fold_zip [of "zip header row" "[]" c, unfolded dict_get_simps(1)] by (simp add: dict_row_def)
  then show ?thesis by (simp only: cell_def) (simp split: option.split)
qed

text \<open>
  A row as the program makes them: integers of 64 bits, binary64 latency and jitter, and the
  optional columns that the arguments ask for.
\<close>

definition row_ok :: "bool \<Rightarrow> bool \<Rightarrow> row \<Rightarrow> bool" where
  "row_ok rt kt r = (int64 (row_seq r) \<and> int64 (row_send_ns r) \<and> int64 (row_recv_ns r) \<and> int64 (row_pkt_size r)
     \<and> f64_wf (row_latency_ms r) \<and> f64_wf (row_jitter_us r)
     \<and> (case row_tos r of None \<Rightarrow> \<not> rt | Some t \<Rightarrow> rt \<and> int64 t)
     \<and> (case row_recv_kernel_ns r of None \<Rightarrow> \<not> kt | Some k \<Rightarrow> kt \<and> printable k))"

lemma row_fields_plain: "row_ok rt kt r \<Longrightarrow> row_fields r \<noteq> [] \<and> list_all plain_field (row_fields r)"
  by (auto simp: row_ok_def row_fields_def py_repr_plain_field int_str_plain split: option.splits)

lemma row_keys_uniform:
  assumes "row_ok rt kt r"
  shows "row_keys r = REQUIRED_COLUMNS @ (if rt then [''tos''] else []) @ (if kt then [''recv_kernel_ns''] else [])"
  using assms by (auto simp: row_ok_def row_keys_def REQUIRED_COLUMNS_def split: option.splits)

lemma row_keys_props: "distinct (row_keys r)" "list_all plain_field (row_keys r)" "row_keys r \<noteq> []"
  by (auto simp: row_keys_def plain_field_def csv_special_def field_size_limit_def)

lemma row_cells:
  assumes "row_ok rt kt r" and "row_ok rt kt r0"
  shows "cell (row_keys r0) (row_fields r) ''seq'' = int_str (row_seq r)"
    and "cell (row_keys r0) (row_fields r) ''send_ns'' = int_str (row_send_ns r)"
    and "cell (row_keys r0) (row_fields r) ''recv_ns'' = int_str (row_recv_ns r)"
    and "cell (row_keys r0) (row_fields r) ''latency_ms'' = py_repr (row_latency_ms r)"
    and "cell (row_keys r0) (row_fields r) ''jitter_us'' = py_repr (row_jitter_us r)"
    and "cell (row_keys r0) (row_fields r) ''pkt_size'' = int_str (row_pkt_size r)"
    and "rt \<Longrightarrow> cell (row_keys r0) (row_fields r) ''tos'' = int_str (the (row_tos r))"
    and "kt \<Longrightarrow> cell (row_keys r0) (row_fields r) ''recv_kernel_ns'' = int_str (the (row_recv_kernel_ns r))"
proof -
  have k: "row_keys r0 = row_keys r" using row_keys_uniform [OF assms(1)] row_keys_uniform [OF assms(2)] by simp
  have len: "length (row_fields r) = length (row_keys r)"
    by (auto simp: row_fields_def row_keys_def split: option.splits)
  note c = cell_full_row [OF row_keys_props(1) len]
  show "cell (row_keys r0) (row_fields r) ''seq'' = int_str (row_seq r)"
    "cell (row_keys r0) (row_fields r) ''send_ns'' = int_str (row_send_ns r)"
    "cell (row_keys r0) (row_fields r) ''recv_ns'' = int_str (row_recv_ns r)"
    "cell (row_keys r0) (row_fields r) ''latency_ms'' = py_repr (row_latency_ms r)"
    "cell (row_keys r0) (row_fields r) ''jitter_us'' = py_repr (row_jitter_us r)"
    "cell (row_keys r0) (row_fields r) ''pkt_size'' = int_str (row_pkt_size r)"
    unfolding k c by (simp_all add: row_keys_def row_fields_def)
  show "cell (row_keys r0) (row_fields r) ''tos'' = int_str (the (row_tos r))" if rt
    unfolding k c using assms(1) that by (auto simp: row_keys_def row_fields_def row_ok_def split: option.splits)
  show "cell (row_keys r0) (row_fields r) ''recv_kernel_ns'' = int_str (the (row_recv_kernel_ns r))" if kt
    unfolding k c using assms(1) that by (auto simp: row_keys_def row_fields_def row_ok_def split: option.splits)
qed

lemma ints_int_str: "(\<And>x. x \<in> set xs \<Longrightarrow> int64 (g x)) \<Longrightarrow> ints (map (\<lambda>x. int_str (g x)) xs) = Inr (map g xs)"
  by (simp add: ints_def res_mapM_map_map [where h = g] to_int_int64 as_int64_def list_all_iff)

lemma floats_py_repr: "(\<And>x. x \<in> set xs \<Longrightarrow> f64_wf (g x)) \<Longrightarrow> floats (map (\<lambda>x. py_repr (g x)) xs) = Inr (map g xs)"
  by (simp add: floats_def res_mapM_map_map [where h = g] py_float_repr)

lemma tos_column_int_str: "(\<And>x. x \<in> set xs \<Longrightarrow> int64 (g x)) \<Longrightarrow> tos_column (map (\<lambda>x. int_str (g x)) xs) = Inr (map g xs)"
proof -
  assume g: "\<And>x. x \<in> set xs \<Longrightarrow> int64 (g x)"
  have "int_str n \<noteq> []" for n by (simp add: int_str_def)
  then have "res_mapM (\<lambda>v. if strip v \<noteq> [] then to_int v else Inr (-1)) (map (\<lambda>x. int_str (g x)) xs) = Inr (map g xs)"
    using g by (intro res_mapM_map_map) (simp add: to_int_int64)
  then show ?thesis using g by (simp add: tos_column_def as_int64_def list_all_iff)
qed

lemma listener_csv_columns:
  assumes "rows \<noteq> []" and "list_all (row_ok rt kt) rows" and "c \<in> set (row_keys (hd rows))"
  shows "column (read_columns (row_keys (hd rows)) (map row_fields rows)) c
    = map (\<lambda>r. cell (row_keys (hd rows)) (row_fields r) c) rows"
proof -
  have "filter (\<lambda>r. r \<noteq> []) (map row_fields rows) = map row_fields rows"
    using assms(2) row_fields_plain by (auto simp: filter_id_conv list_all_iff)
  then show ?thesis using column_read_columns [OF row_keys_props(1) assms(3)] by (simp add: comp_def)
qed

text \<open>Control messages: the TOS is a byte (or -1 when none came), a kernel time stamp is bounded.\<close>

lemma native_q_bound:
  assumes "length bs = 8"
  shows "\<bar>native_q l bs\<bar> \<le> 2 ^ 64"
  using le_int_range [of bs] be_int_range [of bs] assms by (auto simp: native_q_def to_signed_def abs_le_iff)

lemma printable_timespec:
  assumes "\<bar>s\<bar> \<le> 2 ^ 64" and "\<bar>n\<bar> \<le> 2 ^ 64"
  shows "printable (s * 1000000000 + n)"
  using assms by (simp add: printable_def abs_less_iff abs_le_iff)

lemma scan_cmsgs_range:
  assumes "scan_cmsgs l tos kts ms = Inr (tos', kts')"
    and "pred_option (\<lambda>t. -1 \<le> t \<and> t < 256) tos" and "pred_option printable kts"
  shows "(tos \<noteq> None \<longrightarrow> tos' \<noteq> None) \<and> pred_option (\<lambda>t. -1 \<le> t \<and> t < 256) tos' \<and> pred_option printable kts'"
  using assms
proof (induction l tos kts ms rule: scan_cmsgs.induct)
  case (2 l tos kts level ctype cdata ms)
  show ?case
  proof (cases "level = IPPROTO_IP \<and> ctype = IP_TOS")
    case True
    then obtain b bs where c: "cdata = b # bs" using "2.prems"(1) by (cases cdata) auto
    have "-1 \<le> uint b \<and> uint b < 256" using uint_byte_range [of b] by linarith
    then show ?thesis using "2.IH"(1) [OF True c] "2.prems" True c by simp
  next
    case False
    show ?thesis
    proof (cases "level = SOL_SOCKET \<and> ctype = SCM_TIMESTAMPNS_NEW \<and> 16 \<le> length cdata")
      case True
      then have "length (take 8 cdata) = 8" "length (take 8 (drop 8 cdata)) = 8" by auto
      then have "printable (native_q l (take 8 cdata) * 1000000000 + native_q l (take 8 (drop 8 cdata)))"
        by (intro printable_timespec native_q_bound)
      moreover have "scan_cmsgs l tos (Some (native_q l (take 8 cdata) * 1000000000 + native_q l (take 8 (drop 8 cdata)))) ms
          = Inr (tos', kts')" using "2.prems"(1) False True by (simp only: scan_cmsgs.simps if_False if_True Let_def simp_thms)
      ultimately show ?thesis using "2.IH"(2) [OF False True refl refl] "2.prems"(2) by simp
    next
      case no: False
      have "scan_cmsgs l tos kts ms = Inr (tos', kts')" using "2.prems"(1) False no by auto
      from "2.IH"(3) [OF False no this "2.prems"(2,3)] show ?thesis .
    qed
  qed
qed simp

lemma make_row_ok:
  assumes "recv_one (la_little a) (la_record_tos a) (la_kernel_ts a) dg anc = Inr (d, tos, k)"
    and "PKT_HEADER_SIZE \<le> length d" and "length d \<le> 65535"
    and "be_int (take 8 (drop 4 d)) < 2 ^ 63" and "int64 t"
  shows "row_ok (la_record_tos a) (la_kernel_ts a) (make_row a iv prev d tos k t)"
proof -
  have len: "length (take 4 d) = 4" "length (take 8 (drop 4 d)) = 8"
    using assms(2) by (simp_all add: PKT_HEADER_SIZE_def)
  have "int64 (be_int (take 4 d))" "int64 (be_int (take 8 (drop 4 d)))"
    using be_int_range [of "take 4 d"] be_int_range [of "take 8 (drop 4 d)"] len assms(4) by (simp_all add: int64_def)
  moreover have "int64 (int (length d))" using assms(3) by (simp add: int64_def)
  moreover have "case row_tos (make_row a iv prev d tos k t) of None \<Rightarrow> \<not> la_record_tos a | Some t \<Rightarrow> la_record_tos a \<and> int64 t"
    "case row_recv_kernel_ns (make_row a iv prev d tos k t) of None \<Rightarrow> \<not> la_kernel_ts a | Some k \<Rightarrow> la_kernel_ts a \<and> printable k"
    using assms(1) scan_cmsgs_range [of "la_little a" "if la_record_tos a then Some (-1) else None" None anc]
    by (auto simp: make_row_def unpack_header_def recv_one_def res_bind_Inr_conv int64_def printable_def
        split: option.splits if_splits)
  ultimately show ?thesis using assms(5)
    by (auto simp: row_ok_def make_row_def unpack_header_def split: option.split)
qed

lemma listener_csv_reads:
  assumes "rows \<noteq> []" and "list_all (row_ok rt kt) rows"
  shows "csv_reader (listener_csv rows) = (row_keys (hd rows) # map row_fields rows, None)"
  unfolding listener_csv_def using row_keys_props [of "hd rows"] row_fields_plain assms
  by (intro csv_reader_write) (auto simp: list_all_iff)

text \<open>The column of the kernel's time stamps, which the loader ignores.\<close>

lemma listener_csv_kernel:
  assumes "rows \<noteq> []" and "list_all (row_ok rt True) rows"
  shows "\<exists>h body. csv_reader (listener_csv rows) = (h # body, None) \<and> ''recv_kernel_ns'' \<in> set h
    \<and> map (\<lambda>r. cell h r ''recv_kernel_ns'') body = map (\<lambda>r. int_str (the (row_recv_kernel_ns r))) rows"
proof -
  have ok: "row_ok rt True r" if "r \<in> set rows" for r using assms(2) that by (simp add: list_all_iff)
  then have ok0: "row_ok rt True (hd rows)" using assms(1) by simp
  have "map (\<lambda>r. cell (row_keys (hd rows)) r ''recv_kernel_ns'') (map row_fields rows) = map (\<lambda>r. int_str (the (row_recv_kernel_ns r))) rows"
    using row_cells(8) [OF ok ok0] by simp
  moreover have "''recv_kernel_ns'' \<in> set (row_keys (hd rows))" using row_keys_uniform [OF ok0] by simp
  ultimately show ?thesis using listener_csv_reads [OF assms] by blast
qed

lemma listener_csv_loads:
  assumes "rows \<noteq> []" and "list_all (row_ok rt kt) rows" and "parse_name (path_stem name) = Inr (c, k)"
  shows "load_csv name (listener_csv rows) = Inr
    \<lparr>run_name = path_stem name, run_condition = c, run_index = k,
     run_seq = map row_seq rows, send_ns = map row_send_ns rows, recv_ns = map row_recv_ns rows,
     latency_ms = map row_latency_ms rows, jitter_us = map row_jitter_us rows, pkt_size = map row_pkt_size rows,
     run_tos = (if rt then Some (map (\<lambda>r. the (row_tos r)) rows) else None), run_path = name\<rparr>"
proof -
  let ?h = "row_keys (hd rows)" and ?cols = "read_columns (row_keys (hd rows)) (map row_fields rows)"
  have ok: "row_ok rt kt r" if "r \<in> set rows" for r using assms(2) that by (simp add: list_all_iff)
  have ok0: "row_ok rt kt (hd rows)" using ok assms(1) by simp
  note h = row_keys_uniform [OF ok0]
  have rd: "csv_reader (listener_csv rows) = (?h # map row_fields rows, None)"
    by (rule listener_csv_reads [OF assms(1,2)])
  have col: "column ?cols c = map (\<lambda>r. cell ?h (row_fields r) c) rows" if "c \<in> set ?h" for c
    using listener_csv_columns [OF assms(1,2) that] .
  note cells = row_cells [OF ok ok0]
  have cols: "column ?cols ''seq'' = map (\<lambda>r. int_str (row_seq r)) rows"
    "column ?cols ''send_ns'' = map (\<lambda>r. int_str (row_send_ns r)) rows"
    "column ?cols ''recv_ns'' = map (\<lambda>r. int_str (row_recv_ns r)) rows"
    "column ?cols ''latency_ms'' = map (\<lambda>r. py_repr (row_latency_ms r)) rows"
    "column ?cols ''jitter_us'' = map (\<lambda>r. py_repr (row_jitter_us r)) rows"
    "column ?cols ''pkt_size'' = map (\<lambda>r. int_str (row_pkt_size r)) rows"
    "rt \<Longrightarrow> column ?cols ''tos'' = map (\<lambda>r. int_str (the (row_tos r))) rows"
    using col cells by (auto simp: h REQUIRED_COLUMNS_def)
  have tos: "''tos'' \<in> set (dict_keys ?cols) \<longleftrightarrow> rt"
    unfolding keys_read_columns by (simp add: h REQUIRED_COLUMNS_def)
  have req: "filter (\<lambda>c. c \<notin> set ?h) REQUIRED_COLUMNS = []" by (auto simp: h filter_empty_conv)
  have ne: "column ?cols ''seq'' \<noteq> []" using cols(1) assms(1) by simp
  have mk: "make_run name ?cols t = Inr
    \<lparr>run_name = path_stem name, run_condition = c, run_index = k,
     run_seq = map row_seq rows, send_ns = map row_send_ns rows, recv_ns = map row_recv_ns rows,
     latency_ms = map row_latency_ms rows, jitter_us = map row_jitter_us rows, pkt_size = map row_pkt_size rows,
     run_tos = t, run_path = name\<rparr>" for t
    using ok by (simp add: make_run_def assms(3) cols ints_int_str floats_py_repr row_ok_def)
  have tc: "tos_column (column ?cols ''tos'') = Inr (map (\<lambda>r. the (row_tos r)) rows)" if rt
    unfolding cols(7) [OF that]
  proof (rule tos_column_int_str)
    show "int64 (the (row_tos r))" if "r \<in> set rows" for r
      using ok [OF that] \<open>rt\<close> by (cases "row_tos r") (simp_all add: row_ok_def)
  qed
  show ?thesis using req ne mk tos tc by (simp add: load_csv_def rd)
qed

section \<open>Properties\<close>

text \<open>
  Property C18. The receive loop, for every event sequence. It is still waiting exactly when no
  event stops it: it stops at the first interrupt, at the first timeout after an accepted packet (a
  timeout before the first packet is ignored), or at the first datagram whose control data cannot
  be read, and only the last lets an exception out. When it ends otherwise, it has recorded
  exactly the datagrams of at least 12 bytes received until then, in order. Row \<open>i\<close> carries
  the sequence number and send time of packet \<open>i\<close>'s header, its receive time and size, a
  latency in ms that is receive minus send time, a jitter in us that is the deviation from the
  previous receive time plus the interval, 0 for the first, and, when asked for, the TOS byte and
  the kernel's time stamp (-1 when none came) read from its control data.
\<close>

theorem listener_loop_records:
  "(listener_loop a iv listener_init evs = None \<longleftrightarrow> waits a [] evs)
    \<and> (\<forall>e. listener_loop a iv listener_init evs = Some (Inl e) \<longrightarrow>
         (\<exists>pre d anc t post. evs = pre @ Datagram d anc t # post \<and> waits a [] pre
            \<and> recv_one (la_little a) (la_record_tos a) (la_kernel_ts a) d anc = Inl e))
    \<and> (\<forall>st. listener_loop a iv listener_init evs = Some (Inr st) \<longrightarrow>
         (\<exists>pre ev post. evs = pre @ ev # post \<and> waits a [] pre
            \<and> (ev = Interrupt \<or> ev = Timeout \<and> accepted a pre \<noteq> [])
            \<and> length (ls_results st) = length (accepted a pre)
            \<and> ls_total_bytes st = sum_list (map row_pkt_size (ls_results st))
            \<and> (\<forall>i < length (accepted a pre). \<forall>d tos k t. accepted a pre ! i = (d, tos, k, t) \<longrightarrow>
                 row_seq (ls_results st ! i) = be_int (take 4 d)
                 \<and> row_send_ns (ls_results st ! i) = be_int (take 8 (drop 4 d))
                 \<and> row_recv_ns (ls_results st ! i) = t \<and> row_pkt_size (ls_results st ! i) = int (length d)
                 \<and> row_latency_ms (ls_results st ! i) = f_div (f_of_int (t - be_int (take 8 (drop 4 d)))) (Num 1000000)
                 \<and> row_jitter_us (ls_results st ! i) = (if i = 0 then Num 0
                      else f_div (f_of_int (t - (row_recv_ns (ls_results st ! (i - 1)) + iv))) (Num 1000))
                 \<and> row_tos (ls_results st ! i) = (if la_record_tos a then tos else None)
                 \<and> row_recv_kernel_ns (ls_results st ! i) = (if la_kernel_ts a then Some (case k of None \<Rightarrow> -1 | Some ns \<Rightarrow> ns) else None))))"
proof (intro conjI allI impI)
  let ?loop = "listener_loop a iv listener_init evs"
  have init: "ls_results listener_init = [] \<longleftrightarrow> accepted a [] = []" by (simp add: listener_init_def)
  show "?loop = None \<longleftrightarrow> waits a [] evs" by (rule listener_loop_None [OF init])
  show "\<exists>pre d anc t post. evs = pre @ Datagram d anc t # post \<and> waits a [] pre
      \<and> recv_one (la_little a) (la_record_tos a) (la_kernel_ts a) d anc = Inl e" if "?loop = Some (Inl e)" for e
    using listener_loop_exact [OF that init] by simp blast
  show "\<exists>pre ev post. evs = pre @ ev # post \<and> waits a [] pre
      \<and> (ev = Interrupt \<or> ev = Timeout \<and> accepted a pre \<noteq> [])
      \<and> length (ls_results st) = length (accepted a pre)
      \<and> ls_total_bytes st = sum_list (map row_pkt_size (ls_results st))
      \<and> (\<forall>i < length (accepted a pre). \<forall>d tos k t. accepted a pre ! i = (d, tos, k, t) \<longrightarrow>
           row_seq (ls_results st ! i) = be_int (take 4 d)
           \<and> row_send_ns (ls_results st ! i) = be_int (take 8 (drop 4 d))
           \<and> row_recv_ns (ls_results st ! i) = t \<and> row_pkt_size (ls_results st ! i) = int (length d)
           \<and> row_latency_ms (ls_results st ! i) = f_div (f_of_int (t - be_int (take 8 (drop 4 d)))) (Num 1000000)
           \<and> row_jitter_us (ls_results st ! i) = (if i = 0 then Num 0
                else f_div (f_of_int (t - (row_recv_ns (ls_results st ! (i - 1)) + iv))) (Num 1000))
           \<and> row_tos (ls_results st ! i) = (if la_record_tos a then tos else None)
           \<and> row_recv_kernel_ns (ls_results st ! i) = (if la_kernel_ts a then Some (case k of None \<Rightarrow> -1 | Some ns \<Rightarrow> ns) else None))"
    if ends: "?loop = Some (Inr st)" for st
  proof -
    obtain pre ev post where p: "evs = pre @ ev # post" "waits a [] pre" "loop_stops a pre ev" "ev \<in> {Interrupt, Timeout}"
        "ls_results st = rows_of a iv None (accepted a pre)"
        "ls_total_bytes st = sum_list (map (\<lambda>(d, _). int (length d)) (accepted a pre))"
      using listener_loop_exact [OF ends init] by (auto simp: listener_init_def)
    have "ev = Interrupt \<or> ev = Timeout \<and> accepted a pre \<noteq> []" using p(3,4) by (auto simp: loop_stops_def)
    moreover have "ls_total_bytes st = sum_list (map row_pkt_size (ls_results st))" by (simp only: p(5,6) rows_of_sizes)
    moreover have "length (ls_results st) = length (accepted a pre)" by (simp add: p(5))
    ultimately show ?thesis
      using p(1,2) by (intro exI [of _ pre] exI [of _ ev] exI [of _ post]) (simp add: p(5) rows_of_values)
  qed
qed

lemma listener_loop_records_witness:
  "\<exists>st. listener_loop \<lparr>la_interval = Num 1, la_record_tos = True, la_kernel_ts = True, la_little = True, la_quiet = True\<rparr> 1000000 listener_init
      [Timeout, Datagram (be_bytes 4 7 @ be_bytes 8 1000) [(IPPROTO_IP, IP_TOS, [184])] 2000, Timeout] = Some (Inr st)
    \<and> ls_total_bytes st = sum_list (map row_pkt_size (ls_results st))"
proof -
  let ?a = "\<lparr>la_interval = Num 1, la_record_tos = True, la_kernel_ts = True, la_little = True, la_quiet = True\<rparr>"
  have "\<exists>st. listener_loop ?a 1000000 listener_init
      [Timeout, Datagram (be_bytes 4 7 @ be_bytes 8 1000) [(IPPROTO_IP, IP_TOS, [184])] 2000, Timeout] = Some (Inr st)"
    by (simp add: listener_init_def recv_one_def PKT_HEADER_SIZE_def Let_def)
  then show ?thesis using listener_loop_records by blast
qed

text \<open>
  Property C21. The closing report never fails on received rows (up to $2^{46}$ of them): no
  division by zero, and every list index is in range. The loss percentage lies between 0 and 100.
  The printed latencies are values of rows with p50 at most p99 at most
  the maximum, which no row exceeds; jitter is reported exactly when there are two or more rows.
\<close>

theorem listener_report_total:
  assumes "rows \<noteq> []" and "int (length rows) \<le> 2 ^ 46"
    and "list_all (\<lambda>r. 0 \<le> row_seq r \<and> \<not> is_nan (row_latency_ms r) \<and> \<not> is_nan (row_jitter_us r)) rows"
  shows "\<exists>rep p50 p99 mx. report_rows a total_bytes rows = Inr rep \<and> rep_latency rep = (p50, p99, mx)
    \<and> {p50, p99, mx} \<subseteq> row_latency_ms ` set rows \<and> f_le p50 p99 \<and> f_le p99 mx
    \<and> (\<forall>r \<in> set rows. f_le (row_latency_ms r) mx)
    \<and> (rep_jitter rep = None \<longleftrightarrow> length rows = 1) \<and> rep_loss rep = listener_loss (map row_seq rows)
    \<and> f_le (Num 0) (rep_loss_pct rep) \<and> f_le (rep_loss_pct rep) (Num 100)"
  using assms by (rule report_rows_total)

lemma listener_report_total_witness:
  "\<exists>rep. report_rows \<lparr>la_interval = Num 1, la_record_tos = False, la_kernel_ts = False, la_little = True, la_quiet = True\<rparr> 128
      [\<lparr>row_seq = 7, row_send_ns = 1, row_recv_ns = 500001, row_latency_ms = Num (1 / 2), row_jitter_us = Num 0,
        row_pkt_size = 128, row_tos = None, row_recv_kernel_ns = None\<rparr>] = Inr rep \<and> rep_jitter rep = None"
  using listener_report_total [of "[\<lparr>row_seq = 7, row_send_ns = 1, row_recv_ns = 500001, row_latency_ms = Num (1 / 2), row_jitter_us = Num 0,
        row_pkt_size = 128, row_tos = None, row_recv_kernel_ns = None\<rparr>]"
      "\<lparr>la_interval = Num 1, la_record_tos = False, la_kernel_ts = False, la_little = True, la_quiet = True\<rparr>" 128] by auto

text \<open>
  Property C22. The listener's own loss counters (a loop over the rows) and the analysis's
  \<open>loss_summary\<close> (array operations over the CSV column) agree on expected, lost, duplicated
  and reordered packets.
\<close>

theorem listener_loss_agrees:
  assumes "numpy_int np" and "seqs \<noteq> []" and "list_all (\<lambda>s. 0 \<le> s) seqs"
  shows "dict_get (loss_summary np seqs) ''expected'' = Some (f_of_int (lr_expected (listener_loss seqs)))
    \<and> dict_get (loss_summary np seqs) ''lost'' = Some (f_of_int (lr_loss (listener_loss seqs)))
    \<and> dict_get (loss_summary np seqs) ''duplicates'' = Some (f_of_int (lr_dups (listener_loss seqs)))
    \<and> dict_get (loss_summary np seqs) ''reorders'' = Some (f_of_int (int (lr_reorders (listener_loss seqs))))"
  by (simp add: loss_summary_values [OF assms(1,2)] listener_loss_def Let_def count_reorders_late [OF assms(3)])

lemma listener_loss_agrees_witness:
  "dict_get (loss_summary np_ref [0, 3, 1, 3]) ''reorders'' = Some (f_of_int (int (lr_reorders (listener_loss [0, 3, 1, 3]))))"
  using listener_loss_agrees [OF np_ref.numpy_int_axioms, of "[0, 3, 1, 3]"] by simp

end
