(* ===== verification/Talker.thy ===== *)
theory Talker
  imports Listener
begin

text \<open>
  \<open>workload/talker.py\<close>: the paced sender of the time-sensitive flow. The clocks and the
  socket are what they return: per packet, the readings of the monotonic clock while the program
  waits, the wall-clock time stamped into the packet, and whether \<open>sendto\<close> succeeded; or an
  interrupt while it waits. The lemmas show that no packet leaves before its schedule, that the
  datagrams carry consecutive sequence numbers and decode to what was packed, that the loop ends
  when the clock advances, and when the closing statistics and the pacing warning are produced.
\<close>

section \<open>Definitions\<close>

record talker_args =
  ta_interval :: f64
  ta_count :: int
  ta_size :: int
  ta_quiet :: bool

definition interval_s :: "talker_args \<Rightarrow> f64" where
  "interval_s a = f_div (ta_interval a) (Num 1000)"

definition interval_ns :: "talker_args \<Rightarrow> int res" where
  "interval_ns a = int_of_f64 (f_mul (interval_s a) (Num 1000000000))"

definition padding :: "talker_args \<Rightarrow> bytes" where
  "padding a = replicate (nat (max (ta_size a - int PKT_HEADER_SIZE) 0)) 0"

text \<open>
  Waiting for \<open>scheduled_ns\<close>, given the successive clock readings: the reading that ends the
  wait and the sleeps asked for; \<open>None\<close> when the readings never reach the schedule.
\<close>

fun pace :: "int \<Rightarrow> int list \<Rightarrow> (int \<times> f64 list) option" where
  "pace scheduled_ns [] = None"
| "pace scheduled_ns (now # later) =
     (if now < scheduled_ns
      then map_option (\<lambda>(n, sleeps).
             (n, if 500000 < scheduled_ns - now
                 then f_div (f_of_int (scheduled_ns - now - 200000)) (Num 1000000000) # sleeps else sleeps))
             (pace scheduled_ns later)
      else Some (now, []))"

definition pack_header :: "int \<Rightarrow> int \<Rightarrow> bytes res" where
  "pack_header seq ns =
     res_bind (pack_unsigned 4 seq) (\<lambda>s. res_bind (pack_unsigned 8 ns) (\<lambda>n. Inr (be_bytes 4 s @ be_bytes 8 n)))"

text \<open>
  What the environment does for one packet: clock readings while waiting, wall time,
  \<open>sendto\<close> outcome, and the reading a progress line is computed from.
\<close>

datatype tick = Tick "int list" int bool int | Break

record talker_state =
  tk_sent :: nat
  tk_errors :: nat
  tk_drifts_us :: "f64 list"
  tk_wire :: "bytes list"
  tk_log :: "string list"
  tk_progress :: "(int \<times> f64) list"

definition talker_init :: talker_state where
  "talker_init = \<lparr>tk_sent = 0, tk_errors = 0, tk_drifts_us = [], tk_wire = [],
     tk_log = [''seq,send_time_ns,scheduled_time_ns,drift_us''], tk_progress = []\<rparr>"

definition log_line :: "int \<Rightarrow> int \<Rightarrow> int \<Rightarrow> f64 \<Rightarrow> string" where
  "log_line seq send_time_ns scheduled drift =
     int_str seq @ '','' @ int_str send_time_ns @ '','' @ int_str scheduled @ '','' @ fmt_fixed 2 drift"

definition talker_send ::
  "talker_args \<Rightarrow> int \<Rightarrow> int \<Rightarrow> int \<Rightarrow> talker_state \<Rightarrow> int \<Rightarrow> int \<Rightarrow> int \<Rightarrow> bool \<Rightarrow> talker_state res" where
  "talker_send a iv start_mono start_wall st seq now send_time_ns ok =
     (let drift = f_div (f_of_int (now - (start_mono + seq * iv))) (Num 1000)
      in res_bind (pack_header seq send_time_ns) (\<lambda>hdr.
         Inr (st\<lparr>tk_drifts_us := tk_drifts_us st @ [drift],
                 tk_wire := (if ok then tk_wire st @ [hdr @ padding a] else tk_wire st),
                 tk_sent := (if ok then tk_sent st + 1 else tk_sent st),
                 tk_errors := (if ok then tk_errors st else tk_errors st + 1),
                 tk_log := tk_log st @ [log_line seq send_time_ns (start_wall + seq * iv) drift]\<rparr>)))"

text \<open>The progress line of every thousandth packet: packets handled and packets per second.\<close>

definition talker_progress :: "talker_args \<Rightarrow> int \<Rightarrow> int \<Rightarrow> int \<Rightarrow> (int \<times> f64) list res" where
  "talker_progress a start_mono seq later_ns =
     (if \<not> ta_quiet a \<and> (seq + 1) mod 1000 = 0
      then (let elapsed = f_div (f_of_int (later_ns - start_mono)) (Num 1000000000)
            in res_bind (py_div (f_of_int (seq + 1)) elapsed) (\<lambda>rate. Inr [(seq + 1, rate)]))
      else Inr [])"

definition talker_turn ::
  "talker_args \<Rightarrow> int \<Rightarrow> int \<Rightarrow> int \<Rightarrow> talker_state \<Rightarrow> int \<Rightarrow> int \<Rightarrow> int \<Rightarrow> bool \<Rightarrow> int \<Rightarrow> talker_state res" where
  "talker_turn a iv start_mono start_wall st seq now send_time_ns ok later_ns =
     res_bind (talker_send a iv start_mono start_wall st seq now send_time_ns ok) (\<lambda>st'.
     res_bind (talker_progress a start_mono seq later_ns) (\<lambda>lines. Inr (st'\<lparr>tk_progress := tk_progress st' @ lines\<rparr>)))"

text \<open>
  The loop over \<open>range(count)\<close>, from \<open>seq\<close> on. \<open>None\<close>: the program is still waiting when
  the description of its environment ends.
\<close>

fun talker_loop ::
  "talker_args \<Rightarrow> int \<Rightarrow> int \<Rightarrow> int \<Rightarrow> talker_state \<Rightarrow> int \<Rightarrow> tick list \<Rightarrow> talker_state res option" where
  "talker_loop a iv start_mono start_wall st seq ticks =
     (if ta_count a \<le> seq then Some (Inr st)
      else case ticks of
          [] \<Rightarrow> None
        | Break # _ \<Rightarrow> Some (Inr st)
        | Tick readings wall ok later_ns # rest \<Rightarrow>
            (case pace (start_mono + seq * iv) readings of
               None \<Rightarrow> None
             | Some (now, _) \<Rightarrow>
                 (case talker_turn a iv start_mono start_wall st seq now wall ok later_ns of
                    Inl e \<Rightarrow> Some (Inl e)
                  | Inr st' \<Rightarrow> talker_loop a iv start_mono start_wall st' (seq + 1) rest)))"

declare talker_loop.simps [simp del]

record talker_report =
  tr_elapsed :: f64
  tr_achieved :: f64
  tr_target_rate :: f64
  tr_drift :: "(f64 \<times> f64 \<times> f64) option"
  tr_stalls :: nat
  tr_warning :: bool

definition talker_finish :: "talker_args \<Rightarrow> talker_state \<Rightarrow> int \<Rightarrow> int \<Rightarrow> talker_report res" where
  "talker_finish a st start_mono end_mono =
     (let e = f_div (f_of_int (end_mono - start_mono)) (Num 1000000000);
          elapsed = (if f_lt e (f_lit (1 / 1000000000)) then f_lit (1 / 1000000000) else e);
          d = f_sort (tk_drifts_us st)
      in res_bind (py_div (f_of_int (int (tk_sent st))) elapsed) (\<lambda>achieved.
         res_bind (py_div (Num 1) (interval_s a)) (\<lambda>target_rate.
         res_bind (if d = [] then Inr None else res_bind (order_stats d) (\<lambda>s. Inr (Some s))) (\<lambda>drift.
         Inr \<lparr>tr_elapsed = elapsed, tr_achieved = achieved, tr_target_rate = target_rate, tr_drift = drift,
              tr_stalls = length (filter (\<lambda>v. f_lt (Num 10000) v) (tk_drifts_us st)),
              tr_warning = (int (tk_sent st) < ta_count a \<or> f_lt achieved (f_mul (f_lit (95 / 100)) target_rate))\<rparr>))))"

section \<open>Pacing\<close>

lemma pace_not_early: "pace s rs = Some (now, sl) \<Longrightarrow> s \<le> now \<and> now \<in> set rs"
  by (induction s rs arbitrary: sl rule: pace.induct) (auto split: if_splits)

lemma pace_reaches: "(\<exists>r \<in> set rs. s \<le> r) \<Longrightarrow> \<exists>now sl. pace s rs = Some (now, sl)"
proof (induction rs)
  case (Cons r rs)
  then show ?case by (cases "r < s") auto
qed simp

text \<open>Each sleep asks for at least 0.3 ms and at most the remaining time less 0.2 ms.\<close>

lemma pace_sleeps:
  assumes "pace s rs = Some (now, sl)" and "x \<in> set sl"
  shows "\<exists>r \<in> set rs. 500000 < s - r \<and> x = f_div (f_of_int (s - r - 200000)) (Num 1000000000)"
  using assms
proof (induction s rs arbitrary: sl rule: pace.induct)
  case (2 s r rs)
  then show ?case by (auto split: if_splits)
qed simp

section \<open>The packets\<close>

lemma pack_header_Inr:
  "pack_header seq ns = Inr h \<longleftrightarrow> 0 \<le> seq \<and> seq < 2 ^ 32 \<and> 0 \<le> ns \<and> ns < 2 ^ 64 \<and> h = be_bytes 4 seq @ be_bytes 8 ns"
  by (auto simp: pack_header_def res_bind_Inr_conv pack_unsigned_def split: if_splits)

lemma unpack_pack_header:
  assumes "pack_header seq ns = Inr h"
  shows "unpack_header (h @ pad) = (seq, ns)" and "length h = PKT_HEADER_SIZE"
  using assms by (auto simp: pack_header_Inr unpack_header_def be_int_be_bytes PKT_HEADER_SIZE_def)

lemma length_padding: "PKT_HEADER_SIZE + length (padding a) = nat (max (ta_size a) (int PKT_HEADER_SIZE))"
  by (simp add: padding_def PKT_HEADER_SIZE_def)

text \<open>The stamps of the packets that \<open>sendto\<close> accepted, in order.\<close>

fun ok_stamps :: "int \<Rightarrow> tick list \<Rightarrow> (int \<times> int) list" where
  "ok_stamps seq [] = []"
| "ok_stamps seq (Tick _ wall ok _ # ticks) = (if ok then [(seq, wall)] else []) @ ok_stamps (seq + 1) ticks"
| "ok_stamps seq (Break # ticks) = []"

text \<open>What one run of the loop adds to the state after \<open>n\<close> packets from \<open>seq\<close> on.\<close>

definition talker_added ::
  "talker_args \<Rightarrow> int \<Rightarrow> int \<Rightarrow> int \<Rightarrow> tick list \<Rightarrow> nat \<Rightarrow> talker_state \<Rightarrow> talker_state \<Rightarrow> bool" where
  "talker_added a iv sm seq ticks n st st' \<longleftrightarrow>
     (\<exists>ws ds. tk_wire st' = tk_wire st @ ws \<and> tk_drifts_us st' = tk_drifts_us st @ ds
      \<and> map unpack_header ws = ok_stamps seq (take n ticks)
      \<and> (\<forall>w \<in> set ws. length w = nat (max (ta_size a) (int PKT_HEADER_SIZE)))
      \<and> tk_sent st' = tk_sent st + length ws \<and> tk_sent st' + tk_errors st' = tk_sent st + tk_errors st + n
      \<and> length (tk_log st') = length (tk_log st) + n
      \<and> length ds = n \<and> (\<forall>i < n. \<exists>readings wall ok later_ns now. ticks ! i = Tick readings wall ok later_ns \<and> now \<in> set readings
           \<and> sm + (seq + int i) * iv \<le> now
           \<and> ds ! i = f_div (f_of_int (now - (sm + (seq + int i) * iv))) (Num 1000)))"

lemma talker_added_0: "talker_added a iv sm seq ticks 0 st st"
  by (simp add: talker_added_def)

lemma talker_added_Suc:
  assumes p: "pace (sm + seq * iv) rs = Some (now, sl)"
    and s: "talker_turn a iv sm sw st seq now wall ok later_ns = Inr st1"
    and r: "talker_added a iv sm (seq + 1) ticks n st1 st'"
  shows "talker_added a iv sm seq (Tick rs wall ok later_ns # ticks) (Suc n) st st'"
proof -
  obtain h st0 ls where h: "pack_header seq wall = Inr h" and st0: "talker_send a iv sm sw st seq now wall ok = Inr st0"
      and s: "st1 = st0\<lparr>tk_progress := ls\<rparr>"
    using s by (auto simp: talker_turn_def talker_send_def Let_def res_bind_Inr_conv)
  let ?d = "f_div (f_of_int (now - (sm + seq * iv))) (Num 1000)" and ?w = "if ok then [h @ padding a] else []"
  have st1: "tk_wire st1 = tk_wire st @ ?w" "tk_drifts_us st1 = tk_drifts_us st @ [?d]"
    "tk_sent st1 = tk_sent st + length ?w" "tk_sent st1 + tk_errors st1 = tk_sent st + tk_errors st + 1"
    "length (tk_log st1) = length (tk_log st) + 1"
    using st0 s h by (auto simp: talker_send_def Let_def)
  from r obtain ws ds where r: "tk_wire st' = tk_wire st1 @ ws" "tk_drifts_us st' = tk_drifts_us st1 @ ds"
      "map unpack_header ws = ok_stamps (seq + 1) (take n ticks)"
      "\<forall>w \<in> set ws. length w = nat (max (ta_size a) (int PKT_HEADER_SIZE))"
      "tk_sent st' = tk_sent st1 + length ws" "tk_sent st' + tk_errors st' = tk_sent st1 + tk_errors st1 + n"
      "length (tk_log st') = length (tk_log st1) + n" "length ds = n"
      "\<forall>i < n. \<exists>readings wall ok later_ns now. ticks ! i = Tick readings wall ok later_ns \<and> now \<in> set readings
         \<and> sm + (seq + 1 + int i) * iv \<le> now \<and> ds ! i = f_div (f_of_int (now - (sm + (seq + 1 + int i) * iv))) (Num 1000)"
    unfolding talker_added_def by blast
  have up: "map unpack_header ?w = (if ok then [(seq, wall)] else [])" "\<forall>w \<in> set ?w. length w = nat (max (ta_size a) (int PKT_HEADER_SIZE))"
    using unpack_pack_header [OF h] length_padding [of a] by simp_all
  have nth: "\<exists>readings wall' ok' later_ns' now'. (Tick rs wall ok later_ns # ticks) ! i = Tick readings wall' ok' later_ns' \<and> now' \<in> set readings
      \<and> sm + (seq + int i) * iv \<le> now' \<and> (?d # ds) ! i = f_div (f_of_int (now' - (sm + (seq + int i) * iv))) (Num 1000)"
    if "i < Suc n" for i
  proof (cases i)
    case 0
    then show ?thesis using pace_not_early [OF p] by auto
  next
    case (Suc j)
    then show ?thesis using r(9) [rule_format, of j] that by (simp add: algebra_simps)
  qed
  show ?thesis unfolding talker_added_def
    by (intro exI [of _ "?w @ ws"] exI [of _ "?d # ds"] conjI allI impI)
      (use st1 r up nth in \<open>auto simp: ball_Un\<close>)
qed

lemma talker_loop_added:
  assumes "talker_loop a iv sm sw st seq ticks = Some (Inr st')" and "seq \<le> ta_count a"
  shows "\<exists>n. n \<le> length ticks \<and> (int n = ta_count a - seq \<or> int n < ta_count a - seq \<and> n < length ticks \<and> ticks ! n = Break)
    \<and> talker_added a iv sm seq ticks n st st'"
  using assms
proof (induction ticks arbitrary: st seq)
  case Nil
  then show ?case by (intro exI [of _ 0]) (auto simp: talker_loop.simps [of a iv sm sw st seq] talker_added_0 split: if_splits)
next
  case (Cons t ticks)
  show ?case
  proof (cases "ta_count a \<le> seq \<or> t = Break")
    case True
    then have "st' = st" using Cons.prems by (auto simp: talker_loop.simps [of a iv sm sw st seq] split: if_splits)
    then show ?thesis using True Cons.prems(2) by (intro exI [of _ 0]) (auto simp: talker_added_0)
  next
    case False
    then obtain rs wall ok later_ns where t: "t = Tick rs wall ok later_ns" by (cases t) auto
    from Cons.prems(1) False t obtain now sl st1 where
      p: "pace (sm + seq * iv) rs = Some (now, sl)" "talker_turn a iv sm sw st seq now wall ok later_ns = Inr st1"
      and l: "talker_loop a iv sm sw st1 (seq + 1) ticks = Some (Inr st')"
      by (auto simp: talker_loop.simps [of a iv sm sw st seq] split: option.splits sum.splits)
    from Cons.IH [OF l] False obtain n where n: "n \<le> length ticks"
        "int n = ta_count a - (seq + 1) \<or> int n < ta_count a - (seq + 1) \<and> n < length ticks \<and> ticks ! n = Break"
        "talker_added a iv sm (seq + 1) ticks n st1 st'" by auto
    from talker_added_Suc [OF p n(3)] n(1,2) t show ?thesis by (intro exI [of _ "Suc n"]) auto
  qed
qed

text \<open>
  The clock of every remaining packet reaches its schedule, its stamp fits the header, and the
  clock has advanced by the time a progress line is printed.
\<close>

definition tick_ready :: "talker_args \<Rightarrow> int \<Rightarrow> int \<Rightarrow> int \<Rightarrow> tick \<Rightarrow> bool" where
  "tick_ready a sm iv seq t = (case t of
      Break \<Rightarrow> False
    | Tick rs wall ok later_ns \<Rightarrow> list_ex (\<lambda>r. sm + seq * iv \<le> r) rs \<and> 0 \<le> wall \<and> wall < 2 ^ 64
        \<and> (ta_quiet a \<or> (seq + 1) mod 1000 \<noteq> 0 \<or> sm < later_ns))"

text \<open>A positive number of nanoseconds is a positive number of seconds, however small.\<close>

lemma ns_elapsed_nonzero:
  assumes "0 < n"
  shows "\<not> f_eq (f_div (f_of_int n) (Num 1000000000)) (Num 0)"
proof (cases "is_finite (f_of_int n)")
  case False
  then obtain b where "f_of_int n = Inf b" by (cases "f_of_int n") (auto simp: f_of_int_def fpack_def Let_def split: if_splits)
  then show ?thesis by (cases b) (simp_all add: f_div_def f_eq_def f_le_def f_lt_def)
next
  case True
  have one: "(1::rat) \<le> rnd (of_int n)" using rnd_ge_int [of 1 "of_int n"] assms by simp
  then have v: "f_of_int n = Num (rnd (of_int n))" using True by (auto simp: f_of_int_def fpack_def Let_def split: if_splits)
  have "(0::rat) < rnd (1 / 1000000000)" by code_simp
  also have "\<dots> \<le> rnd (rnd (of_int n) / 1000000000)" using one by (intro rnd_mono) simp
  finally show ?thesis by (auto simp: v f_div_def Let_def fpack_def f_eq_def f_le_def f_lt_def)
qed

lemma talker_progress_total:
  assumes "ta_quiet a \<or> (seq + 1) mod 1000 \<noteq> 0 \<or> sm < later_ns"
  shows "\<exists>ls. talker_progress a sm seq later_ns = Inr ls"
proof (cases "ta_quiet a \<or> (seq + 1) mod 1000 \<noteq> 0")
  case False
  let ?e = "f_div (f_of_int (later_ns - sm)) (Num 1000000000)"
  have "\<not> f_eq ?e (Num 0)" using assms False by (intro ns_elapsed_nonzero) simp
  then show ?thesis using False by (simp add: talker_progress_def py_div_def Let_def)
qed (auto simp: talker_progress_def)

lemma talker_loop_returns:
  assumes "\<forall>i < nat (ta_count a - seq). i < length ticks \<and> tick_ready a sm iv (seq + int i) (ticks ! i)"
    and "0 \<le> seq" and "ta_count a \<le> 2 ^ 32"
  shows "\<exists>st'. talker_loop a iv sm sw st seq ticks = Some (Inr st')"
  using assms
proof (induction ticks arbitrary: st seq)
  case Nil
  then have "ta_count a \<le> seq" by force
  then show ?case by (simp add: talker_loop.simps [of a iv sm sw st seq])
next
  case (Cons t ticks)
  show ?case
  proof (cases "ta_count a \<le> seq")
    case True
    then show ?thesis by (simp add: talker_loop.simps [of a iv sm sw st seq])
  next
    case False
    then have "tick_ready a sm iv seq t" using Cons.prems(1) [rule_format, of 0] by simp
    then obtain rs wall ok later_ns where t: "t = Tick rs wall ok later_ns" and w: "0 \<le> wall" "wall < 2 ^ 64"
      and m: "ta_quiet a \<or> (seq + 1) mod 1000 \<noteq> 0 \<or> sm < later_ns" and r: "\<exists>r \<in> set rs. sm + seq * iv \<le> r" by (auto simp: tick_ready_def list_ex_iff split: tick.splits)
    obtain now sl where p: "pace (sm + seq * iv) rs = Some (now, sl)" using pace_reaches [OF r] by blast
    have "pack_header seq wall = Inr (be_bytes 4 seq @ be_bytes 8 wall)"
      using w Cons.prems(2,3) False by (simp add: pack_header_Inr)
    then obtain st1 where st1: "talker_turn a iv sm sw st seq now wall ok later_ns = Inr st1"
      using talker_progress_total [OF m] by (auto simp: talker_turn_def talker_send_def Let_def)
    have "\<forall>i < nat (ta_count a - (seq + 1)). i < length ticks \<and> tick_ready a sm iv (seq + 1 + int i) (ticks ! i)"
    proof (intro allI impI)
      fix i assume "i < nat (ta_count a - (seq + 1))"
      then show "i < length ticks \<and> tick_ready a sm iv (seq + 1 + int i) (ticks ! i)"
        using Cons.prems(1) [rule_format, of "Suc i"] by (simp add: algebra_simps)
    qed
    from Cons.IH [OF this] Cons.prems(2,3) obtain st' where
      "talker_loop a iv sm sw st1 (seq + 1) ticks = Some (Inr st')" by auto
    then show ?thesis using False t p st1 by (simp add: talker_loop.simps [of a iv sm sw st seq])
  qed
qed

text \<open>With a clock that keeps up with the schedule, every packet is attempted.\<close>

lemma talker_loop_completes:
  assumes "0 \<le> ta_count a" and "ta_count a \<le> 2 ^ 32" and "ta_count a \<le> int (length ticks)"
    and "\<forall>i < nat (ta_count a). tick_ready a start_mono iv (int i) (ticks ! i)"
  shows "\<exists>st. talker_loop a iv start_mono start_wall talker_init 0 ticks = Some (Inr st)
    \<and> int (tk_sent st + tk_errors st) = ta_count a"
proof -
  have r: "\<forall>i < nat (ta_count a - 0). i < length ticks \<and> tick_ready a start_mono iv (0 + int i) (ticks ! i)"
    using assms by auto
  obtain st where st: "talker_loop a iv start_mono start_wall talker_init 0 ticks = Some (Inr st)"
    using talker_loop_returns [OF r _ assms(2)] by auto
  obtain n where n: "n \<le> length ticks" "int n = ta_count a \<or> int n < ta_count a \<and> n < length ticks \<and> ticks ! n = Break"
      "talker_added a iv start_mono 0 ticks n talker_init st"
    using talker_loop_added [OF st assms(1)] by auto
  have "int n = ta_count a"
    using n(2) assms(4) [rule_format, of n] by (auto simp: tick_ready_def zless_nat_eq_int_zless)
  moreover have "tk_sent st + tk_errors st = n" using n(3) by (auto simp: talker_added_def talker_init_def)
  ultimately show ?thesis using st by auto
qed

section \<open>The closing statistics\<close>

lemma talker_finish_cases:
  assumes "no_nan (tk_drifts_us st)" and "int (length (tk_drifts_us st)) \<le> 2 ^ 46"
  shows "(f_eq (interval_s a) (Num 0) \<longrightarrow> (\<exists>msg. talker_finish a st start_mono end_mono = Inl (ZeroDivisionError msg)))
    \<and> (\<not> f_eq (interval_s a) (Num 0) \<longrightarrow> (\<exists>rep. talker_finish a st start_mono end_mono = Inr rep
         \<and> f_le (f_lit (1 / 1000000000)) (tr_elapsed rep)
         \<and> (tr_drift rep = None \<longleftrightarrow> tk_drifts_us st = [])
         \<and> (int (tk_sent st) < ta_count a \<longrightarrow> tr_warning rep)))"
proof -
  let ?d = "f_sort (tk_drifts_us st)"
  note ne = clamp_elapsed [of "end_mono - start_mono"]
  obtain s where s: "(if ?d = [] then Inr None else res_bind (order_stats ?d) (\<lambda>s. Inr (Some s))) = Inr s"
      "s = None \<longleftrightarrow> tk_drifts_us st = []"
  proof (cases "?d = []")
    case True
    then show ?thesis using that [of None] by (simp add: f_sort_Nil)
  next
    case False
    then obtain x where "order_stats ?d = Inr x"
      using order_stats_f_sort [OF _ assms(2,1)] by (auto simp: f_sort_Nil)
    then show ?thesis using that [of "Some x"] False by (simp add: f_sort_Nil)
  qed
  show ?thesis using ne s by (auto simp: talker_finish_def Let_def py_div_def simp del: f_sort_Nil)
qed

section \<open>Properties\<close>

text \<open>
  Property C23. What a finished send loop did: it handled \<open>n\<close> packets, all of
  \<open>count\<close> unless interrupted; packet \<open>i\<close> was not sent before its scheduled time
  \<open>start + i * interval\<close>, and its recorded drift is the (non-negative) delay; every datagram
  is the requested size (at least the header) and the datagrams decode, in order, to the sequence
  numbers and time stamps of the packets that \<open>sendto\<close> accepted; sent and failed packets add
  up to \<open>n\<close>.
\<close>

theorem talker_paced_sequence:
  assumes "talker_loop a iv start_mono start_wall talker_init 0 ticks = Some (Inr st)" and "0 \<le> ta_count a"
  shows "\<exists>n \<le> length ticks. (int n = ta_count a \<or> int n < ta_count a \<and> n < length ticks \<and> ticks ! n = Break)
    \<and> tk_sent st + tk_errors st = n \<and> length (tk_wire st) = tk_sent st
    \<and> map unpack_header (tk_wire st) = ok_stamps 0 (take n ticks)
    \<and> (\<forall>w \<in> set (tk_wire st). length w = nat (max (ta_size a) (int PKT_HEADER_SIZE)))
    \<and> length (tk_drifts_us st) = n
    \<and> (\<forall>i < n. \<exists>readings wall ok later_ns now. ticks ! i = Tick readings wall ok later_ns \<and> now \<in> set readings
         \<and> start_mono + int i * iv \<le> now
         \<and> tk_drifts_us st ! i = f_div (f_of_int (now - (start_mono + int i * iv))) (Num 1000)
         \<and> f_le (Num 0) (tk_drifts_us st ! i))"
proof -
  obtain n where n: "n \<le> length ticks"
      "int n = ta_count a \<or> int n < ta_count a \<and> n < length ticks \<and> ticks ! n = Break"
      "talker_added a iv start_mono 0 ticks n talker_init st"
    using talker_loop_added [OF assms] by auto
  have nn: "f_le (Num 0) (f_div (f_of_int k) (Num 1000))" if "0 \<le> k" for k
    using that fpack_sign(1) [of "of_int k" False] by (intro f_sign_nonneg) (simp_all add: f_of_int_def)
  show ?thesis
  proof (intro exI [of _ n] conjI n(1,2))
    show "\<forall>i < n. \<exists>readings wall ok later_ns now. ticks ! i = Tick readings wall ok later_ns \<and> now \<in> set readings
         \<and> start_mono + int i * iv \<le> now
         \<and> tk_drifts_us st ! i = f_div (f_of_int (now - (start_mono + int i * iv))) (Num 1000)
         \<and> f_le (Num 0) (tk_drifts_us st ! i)"
    proof (intro allI impI)
      fix i assume "i < n"
      with n(3) obtain readings wall ok later_ns now where r: "ticks ! i = Tick readings wall ok later_ns" "now \<in> set readings"
          "start_mono + int i * iv \<le> now"
          "tk_drifts_us st ! i = f_div (f_of_int (now - (start_mono + int i * iv))) (Num 1000)"
        by (auto simp: talker_added_def talker_init_def)
      then have "f_le (Num 0) (tk_drifts_us st ! i)" using nn [of "now - (start_mono + int i * iv)"] by simp
      with r show "\<exists>readings wall ok later_ns now. ticks ! i = Tick readings wall ok later_ns \<and> now \<in> set readings
         \<and> start_mono + int i * iv \<le> now
         \<and> tk_drifts_us st ! i = f_div (f_of_int (now - (start_mono + int i * iv))) (Num 1000)
         \<and> f_le (Num 0) (tk_drifts_us st ! i)" by blast
    qed
  qed (use n(3) in \<open>auto simp: talker_added_def talker_init_def\<close>)
qed

lemma talker_paced_sequence_witness:
  "\<exists>st. talker_loop \<lparr>ta_interval = Num 1, ta_count = 2, ta_size = 16, ta_quiet = True\<rparr> 1000000 5 100 talker_init 0
      [Tick [6] 101 True 0, Tick [7, 1000008] 1102 False 0] = Some (Inr st)
    \<and> tk_sent st + tk_errors st = 2 \<and> map unpack_header (tk_wire st) = [(0, 101)]"
proof -
  let ?a = "\<lparr>ta_interval = Num 1, ta_count = 2, ta_size = 16, ta_quiet = True\<rparr>" and ?t = "[Tick [6] 101 True 0, Tick [7, 1000008] 1102 False 0]"
  have "\<exists>st. talker_loop ?a 1000000 5 100 talker_init 0 ?t = Some (Inr st)"
    by (rule talker_loop_returns) (auto simp: tick_ready_def less_Suc_eq numeral_2_eq_2)
  then obtain st where st: "talker_loop ?a 1000000 5 100 talker_init 0 ?t = Some (Inr st)" by blast
  from talker_paced_sequence [OF st] obtain n where n: "n \<le> length ?t"
      "int n = 2 \<or> int n < 2 \<and> n < length ?t \<and> ?t ! n = Break"
      "tk_sent st + tk_errors st = n" "map unpack_header (tk_wire st) = ok_stamps 0 (take n ?t)" by auto
  then have "n = 2" by (auto simp: nth_Cons split: nat.splits)
  with n st show ?thesis by (intro exI [of _ st]) simp
qed

text \<open>
  Property C25. A packet whose number does not fit 32 bits (or whose stamp does not fit 64 bits)
  ends the program with an uncaught \<open>struct.error\<close>: the handler around \<open>sendto\<close>
  catches \<open>OSError\<close> only.
\<close>

theorem talker_header_overflow:
  assumes "seq < ta_count a" and "pace (start_mono + seq * iv) readings = Some (now, sl)"
    and "\<not> (0 \<le> seq \<and> seq < 2 ^ 32) \<or> \<not> (0 \<le> wall \<and> wall < 2 ^ 64)"
  shows "\<exists>msg. talker_loop a iv start_mono start_wall st seq (Tick readings wall ok later_ns # rest) = Some (Inl (StructError msg))"
proof -
  have "\<exists>msg. pack_header seq wall = Inl (StructError msg)"
    using assms(3) by (auto simp: pack_header_def pack_unsigned_def)
  then have "\<exists>msg. talker_turn a iv start_mono start_wall st seq now wall ok later_ns = Inl (StructError msg)"
    by (auto simp: talker_turn_def talker_send_def Let_def)
  then show ?thesis using assms(1,2) by (auto simp: talker_loop.simps [of a iv start_mono start_wall st seq])
qed

lemma talker_header_overflow_witness:
  "\<exists>msg. talker_loop \<lparr>ta_interval = Num 1, ta_count = 4294967297, ta_size = 128, ta_quiet = True\<rparr> 0 5 100 talker_init 4294967296
     [Tick [5] 101 True 0] = Some (Inl (StructError msg))"
  by (rule talker_header_overflow [where now = 5 and sl = "[]"]) simp_all

text \<open>
  Property C26. The closing statistics: an interval of zero makes the target rate divide by
  zero, after all packets were sent; otherwise (with at most $2^{46}$ packets) they are
  computed, every index in range.
\<close>

theorem talker_finish_total:
  assumes "no_nan (tk_drifts_us st)" and "int (length (tk_drifts_us st)) \<le> 2 ^ 46"
  shows "(f_eq (interval_s a) (Num 0) \<longrightarrow> (\<exists>msg. talker_finish a st start_mono end_mono = Inl (ZeroDivisionError msg)))
    \<and> (\<not> f_eq (interval_s a) (Num 0) \<longrightarrow> (\<exists>rep. talker_finish a st start_mono end_mono = Inr rep
         \<and> f_le (f_lit (1 / 1000000000)) (tr_elapsed rep)
         \<and> (tr_drift rep = None \<longleftrightarrow> tk_drifts_us st = [])
         \<and> (int (tk_sent st) < ta_count a \<longrightarrow> tr_warning rep)))"
  using assms by (rule talker_finish_cases)

lemma talker_finish_total_witness:
  "\<exists>msg. talker_finish \<lparr>ta_interval = Num 0, ta_count = 0, ta_size = 128, ta_quiet = True\<rparr> talker_init 0 1000 = Inl (ZeroDivisionError msg)"
proof -
  have "f_eq (interval_s \<lparr>ta_interval = Num 0, ta_count = 0, ta_size = 128, ta_quiet = True\<rparr>) (Num 0)" by code_simp
  then show ?thesis
    using talker_finish_total [of talker_init "\<lparr>ta_interval = Num 0, ta_count = 0, ta_size = 128, ta_quiet = True\<rparr>" 0 1000]
    by (simp add: talker_init_def no_nan_def)
qed

end
