(* ===== verification/Flood.thy ===== *)
theory Flood
  imports PyBytes Float64
begin

text \<open>
  \<open>workload/be_flood.py\<close>, the best-effort load that keeps the queue busy, and
  \<open>workload/udp_sink.py\<close>, which swallows it. The clock readings, the outcomes of
  \<open>sendto\<close>, the datagrams and the signals are events; the flood is a step function with its
  reachable states given inductively. The lemmas show that the flood never exceeds the offered
  rate by more than the catch-up window, when it ends and what it reports, and that the sink
  counts exactly the datagrams up to the one that ends it.
\<close>

section \<open>The flood\<close>

record flood_args =
  fa_rate_mbps :: f64
  fa_size :: int
  fa_duration :: f64

definition per_pkt_ns :: "flood_args \<Rightarrow> int res" where
  "per_pkt_ns a =
     (if f_le (fa_rate_mbps a) (Num 0) then Inr 0
      else res_bind (float_of_int (fa_size a * 8)) (\<lambda>bits.
           res_bind (py_div bits (f_mul (fa_rate_mbps a) (Num 1000000))) (\<lambda>s.
           int_of_f64 (f_mul s (Num 1000000000)))))"

definition deadline_ns :: "flood_args \<Rightarrow> int \<Rightarrow> int res" where
  "deadline_ns a t0 = res_bind (int_of_f64 (f_mul (fa_duration a) (Num 1000000000))) (\<lambda>d. Inr (t0 + d))"

text \<open>
  The loop's variables, and what it did to its environment: the sleeps it asked for and the
  clock readings at which it called \<open>sendto\<close>.
\<close>

record flood_state =
  fl_sent :: nat
  fl_errors :: nat
  fl_next_tx :: int
  fl_sleeps :: "f64 list"
  fl_tx :: "int list"

definition flood_init :: "int \<Rightarrow> flood_state" where
  "flood_init t0 = \<lparr>fl_sent = 0, fl_errors = 0, fl_next_tx = t0, fl_sleeps = [], fl_tx = []\<rparr>"

definition flood_wait :: "flood_state \<Rightarrow> int \<Rightarrow> flood_state" where
  "flood_wait st now =
     (let wait = fl_next_tx st - now
      in if 300000 < wait
         then st\<lparr>fl_sleeps := fl_sleeps st @ [f_div (f_of_int (wait - 150000)) (Num 1000000000)]\<rparr>
         else st)"

definition advance_next_tx :: "int \<Rightarrow> int \<Rightarrow> int \<Rightarrow> int" where
  "advance_next_tx per next_tx now =
     (let next_tx = next_tx + per in if 50000000 < now - next_tx then now else next_tx)"

definition flood_send :: "flood_state \<Rightarrow> int \<Rightarrow> bool \<Rightarrow> flood_state" where
  "flood_send st now ok =
     st\<lparr>fl_sent := (if ok then fl_sent st + 1 else fl_sent st),
        fl_errors := (if ok then fl_errors st else fl_errors st + 1),
        fl_tx := fl_tx st @ [now]\<rparr>"

text \<open>One turn of \<open>while True\<close> at clock reading \<open>now\<close>; \<open>None\<close> is the break.\<close>

definition flood_step :: "int \<Rightarrow> int \<Rightarrow> flood_state \<Rightarrow> int \<Rightarrow> bool \<Rightarrow> flood_state option" where
  "flood_step per deadline st now ok =
     (if deadline \<le> now then None
      else if per \<noteq> 0 \<and> now < fl_next_tx st then Some (flood_wait st now)
      else let st' = (if per \<noteq> 0 then st\<lparr>fl_next_tx := advance_next_tx per (fl_next_tx st) now\<rparr> else st)
           in Some (flood_send st' now ok))"

text \<open>The clock reading of a turn with the outcome of \<open>sendto\<close> (if called), or Ctrl-C.\<close>

datatype flood_event = Turn int bool | Interrupt

fun flood_loop :: "int \<Rightarrow> int \<Rightarrow> flood_state \<Rightarrow> flood_event list \<Rightarrow> flood_state option" where
  "flood_loop per deadline st [] = None"
| "flood_loop per deadline st (Interrupt # evs) = Some st"
| "flood_loop per deadline st (Turn now ok # evs) =
     (case flood_step per deadline st now ok of
        None \<Rightarrow> Some st
      | Some st' \<Rightarrow> flood_loop per deadline st' evs)"

record flood_stats =
  fs_sent :: nat
  fs_errors :: nat
  fs_elapsed_s :: f64
  fs_achieved_mbps :: f64
  fs_offered_mbps :: f64
  fs_size :: int

definition flood_finish :: "flood_args \<Rightarrow> flood_state \<Rightarrow> int \<Rightarrow> int \<Rightarrow> flood_stats res" where
  "flood_finish a st t0 t1 =
     res_bind (float_of_int (t1 - t0)) (\<lambda>dt.
       let e = f_div dt (Num 1000000000);
           elapsed = (if f_lt e (f_lit (1 / 1000000000)) then f_lit (1 / 1000000000) else e)
       in res_bind (float_of_int (int (fl_sent st) * fa_size a * 8)) (\<lambda>bits.
          res_bind (py_div bits elapsed) (\<lambda>bps.
          Inr \<lparr>fs_sent = fl_sent st, fs_errors = fl_errors st, fs_elapsed_s = elapsed,
               fs_achieved_mbps = f_div bps (Num 1000000), fs_offered_mbps = fa_rate_mbps a, fs_size = fa_size a\<rparr>)))"

definition flood_main :: "flood_args \<Rightarrow> int \<Rightarrow> flood_event list \<Rightarrow> int \<Rightarrow> flood_stats res option" where
  "flood_main a t0 evs t1 =
     (case per_pkt_ns a of
        Inl e \<Rightarrow> Some (Inl e)
      | Inr per \<Rightarrow> (case deadline_ns a t0 of
            Inl e \<Rightarrow> Some (Inl e)
          | Inr deadline \<Rightarrow> map_option (\<lambda>st. flood_finish a st t0 t1) (flood_loop per deadline (flood_init t0) evs)))"

section \<open>The sink\<close>

record sink_state =
  sk_count :: nat
  sk_nbytes :: nat
  sk_stop :: bool

definition sink_init :: sink_state where
  "sink_init = \<lparr>sk_count = 0, sk_nbytes = 0, sk_stop = False\<rparr>"

text \<open>
  What happens while \<open>recv\<close> blocks. A signal runs its handler and the interrupted
  \<open>recv\<close> goes on waiting (as the Python standard library retries it), so the stop flag is
  seen only after the next datagram or timeout.
\<close>

datatype sink_event = Datagram bytes | Timeout | Signal

definition sink_count :: "sink_state \<Rightarrow> bytes \<Rightarrow> sink_state" where
  "sink_count st data = st\<lparr>sk_count := sk_count st + 1, sk_nbytes := sk_nbytes st + length (take 65535 data)\<rparr>"

fun sink_loop :: "sink_state \<Rightarrow> sink_event list \<Rightarrow> sink_state option" where
  "sink_loop st [] = None"
| "sink_loop st (Signal # evs) = sink_loop (st\<lparr>sk_stop := True\<rparr>) evs"
| "sink_loop st (Timeout # evs) = (if sk_stop st then Some st else sink_loop st evs)"
| "sink_loop st (Datagram data # evs) =
     (let st' = sink_count st data in if sk_stop st' then Some st' else sink_loop st' evs)"

definition sink_main :: "sink_event list \<Rightarrow> sink_state option" where
  "sink_main = sink_loop sink_init"

section \<open>Reachable states of the flood\<close>

inductive flood_reach :: "int \<Rightarrow> int \<Rightarrow> int \<Rightarrow> flood_state \<Rightarrow> bool" for per deadline t0 where
  reach_init: "flood_reach per deadline t0 (flood_init t0)"
| reach_step: "flood_reach per deadline t0 st \<Longrightarrow> flood_step per deadline st now ok = Some st'
    \<Longrightarrow> flood_reach per deadline t0 st'"

lemma flood_loop_reach:
  "flood_loop per deadline st evs = Some st' \<Longrightarrow> flood_reach per deadline t0 st \<Longrightarrow> flood_reach per deadline t0 st'"
  by (induction per deadline st evs rule: flood_loop.induct)
    (auto split: option.splits intro: reach_step)

text \<open>
  The pacing invariant: the next slot is at least one period per packet after the start, and at
  most the catch-up window of 50 ms behind every packet, one period later for each packet since.
\<close>

definition paced :: "int \<Rightarrow> int \<Rightarrow> int list \<Rightarrow> int \<Rightarrow> bool" where
  "paced per t0 tx bound \<longleftrightarrow> t0 + int (length tx) * per \<le> bound
     \<and> (\<forall>i < length tx. tx ! i - 50000000 + int (length tx - 1 - i) * per \<le> bound)"

definition flood_inv :: "int \<Rightarrow> int \<Rightarrow> int \<Rightarrow> flood_state \<Rightarrow> bool" where
  "flood_inv per deadline t0 st \<longleftrightarrow> length (fl_tx st) = fl_sent st + fl_errors st
     \<and> (\<forall>t \<in> set (fl_tx st). t < deadline)
     \<and> paced per t0 (fl_tx st) (fl_next_tx st)
     \<and> (\<forall>j < length (fl_tx st). paced per t0 (take j (fl_tx st)) (fl_tx st ! j))"

lemma paced_mono: "paced per t0 tx b \<Longrightarrow> b \<le> b' \<Longrightarrow> paced per t0 tx b'"
  by (fastforce simp: paced_def)

lemma paced_snoc:
  assumes "paced per t0 tx b" and "b + per \<le> b'" and "now - 50000000 \<le> b'" 
  shows "paced per t0 (tx @ [now]) b'"
proof -
  have "(tx @ [now]) ! i - 50000000 + int (length (tx @ [now]) - 1 - i) * per \<le> b'" if "i < length (tx @ [now])" for i
  proof (cases "i = length tx")
    case False
    then have i: "i < length tx" using that by simp
    then have e: "int (length tx - i) = int (length tx - 1 - i) + 1" by simp
    have "tx ! i - 50000000 + int (length tx - 1 - i) * per \<le> b" using assms(1) i by (simp add: paced_def)
    then show ?thesis using i assms(2) by (simp add: nth_append e algebra_simps)
  qed (use assms in simp)
  then show ?thesis using assms(1,2) unfolding paced_def by (simp add: algebra_simps)
qed

lemma advance_next_tx_bounds:
  "next_tx + per \<le> advance_next_tx per next_tx now" "now - 50000000 \<le> advance_next_tx per next_tx now"
  by (simp_all add: advance_next_tx_def Let_def)

lemma flood_wait_unchanged [simp]:
  "fl_tx (flood_wait st now) = fl_tx st" "fl_next_tx (flood_wait st now) = fl_next_tx st"
  "fl_sent (flood_wait st now) = fl_sent st" "fl_errors (flood_wait st now) = fl_errors st"
  by (simp_all add: flood_wait_def Let_def)

lemma flood_inv_step:
  assumes "flood_inv per deadline t0 st" and "flood_step per deadline st now ok = Some st'" and "0 < per"
  shows "flood_inv per deadline t0 st'"
proof (cases "now < fl_next_tx st")
  case True
  then have "st' = flood_wait st now" using assms by (auto simp: flood_step_def split: if_splits)
  then show ?thesis using assms(1) by (simp add: flood_inv_def)
next
  case False
  let ?n = "advance_next_tx per (fl_next_tx st) now"
  have st': "st' = flood_send (st\<lparr>fl_next_tx := ?n\<rparr>) now ok" and dl: "now < deadline"
    using assms(2,3) False by (auto simp: flood_step_def Let_def split: if_splits)
  have p: "paced per t0 (fl_tx st) (fl_next_tx st)" using assms(1) by (simp add: flood_inv_def)
  have "paced per t0 (fl_tx st @ [now]) ?n"
    by (rule paced_snoc [OF p advance_next_tx_bounds])
  moreover have "paced per t0 (take j (fl_tx st @ [now])) ((fl_tx st @ [now]) ! j)" if "j < length (fl_tx st @ [now])" for j
  proof (cases "j = length (fl_tx st)")
    case True
    then show ?thesis using paced_mono [OF p, of now] False by simp
  next
    case False
    then show ?thesis using that assms(1) by (simp add: flood_inv_def nth_append)
  qed
  ultimately show ?thesis using assms(1) dl unfolding flood_inv_def st' flood_send_def by auto
qed

lemma flood_inv_reach: "flood_reach per deadline t0 st \<Longrightarrow> 0 < per \<Longrightarrow> flood_inv per deadline t0 st"
proof (induction rule: flood_reach.induct)
  case reach_init
  then show ?case by (simp add: flood_inv_def paced_def flood_init_def)
qed (blast intro: flood_inv_step)

fun turn_time :: "flood_event \<Rightarrow> int" where
  "turn_time (Turn now _) = now"
| "turn_time Interrupt = 0"

text \<open>Without pacing every turn before the end sends.\<close>

lemma flood_loop_unpaced:
  "flood_loop 0 deadline st evs = Some st' \<Longrightarrow>
    fl_tx st' = fl_tx st @ map turn_time
      (takeWhile (\<lambda>e. case e of Turn now _ \<Rightarrow> now < deadline | Interrupt \<Rightarrow> False) evs)"
  by (induction "0::int" deadline st evs rule: flood_loop.induct)
    (auto simp: flood_step_def flood_send_def split: if_splits)

lemma flood_loop_ends:
  "flood_loop per deadline st evs \<noteq> None \<longleftrightarrow>
     list_ex (\<lambda>e. case e of Turn now _ \<Rightarrow> deadline \<le> now | Interrupt \<Rightarrow> True) evs"
  by (induction per deadline st evs rule: flood_loop.induct)
    (auto simp: flood_step_def Let_def)

lemma flood_loop_accounts:
  "flood_loop per deadline st evs = Some st' \<Longrightarrow> length (fl_tx st) = fl_sent st + fl_errors st
     \<Longrightarrow> length (fl_tx st') = fl_sent st' + fl_errors st'"
proof (induction per deadline st evs rule: flood_loop.induct)
  case (3 per deadline st now ok evs)
  show ?case
  proof (cases "flood_step per deadline st now ok")
    case (Some st1)
    then have "length (fl_tx st1) = fl_sent st1 + fl_errors st1"
      using 3(3) by (auto simp: flood_step_def flood_send_def Let_def split: if_splits)
    then show ?thesis using 3 Some by simp
  qed (use 3 in simp)
qed simp_all

lemma flood_loop_sent: "flood_loop per deadline st evs = Some st' \<Longrightarrow> fl_sent st' \<le> fl_sent st + length evs"
proof (induction per deadline st evs rule: flood_loop.induct)
  case (3 per deadline st now ok evs)
  show ?case
  proof (cases "flood_step per deadline st now ok")
    case (Some st1)
    then have "fl_sent st1 \<le> fl_sent st + 1"
      by (auto simp: flood_step_def flood_send_def Let_def split: if_splits)
    then show ?thesis using 3 Some by simp
  qed (use 3 in simp)
qed simp_all

section \<open>The flood's report\<close>

text \<open>
  The elapsed time is at least a nanosecond whatever the clock says, so that the rate is computed
  without a division by zero.
\<close>

definition flood_elapsed :: "int \<Rightarrow> int \<Rightarrow> f64" where
  "flood_elapsed t0 t1 = (if t0 < t1 then f_div (f_of_int (t1 - t0)) (Num 1000000000) else f_lit (1 / 1000000000))"

lemma float_of_int_64: "\<bar>n\<bar> \<le> 2 ^ 64 \<Longrightarrow> float_of_int n = Inr (f_of_int n)"
  using f_of_int_64(1) [of n] by (cases "f_of_int n") (simp_all add: float_of_int_def)

lemma sent_bits_bound:
  assumes "0 \<le> z" and "z \<le> 65535" and "m \<le> n" and "n \<le> 2 ^ 45"
  shows "\<bar>int m * z * 8\<bar> \<le> 2 ^ 64"
proof -
  have "int m \<le> int (2 ^ 45)" using assms(3,4) by linarith
  then have "int m * z \<le> 2 ^ 45 * 65535" using assms(1,2) by (intro mult_mono) simp_all
  then have "int m * z * 8 \<le> 2 ^ 45 * 65535 * 8" by (rule mult_right_mono) simp
  also have "(2 ^ 45 * 65535 * 8 :: int) \<le> 2 ^ 64" by simp
  finally have "int m * z * 8 \<le> 2 ^ 64" .
  moreover have "0 \<le> int m * z * 8" using assms(1) by simp
  ultimately show ?thesis by (simp only: abs_of_nonneg)
qed

lemma flood_finish_value:
  assumes "\<bar>t1 - t0\<bar> \<le> 2 ^ 64" and "\<bar>int (fl_sent st) * fa_size a * 8\<bar> \<le> 2 ^ 64"
  shows "flood_finish a st t0 t1 = Inr \<lparr>fs_sent = fl_sent st, fs_errors = fl_errors st, fs_elapsed_s = flood_elapsed t0 t1,
    fs_achieved_mbps = f_div (f_div (f_of_int (int (fl_sent st) * fa_size a * 8)) (flood_elapsed t0 t1)) (Num 1000000),
    fs_offered_mbps = fa_rate_mbps a, fs_size = fa_size a\<rparr>"
proof -
  let ?e = "f_div (f_of_int (t1 - t0)) (Num 1000000000)" and ?m = "f_lit (1 / 1000000000)"
  have el: "(if f_lt ?e ?m then ?m else ?e) = flood_elapsed t0 t1"
    using clamp_elapsed_value [OF assms(1)] by (simp add: flood_elapsed_def)
  moreover have "\<not> f_eq (flood_elapsed t0 t1) (Num 0)" using clamp_elapsed(2) [of "t1 - t0"] el by simp
  ultimately show ?thesis
    unfolding flood_finish_def Let_def float_of_int_64 [OF assms(1)] float_of_int_64 [OF assms(2)]
    by (simp only: res_bind_simps py_div_def if_False Let_def)
qed

section \<open>The sink's loop\<close>

fun datagrams :: "sink_event list \<Rightarrow> bytes list" where
  "datagrams [] = []"
| "datagrams (Datagram data # evs) = data # datagrams evs"
| "datagrams (_ # evs) = datagrams evs"

definition sink_added :: "sink_state \<Rightarrow> bytes list \<Rightarrow> sink_state" where
  "sink_added st ds = st\<lparr>sk_count := sk_count st + length ds,
     sk_nbytes := sk_nbytes st + sum_list (map (\<lambda>d. min (length d) 65535) ds)\<rparr>"

lemma sink_added_count: "sink_added (sink_count st d) ds = sink_added st (d # ds)"
  by (simp add: sink_added_def sink_count_def min.commute)

lemma sk_stop_sink [simp]: "sk_stop (sink_count st d) = sk_stop st" "sk_stop (sink_added st ds) = sk_stop st"
  by (simp_all add: sink_added_def sink_count_def)

lemma sink_added_Nil [simp]: "sink_added st [] = st"
  by (simp add: sink_added_def)

lemma sink_count_eq: "sink_count st d = sink_added st [d]"
  using sink_added_count [of st d "[]"] by simp

lemma sink_loop_stopping:
  assumes "sk_stop st"
  shows "sink_loop st evs = (case dropWhile (\<lambda>e. e = Signal) evs of
     [] \<Rightarrow> None | e # _ \<Rightarrow> Some (sink_added st (datagrams [e])))"
  using assms
proof (induction evs)
  case (Cons e evs)
  have "sink_loop (st\<lparr>sk_stop := True\<rparr>) evs = sink_loop st evs" using Cons.prems by (cases st) simp
  then show ?case using Cons by (cases e) (simp_all add: Let_def sink_count_eq)
qed simp

lemma sink_loop_running:
  assumes "\<not> sk_stop st" and "Signal \<notin> set pre"
  shows "sink_loop st (pre @ evs) = sink_loop (sink_added st (datagrams pre)) evs"
  using assms
proof (induction pre arbitrary: st)
  case (Cons e pre)
  then show ?case by (cases e) (auto simp: Let_def sink_added_count)
qed simp

lemma sink_loop_unsignalled: "Signal \<notin> set evs \<Longrightarrow> \<not> sk_stop st \<Longrightarrow> sink_loop st evs = None"
  using sink_loop_running [of st evs "[]"] by simp

lemma sink_added_stop: "(sink_added st ds)\<lparr>sk_stop := True\<rparr> = sink_added (st\<lparr>sk_stop := True\<rparr>) ds"
  by (simp add: sink_added_def)

lemma sink_added_append: "sink_added (sink_added st ds) ds' = sink_added st (ds @ ds')"
  by (simp add: sink_added_def)

lemma datagrams_append: "datagrams (evs @ evs') = datagrams evs @ datagrams evs'"
  by (induction evs rule: datagrams.induct) simp_all

lemma sink_loop_signalled:
  assumes "\<not> sk_stop st" and "Signal \<notin> set pre" and "set sigs \<subseteq> {Signal}" and "e \<noteq> Signal"
  shows "sink_loop st (pre @ Signal # sigs @ e # post) = Some (sink_added (st\<lparr>sk_stop := True\<rparr>) (datagrams (pre @ [e])))"
proof -
  have "dropWhile (\<lambda>e. e = Signal) (sigs @ e # post) = e # post"
    using assms(3,4) by (induction sigs) auto
  then show ?thesis using assms
    by (simp add: sink_loop_running sink_loop_stopping sink_added_stop sink_added_append datagrams_append)
qed

section \<open>Properties\<close>

text \<open>
  Property C27. The flood never exceeds the offered rate: in every reachable state, with a
  period of \<open>per\<close> nanoseconds, the packet with index \<open>i\<close> left no earlier than \<open>i\<close>
  periods after the start, any two packets \<open>i < j\<close> are at least \<open>j - i - 1\<close> periods
  apart less the 50 ms catch-up window, none left at or after the deadline, and every attempt is
  counted as sent or as an error.
\<close>

theorem flood_rate_bound:
  assumes "flood_reach per deadline t0 st" and "0 < per"
  shows "length (fl_tx st) = fl_sent st + fl_errors st
    \<and> (\<forall>j < length (fl_tx st). t0 + int j * per \<le> fl_tx st ! j \<and> fl_tx st ! j < deadline
         \<and> (\<forall>i < j. int (j - i - 1) * per - 50000000 \<le> fl_tx st ! j - fl_tx st ! i))"
proof -
  have inv: "flood_inv per deadline t0 st" using assms by (rule flood_inv_reach)
  have "t0 + int j * per \<le> fl_tx st ! j \<and> fl_tx st ! j < deadline
      \<and> (\<forall>i < j. int (j - i - 1) * per - 50000000 \<le> fl_tx st ! j - fl_tx st ! i)" if "j < length (fl_tx st)" for j
  proof -
    have "paced per t0 (take j (fl_tx st)) (fl_tx st ! j)" "fl_tx st ! j < deadline"
      using inv that by (auto simp: flood_inv_def)
    then show ?thesis using that by (force simp: paced_def)
  qed
  then show ?thesis using inv by (simp add: flood_inv_def)
qed

lemma flood_rate_bound_witness:
  "\<exists>st. flood_reach 100 1000 0 st \<and> fl_tx st = [5]
     \<and> (\<forall>j < length (fl_tx st). 0 + int j * 100 \<le> fl_tx st ! j)"
proof -
  let ?st = "flood_send ((flood_init 0)\<lparr>fl_next_tx := 100\<rparr>) 5 True"
  have "flood_step 100 1000 (flood_init 0) 5 True = Some ?st"
    by (simp add: flood_step_def flood_init_def advance_next_tx_def)
  then have r: "flood_reach 100 1000 0 ?st" using reach_init reach_step by blast
  then show ?thesis using flood_rate_bound [OF r]
    by (intro exI [of _ ?st] conjI) (simp_all add: flood_send_def flood_init_def)
qed

text \<open>
  Property C28. With a size a datagram can have, a clock of 64 bits and at most $2^{45}$
  turns, the program ends exactly when the clock reaches the deadline or it is interrupted, and
  then it reports without failing, even when no time passed: the elapsed time is the difference
  of the two clock readings in seconds, replaced by one nanosecond when the clock did not advance,
  and the rate is the bits sent over it. The counts reported are those of a reachable state, in which
  every call of \<open>sendto\<close> was counted as sent or as an error, and without pacing (rate
  zero) every turn before the end called \<open>sendto\<close>.
\<close>

theorem flood_ends:
  assumes "per_pkt_ns a = Inr per" and "deadline_ns a t0 = Inr deadline"
    and "\<bar>t1 - t0\<bar> \<le> 2 ^ 64" and "0 \<le> fa_size a" and "fa_size a \<le> 65535" and "length evs \<le> 2 ^ 45"
  shows "(flood_main a t0 evs t1 \<noteq> None \<longleftrightarrow>
      list_ex (\<lambda>e. case e of Turn now _ \<Rightarrow> deadline \<le> now | Interrupt \<Rightarrow> True) evs)
   \<and> (\<forall>r. flood_main a t0 evs t1 = Some r \<longrightarrow> (\<exists>st elapsed.
        flood_reach per deadline t0 st \<and> length (fl_tx st) = fl_sent st + fl_errors st
        \<and> elapsed = (if t0 < t1 then f_div (f_of_int (t1 - t0)) (Num 1000000000) else f_lit (1 / 1000000000))
        \<and> r = Inr \<lparr>fs_sent = fl_sent st, fs_errors = fl_errors st, fs_elapsed_s = elapsed,
            fs_achieved_mbps = f_div (f_div (f_of_int (int (fl_sent st) * fa_size a * 8)) elapsed) (Num 1000000),
            fs_offered_mbps = fa_rate_mbps a, fs_size = fa_size a\<rparr>
        \<and> (per = 0 \<longrightarrow> fl_tx st = map turn_time
             (takeWhile (\<lambda>e. case e of Turn now _ \<Rightarrow> now < deadline | Interrupt \<Rightarrow> False) evs))))"
proof -
  have main: "flood_main a t0 evs t1 = map_option (\<lambda>st. flood_finish a st t0 t1) (flood_loop per deadline (flood_init t0) evs)"
    by (simp add: flood_main_def assms(1,2))
  have "\<exists>st elapsed. flood_reach per deadline t0 st \<and> length (fl_tx st) = fl_sent st + fl_errors st
        \<and> elapsed = (if t0 < t1 then f_div (f_of_int (t1 - t0)) (Num 1000000000) else f_lit (1 / 1000000000))
        \<and> r = Inr \<lparr>fs_sent = fl_sent st, fs_errors = fl_errors st, fs_elapsed_s = elapsed,
            fs_achieved_mbps = f_div (f_div (f_of_int (int (fl_sent st) * fa_size a * 8)) elapsed) (Num 1000000),
            fs_offered_mbps = fa_rate_mbps a, fs_size = fa_size a\<rparr>
        \<and> (per = 0 \<longrightarrow> fl_tx st = map turn_time
             (takeWhile (\<lambda>e. case e of Turn now _ \<Rightarrow> now < deadline | Interrupt \<Rightarrow> False) evs))"
    if r: "flood_main a t0 evs t1 = Some r" for r
  proof -
    obtain st where st: "flood_loop per deadline (flood_init t0) evs = Some st" "r = flood_finish a st t0 t1"
      using r main by auto
    have bits: "\<bar>int (fl_sent st) * fa_size a * 8\<bar> \<le> 2 ^ 64"
      by (rule sent_bits_bound) (use assms(4-6) flood_loop_sent [OF st(1)] in \<open>simp_all add: flood_init_def\<close>)
    show ?thesis
      unfolding st(2) flood_finish_value [OF assms(3) bits] flood_elapsed_def
      using flood_loop_reach [OF st(1) reach_init] flood_loop_accounts [OF st(1)]
        flood_loop_unpaced [of deadline "flood_init t0" evs st] st(1)
      by (intro exI [of _ st] exI conjI) (auto simp: flood_init_def)
  qed
  then show ?thesis using flood_loop_ends [of per deadline "flood_init t0" evs] main by simp
qed

lemma flood_ends_witness:
  "\<exists>st. flood_main \<lparr>fa_rate_mbps = Num 0, fa_size = 1400, fa_duration = Num 0\<rparr> 0 [Turn 0 True] 0
     = Some (Inr st) \<and> fs_elapsed_s st = f_lit (1 / 1000000000)"
proof -
  let ?a = "\<lparr>fa_rate_mbps = Num 0, fa_size = 1400, fa_duration = Num 0\<rparr>"
  have a: "per_pkt_ns ?a = Inr 0" "deadline_ns ?a 0 = Inr 0" by code_simp+
  note ends = flood_ends [OF a, of 0 "[Turn 0 True]"]
  from ends have "flood_main ?a 0 [Turn 0 True] 0 \<noteq> None" by simp
  then obtain r where r: "flood_main ?a 0 [Turn 0 True] 0 = Some r" by blast
  with ends show ?thesis by auto
qed

text \<open>
  The sink returns exactly when, after the first signal and possibly further ones, one more
  datagram or timeout arrives; it has then counted every datagram up to and including that event,
  and their bytes (at most 65535 of each).
\<close>

lemma sink_main_iff:
  "sink_main evs = Some st \<longleftrightarrow>
     (\<exists>pre sigs e post. evs = pre @ Signal # sigs @ e # post \<and> Signal \<notin> set pre \<and> set sigs \<subseteq> {Signal} \<and> e \<noteq> Signal
        \<and> st = \<lparr>sk_count = length (datagrams (pre @ [e])),
               sk_nbytes = sum_list (map (\<lambda>d. min (length d) 65535) (datagrams (pre @ [e]))), sk_stop = True\<rparr>)"
  (is "_ \<longleftrightarrow> ?R")
proof
  assume r: "sink_main evs = Some st"
  have run: "\<not> sk_stop sink_init" by (simp add: sink_init_def)
  have "Signal \<in> set evs" using r sink_loop_unsignalled [OF _ run] by (force simp: sink_main_def)
  then obtain pre rest where e1: "evs = pre @ Signal # rest" "Signal \<notin> set pre" by (meson split_list_first)
  show ?R
  proof (cases "dropWhile (\<lambda>e. e = Signal) rest")
    case Nil
    then have "sink_main evs = None"
      using e1 run by (simp add: sink_main_def sink_loop_running sink_loop_stopping del: dropWhile_eq_Nil_conv)
    then show ?thesis using r by simp
  next
    case (Cons e post)
    let ?sigs = "takeWhile (\<lambda>e. e = Signal) rest"
    have e2: "rest = ?sigs @ e # post" using Cons takeWhile_dropWhile_id [of "\<lambda>e. e = Signal" rest] by simp
    have sg: "set ?sigs \<subseteq> {Signal}" "e \<noteq> Signal"
      using Cons by (auto dest: set_takeWhileD simp: dropWhile_eq_Cons_conv)
    have "st = sink_added (sink_init\<lparr>sk_stop := True\<rparr>) (datagrams (pre @ [e]))"
      using r sink_loop_signalled [OF run e1(2) sg, of post] unfolding sink_main_def e1(1) by (simp flip: e2)
    then show ?thesis using e1 e2 sg
      by (intro exI [of _ pre] exI [of _ ?sigs] exI [of _ e] exI [of _ post]) (simp add: sink_added_def sink_init_def)
  qed
next
  assume ?R
  then show "sink_main evs = Some st"
    using sink_loop_signalled [of sink_init] by (auto simp: sink_main_def sink_added_def sink_init_def)
qed

end
