(* ===== verification/PyJson.thy ===== *)
theory PyJson
  imports PyRepr
begin

text \<open>
  JSON values as Python sees them after \<open>json.loads\<close>, and \<open>json.dumps\<close>: escaping to
  ASCII, \<open>repr\<close> of floats, the compact and the indented layout, and \<open>allow_nan\<close>. A
  reader for what the printer writes states that the output is standard JSON (no bare NaN) and
  that nothing is lost.
\<close>

datatype json =
    JNull
  | JBool bool
  | JInt int
  | JFloat f64
  | JStr string
  | JList "json list"
  | JObj "(string \<times> json) list"

section \<open>Printing\<close>

definition hex_digit :: "nat \<Rightarrow> char" where
  "hex_digit n = (if n < 10 then char_of (48 + n) else char_of (87 + n))"

definition escape_char :: "char \<Rightarrow> string" where
  "escape_char c =
     (if c = CHR 0x22 then [CHR 0x5C, CHR 0x22]
      else if c = CHR 0x5C then [CHR 0x5C, CHR 0x5C]
      else if code c = 10 then [CHR 0x5C, CHR ''n'']
      else if code c = 13 then [CHR 0x5C, CHR ''r'']
      else if code c = 9 then [CHR 0x5C, CHR ''t'']
      else if code c = 8 then [CHR 0x5C, CHR ''b'']
      else if code c = 12 then [CHR 0x5C, CHR ''f'']
      else if code c < 32 \<or> 126 < code c
      then [CHR 0x5C, CHR ''u'', CHR ''0'', CHR ''0'', hex_digit (code c div 16), hex_digit (code c mod 16)]
      else [c])"

definition quote :: "string \<Rightarrow> string" where
  "quote s = CHR 0x22 # concat (map escape_char s) @ [CHR 0x22]"

definition json_float :: "bool \<Rightarrow> f64 \<Rightarrow> string res" where
  "json_float allow_nan x =
     (if is_finite x then Inr (py_repr x)
      else if allow_nan
      then Inr (case x of Inf neg \<Rightarrow> (if neg then ''-Infinity'' else ''Infinity'') | _ \<Rightarrow> ''NaN'')
      else Inl (ValueError ''Out of range float values are not JSON compliant''))"

text \<open>Line breaks and item separators of the compact and the indented layout.\<close>

definition newline :: "nat option \<Rightarrow> nat \<Rightarrow> string" where
  "newline indent level = (case indent of None \<Rightarrow> [] | Some n \<Rightarrow> CHR 0x0A # replicate (n * level) (CHR '' ''))"

definition item_sep :: "nat option \<Rightarrow> nat \<Rightarrow> string" where
  "item_sep indent level = (case indent of None \<Rightarrow> '', '' | Some n \<Rightarrow> CHR '','' # newline indent level)"

lemma json_obj_size: "(k, v) \<in> set kvs \<Longrightarrow> size v < Suc (size_list (size_prod (\<lambda>x. 0) size) kvs)"
  by (induction kvs) auto

function json_dump :: "bool \<Rightarrow> nat option \<Rightarrow> nat \<Rightarrow> json \<Rightarrow> string res" where
  "json_dump nan indent level JNull = Inr ''null''"
| "json_dump nan indent level (JBool b) = Inr (if b then ''true'' else ''false'')"
| "json_dump nan indent level (JInt n) = Inr (int_str n)"
| "json_dump nan indent level (JFloat x) = json_float nan x"
| "json_dump nan indent level (JStr s) = Inr (quote s)"
| "json_dump nan indent level (JList vs) =
     (if vs = [] then Inr ''[]''
      else res_bind (res_mapM (json_dump nan indent (level + 1)) vs) (\<lambda>items.
        Inr (''['' @ newline indent (level + 1) @ join (item_sep indent (level + 1)) items @ newline indent level @ '']'')))"
| "json_dump nan indent level (JObj kvs) =
     (if kvs = [] then Inr ''{}''
      else res_bind (res_mapM (\<lambda>(k, v). res_bind (json_dump nan indent (level + 1) v) (\<lambda>t. Inr (quote k @ '': '' @ t))) kvs) (\<lambda>items.
        Inr (''{'' @ newline indent (level + 1) @ join (item_sep indent (level + 1)) items @ newline indent level @ ''}'')))"
  by pat_completeness auto
termination
  by (relation "measure (\<lambda>(_, _, _, v). size v)") (auto simp: json_obj_size size_list_estimation' le_imp_less_Suc)

definition json_dumps :: "bool \<Rightarrow> nat option \<Rightarrow> json \<Rightarrow> string res" where
  "json_dumps nan indent v = json_dump nan indent 0 v"

section \<open>Reading\<close>

definition hex_val :: "char \<Rightarrow> int option" where
  "hex_val c =
     (let n = code c
      in if 48 \<le> n \<and> n \<le> 57 then Some (int n - 48)
         else if 97 \<le> n \<and> n \<le> 102 then Some (int n - 87)
         else if 65 \<le> n \<and> n \<le> 70 then Some (int n - 55)
         else None)"

definition json_ws :: "char \<Rightarrow> bool" where
  "json_ws c = (code c = 32 \<or> code c = 9 \<or> code c = 10 \<or> code c = 13)"

definition unescape :: "char \<Rightarrow> char option" where
  "unescape c =
     (if c = CHR 0x22 \<or> c = CHR 0x5C \<or> c = CHR ''/'' then Some c
      else if c = CHR ''n'' then Some (CHR 0x0A)
      else if c = CHR ''r'' then Some (CHR 0x0D)
      else if c = CHR ''t'' then Some (CHR 0x09)
      else if c = CHR ''b'' then Some (CHR 0x08)
      else if c = CHR ''f'' then Some (CHR 0x0C)
      else None)"

text \<open>The characters of a string after its opening quote; escapes above U+00FF are not in the model's text.\<close>

fun read_chars :: "string \<Rightarrow> (string \<times> string) option" where
  "read_chars [] = None"
| "read_chars (c # s) =
     (if c = CHR 0x22 then Some ([], s)
      else if c = CHR 0x5C then
        (case s of
           [] \<Rightarrow> None
         | e # s' \<Rightarrow>
             if e = CHR ''u'' then
               (case s' of
                  a # b # x # y # r \<Rightarrow>
                    (case (hex_val x, hex_val y) of
                       (Some m, Some n) \<Rightarrow>
                         if a = CHR ''0'' \<and> b = CHR ''0''
                         then map_option (\<lambda>(t, r'). (char_of (nat (16 * m + n)) # t, r')) (read_chars r) else None
                     | _ \<Rightarrow> None)
                | _ \<Rightarrow> None)
             else (case unescape e of None \<Rightarrow> None | Some d \<Rightarrow> map_option (\<lambda>(t, r'). (d # t, r')) (read_chars s')))
      else if code c < 32 then None
      else map_option (\<lambda>(t, r'). (c # t, r')) (read_chars s))"

definition read_number :: "string \<Rightarrow> (json \<times> string) option" where
  "read_number s =
     (let t = takeWhile numeric_char s; r = dropWhile numeric_char s
      in if CHR ''.'' \<in> set t \<or> CHR ''e'' \<in> set t
         then (case py_float t of Inl _ \<Rightarrow> None | Inr x \<Rightarrow> if is_finite x then Some (JFloat x, r) else None)
         else (case py_int t of Inl _ \<Rightarrow> None | Inr n \<Rightarrow> Some (JInt n, r)))"

fun read_value :: "nat \<Rightarrow> string \<Rightarrow> (json \<times> string) option"
  and read_items :: "nat \<Rightarrow> string \<Rightarrow> (json list \<times> string) option"
  and read_members :: "nat \<Rightarrow> string \<Rightarrow> ((string \<times> json) list \<times> string) option" where
  "read_value 0 s = None"
| "read_value (Suc n) s =
     (case dropWhile json_ws s of
        [] \<Rightarrow> None
      | c # r \<Rightarrow>
          if c = CHR 0x22 then map_option (\<lambda>(t, r'). (JStr t, r')) (read_chars r)
          else if c = CHR ''['' then
            (if take 1 (dropWhile json_ws r) = '']'' then Some (JList [], drop 1 (dropWhile json_ws r))
             else map_option (\<lambda>(vs, r'). (JList vs, r')) (read_items n r))
          else if c = CHR ''{'' then
            (if take 1 (dropWhile json_ws r) = ''}'' then Some (JObj [], drop 1 (dropWhile json_ws r))
             else map_option (\<lambda>(kvs, r'). (JObj kvs, r')) (read_members n r))
          else if c = CHR ''n'' then (if take 3 r = ''ull'' then Some (JNull, drop 3 r) else None)
          else if c = CHR ''t'' then (if take 3 r = ''rue'' then Some (JBool True, drop 3 r) else None)
          else if c = CHR ''f'' then (if take 4 r = ''alse'' then Some (JBool False, drop 4 r) else None)
          else read_number (c # r))"
| "read_items 0 s = None"
| "read_items (Suc n) s =
     (case read_value n s of
        None \<Rightarrow> None
      | Some (v, r) \<Rightarrow>
          (case dropWhile json_ws r of
             [] \<Rightarrow> None
           | c # r' \<Rightarrow>
               if c = CHR '']'' then Some ([v], r')
               else if c = CHR '','' then map_option (\<lambda>(vs, r''). (v # vs, r'')) (read_items n r')
               else None))"
| "read_members 0 s = None"
| "read_members (Suc n) s =
     (case dropWhile json_ws s of
        [] \<Rightarrow> None
      | q # k0 \<Rightarrow>
          if q \<noteq> CHR 0x22 then None
          else case read_chars k0 of
            None \<Rightarrow> None
          | Some (k, r0) \<Rightarrow>
              (case dropWhile json_ws r0 of
                 [] \<Rightarrow> None
               | c0 # r1 \<Rightarrow>
                   if c0 \<noteq> CHR '':'' then None
                   else case read_value n r1 of
                     None \<Rightarrow> None
                   | Some (v, r) \<Rightarrow>
                       (case dropWhile json_ws r of
                          [] \<Rightarrow> None
                        | c # r' \<Rightarrow>
                            if c = CHR ''}'' then Some ([(k, v)], r')
                            else if c = CHR '','' then map_option (\<lambda>(kvs, r''). ((k, v) # kvs, r'')) (read_members n r')
                            else None)))"

text \<open>A whole document; the fuel is twice the length of the text, which is always enough for printed values.\<close>

definition json_read :: "string \<Rightarrow> json option" where
  "json_read t = (case read_value (2 * length t + 1) t of
      Some (v, r) \<Rightarrow> if dropWhile json_ws r = [] then Some v else None
    | None \<Rightarrow> None)"

section \<open>Printing and reading back\<close>

lemma hex_val_digit: "n < 16 \<Longrightarrow> hex_val (hex_digit n) = Some (int n) \<and> hex_digit n \<noteq> CHR ''_'' \<and> \<not> is_space (hex_digit n)
    \<and> hex_digit n \<noteq> CHR ''-'' \<and> hex_digit n \<noteq> CHR ''+'' \<and> hex_digit n \<noteq> CHR ''x'' \<and> hex_digit n \<noteq> CHR ''X''"
proof -
  assume n: "n < 16"
  have c: "code (hex_digit n) = (if n < 10 then 48 + n else 87 + n)"
    using n by (simp add: hex_digit_def code_def)
  have "hex_digit n \<noteq> x" if "code x \<notin> {48..57} \<union> {97..102}" for x
    using that c n by (auto split: if_splits)
  moreover have "\<not> is_space (hex_digit n)" using c n by (simp add: is_space_def)
  ultimately show ?thesis using c n by (simp add: hex_val_def code_def Let_def)
qed

lemma read_chars_escape: "read_chars (escape_char c @ s) = map_option (\<lambda>(t, r). (c # t, r)) (read_chars s)"
proof -
  let ?n = "code c"
  have n: "?n < 256" by (simp add: code_def)
  have h: "hex_val (hex_digit (?n div 16)) = Some (int (?n div 16))" "hex_val (hex_digit (?n mod 16)) = Some (int (?n mod 16))"
    using n hex_val_digit [of "?n div 16"] hex_val_digit [of "?n mod 16"] by simp_all
  have "16 * int (?n div 16) + int (?n mod 16) = int ?n" by (simp only: zdiv_int zmod_int of_nat_numeral mult_div_mod_eq)
  then have u: "char_of (nat (16 * int (?n div 16) + int (?n mod 16))) = c" by (simp add: code_def)
  have cc: "c = char_of ?n" by (simp add: code_def)
  have "char_of (10::nat) = CHR 0x0A" "char_of (13::nat) = CHR 0x0D" "char_of (9::nat) = CHR 0x09"
    "char_of (8::nat) = CHR 0x08" "char_of (12::nat) = CHR 0x0C" by code_simp+
  then have eqs: "?n = 10 \<Longrightarrow> c = CHR 0x0A" "?n = 13 \<Longrightarrow> c = CHR 0x0D" "?n = 9 \<Longrightarrow> c = CHR 0x09" "?n = 8 \<Longrightarrow> c = CHR 0x08" "?n = 12 \<Longrightarrow> c = CHR 0x0C"
    using cc by simp_all
  show ?thesis
    using h u eqs by (auto simp: escape_char_def unescape_def simp del: of_nat_div of_nat_mod)
qed

lemma read_chars_quote: "read_chars (concat (map escape_char s) @ CHR 0x22 # r) = Some (s, r)"
  by (induction s) (simp_all add: read_chars_escape)

text \<open>Values whose numbers print and read back: binary64 floats and integers within the digit limit.\<close>

fun json_ok :: "json \<Rightarrow> bool" where
  "json_ok (JFloat x) = (f64_wf x \<and> is_finite x)"
| "json_ok (JInt n) = (\<bar>n\<bar> < 10 ^ int_max_str_digits)"
| "json_ok (JList vs) = list_all json_ok vs"
| "json_ok (JObj kvs) = list_all (\<lambda>(k, v). json_ok v) kvs"
| "json_ok _ = True"

definition delim :: "string \<Rightarrow> bool" where
  "delim r \<longleftrightarrow> r = [] \<or> \<not> numeric_char (hd r)"

lemma takeWhile_delim: "list_all P s \<Longrightarrow> r = [] \<or> \<not> P (hd r) \<Longrightarrow> takeWhile P (s @ r) = s \<and> dropWhile P (s @ r) = r"
  by (cases r) (auto simp: list_all_iff takeWhile_append2 dropWhile_append2)

lemma int_str_numeric: "list_all numeric_char (int_str n)" "CHR ''.'' \<notin> set (int_str n)" "CHR ''e'' \<notin> set (int_str n)"
  by (auto simp: list_all_iff numeric_char_def is_decimal_def code_def dest!: int_str_chars)

lemma py_repr_numeric:
  assumes "is_finite x"
  shows "list_all numeric_char (py_repr x)" "CHR ''.'' \<in> set (py_repr x) \<or> CHR ''e'' \<in> set (py_repr x)"
proof -
  have m: "CHR ''.'' \<in> set (repr_pos r) \<or> CHR ''e'' \<in> set (repr_pos r)" for r
    by (auto simp: repr_pos_def split_def Let_def exp_str_def fixed_digits_def)
  have z: "numeric_char (CHR ''0'')" "numeric_char (CHR ''.'')" "numeric_char (CHR ''-'')"
    by (simp_all add: numeric_char_def is_decimal_def code_def)
  show "list_all numeric_char (py_repr x)"
    using assms numeric_repr_pos z by (cases x) (auto simp: py_repr_def is_finite_def)
  show "CHR ''.'' \<in> set (py_repr x) \<or> CHR ''e'' \<in> set (py_repr x)"
    using assms m by (cases x) (auto simp: py_repr_def is_finite_def)
qed

lemma read_number_int:
  assumes "\<bar>n\<bar> < 10 ^ int_max_str_digits" and "delim r"
  shows "read_number (int_str n @ r) = Some (JInt n, r)"
  using takeWhile_delim [of numeric_char "int_str n" r] int_str_numeric [of n] assms
  by (simp add: read_number_def delim_def py_int_int_str)

lemma read_number_float:
  assumes "f64_wf x" "is_finite x" and "delim r"
  shows "read_number (py_repr x @ r) = Some (JFloat x, r)"
  using takeWhile_delim [of numeric_char "py_repr x" r] py_repr_numeric [OF assms(2)] assms
  by (simp add: read_number_def delim_def py_float_repr)

lemma list_all2_mono_set:
  assumes "list_all2 P xs ys" and "\<And>x y. x \<in> set xs \<Longrightarrow> P x y \<Longrightarrow> Q x y"
  shows "list_all2 Q xs ys"
  using assms by (auto simp: list_all2_conv_all_nth)

lemma newline_ws: "list_all json_ws (newline indent level)"
  by (auto simp: newline_def json_ws_def code_def list_all_iff split: option.splits)

lemma item_sep_ws: "\<exists>w. item_sep indent level = CHR '','' # w \<and> list_all json_ws w"
  using newline_ws by (auto simp: item_sep_def json_ws_def code_def split: option.splits)

lemma dropWhile_ws: "list_all json_ws w \<Longrightarrow> s \<noteq> [] \<Longrightarrow> \<not> json_ws (hd s) \<Longrightarrow> dropWhile json_ws (w @ s) = s"
  by (cases s) (auto simp: list_all_iff dropWhile_append2)

text \<open>The first character of a printed value.\<close>

definition opener :: "char \<Rightarrow> bool" where
  "opener c \<longleftrightarrow> c \<in> {CHR 0x22, CHR ''['', CHR ''{'', CHR ''n'', CHR ''t'', CHR ''f'', CHR ''-''} \<or> is_decimal c"

lemma opener_not: "opener c \<Longrightarrow> \<not> json_ws c \<and> c \<noteq> CHR '']'' \<and> c \<noteq> CHR ''}''"
  by (auto simp: opener_def json_ws_def is_decimal_def code_def)

lemma int_str_hd: "int_str n \<noteq> [] \<and> opener (hd (int_str n))"
proof -
  have "int_str n \<noteq> []" by (simp add: int_str_def)
  then show ?thesis using int_str_chars [of "hd (int_str n)" n] by (auto simp: opener_def)
qed

lemma py_repr_hd:
  assumes "is_finite x"
  shows "py_repr x \<noteq> [] \<and> opener (hd (py_repr x)) \<and> hd (py_repr x) \<notin> {CHR 0x22, CHR ''['', CHR ''{'', CHR ''n'', CHR ''t'', CHR ''f''}"
proof -
  have "repr_pos r \<noteq> [] \<and> opener (hd (repr_pos r)) \<and> hd (repr_pos r) \<notin> {CHR 0x22, CHR ''['', CHR ''{'', CHR ''n'', CHR ''t'', CHR ''f''}" for r
    using repr_pos_hd [of r] by (auto simp: opener_def is_decimal_def code_def)
  then show ?thesis using assms by (cases x) (auto simp: py_repr_def is_finite_def opener_def is_decimal_def code_def)
qed

lemma json_dump_opener: "json_dump nan indent level v = Inr t \<Longrightarrow> json_ok v \<Longrightarrow> t \<noteq> [] \<and> opener (hd t)"
proof -
  have o: "opener (CHR 0x22)" "opener (CHR ''['')" "opener (CHR ''{'')" "opener (CHR ''n'')" "opener (CHR ''t'')" "opener (CHR ''f'')"
    by (simp_all add: opener_def)
  assume "json_dump nan indent level v = Inr t" "json_ok v"
  then show ?thesis
    by (cases v) (auto simp: o json_float_def int_str_hd py_repr_hd quote_def res_bind_Inr_conv split: if_splits)
qed

definition reads :: "json \<Rightarrow> string \<Rightarrow> bool" where
  "reads v t \<longleftrightarrow> (\<forall>w r n. list_all json_ws w \<longrightarrow> delim r \<longrightarrow> 2 * size v + 1 \<le> n \<longrightarrow> read_value n (w @ t @ r) = Some (v, r))"

lemma delim_simps: "delim (CHR '','' # s)" "delim (CHR '']'' # s)" "delim (CHR ''}'' # s)" "delim []"
  by (simp_all add: delim_def numeric_char_def is_decimal_def code_def)

lemma delim_ws: "list_all json_ws w \<Longrightarrow> delim r \<Longrightarrow> delim (w @ r)"
  by (cases w) (auto simp: delim_def json_ws_def numeric_char_def is_decimal_def code_def)

lemma not_ws_marks: "\<not> json_ws (CHR '','')" "\<not> json_ws (CHR '']'')" "\<not> json_ws (CHR ''}'')" "\<not> json_ws (CHR '':'')" "\<not> json_ws (CHR 0x22)"
  "json_ws (CHR '' '')"
  by (simp_all add: json_ws_def code_def)

lemma read_items_join:
  assumes "list_all2 reads vs ts" and "vs \<noteq> []" and "sep = CHR '','' # w1" and "list_all json_ws w1" "list_all json_ws w2" "list_all json_ws w"
    and "(\<Sum>v\<leftarrow>vs. 2 * size v + 2) \<le> n"
  shows "read_items n (w @ join sep ts @ w2 @ CHR '']'' # r) = Some (vs, r)"
  using assms
proof (induction vs arbitrary: ts w n)
  case (Cons v vs)
  then obtain t ts' where ts: "ts = t # ts'" "reads v t" "list_all2 reads vs ts'" by (auto simp: list_all2_Cons1)
  obtain m where n: "n = Suc m" "2 * size v + 1 \<le> m" "(\<Sum>v\<leftarrow>vs. 2 * size v + 2) \<le> m"
    using Cons.prems(7) by (cases n) auto
  show ?case
  proof (cases vs)
    case Nil
    then have "join sep ts = t" using ts by simp
    moreover have "read_value m (w @ t @ w2 @ CHR '']'' # r) = Some (v, w2 @ CHR '']'' # r)"
      using ts(2) Cons.prems(5,6) n(2) by (simp add: reads_def delim_ws delim_simps)
    ultimately show ?thesis using Nil Cons.prems(5) n(1) by (simp add: dropWhile_ws not_ws_marks)
  next
    case vs: (Cons v' vs')
    then obtain t' ts'' where ts': "ts' = t' # ts''" using ts(3) by (auto simp: list_all2_Cons1)
    let ?rest = "join sep ts' @ w2 @ CHR '']'' # r"
    have j: "join sep ts = t @ CHR '','' # w1 @ join sep ts'" using ts(1) ts' Cons.prems(3) by simp
    have "read_value m (w @ t @ CHR '','' # w1 @ ?rest) = Some (v, CHR '','' # w1 @ ?rest)"
      using ts(2) Cons.prems(6) n(2) by (simp add: reads_def delim_simps)
    moreover have "read_items m (w1 @ ?rest) = Some (vs, r)"
      using Cons.IH [OF ts(3) _ Cons.prems(3-5,4) n(3)] vs by simp
    ultimately show ?thesis using n(1) by (simp add: j not_ws_marks)
  qed
qed simp

definition member_reads :: "string \<times> json \<Rightarrow> string \<Rightarrow> bool" where
  "member_reads = (\<lambda>(k, v) t. \<exists>t'. t = quote k @ '': '' @ t' \<and> reads v t')"

lemma read_members_join:
  assumes "list_all2 member_reads kvs ts" and "kvs \<noteq> []" and "sep = CHR '','' # w1" and "list_all json_ws w1" "list_all json_ws w2" "list_all json_ws w"
    and "(\<Sum>(k, v)\<leftarrow>kvs. 2 * size v + 2) \<le> n"
  shows "read_members n (w @ join sep ts @ w2 @ CHR ''}'' # r) = Some (kvs, r)"
  using assms
proof (induction kvs arbitrary: ts w n)
  case (Cons kv kvs)
  obtain k v where kv: "kv = (k, v)" by (cases kv)
  from Cons.prems(1) kv obtain t ts' where ts: "ts = (quote k @ '': '' @ t) # ts'" "reads v t" "list_all2 member_reads kvs ts'"
    by (auto simp: list_all2_Cons1 member_reads_def)
  obtain m where n: "n = Suc m" "2 * size v + 1 \<le> m" "(\<Sum>(k, v)\<leftarrow>kvs. 2 * size v + 2) \<le> m"
    using Cons.prems(7) kv by (cases n) auto
  define rest where "rest = (case kvs of [] \<Rightarrow> w2 @ CHR ''}'' # r | _ \<Rightarrow> CHR '','' # w1 @ join sep ts' @ w2 @ CHR ''}'' # r)"
  have j: "join sep ts @ w2 @ CHR ''}'' # r = quote k @ '': '' @ t @ rest"
    using ts Cons.prems(3) by (cases kvs; cases ts') (auto simp: rest_def)
  have q: "dropWhile json_ws (w @ quote k @ s) = CHR 0x22 # concat (map escape_char k) @ CHR 0x22 # s" for s
    using Cons.prems(6) by (simp add: quote_def dropWhile_ws not_ws_marks)
  have "delim rest" using Cons.prems(5) by (cases kvs) (simp_all add: rest_def delim_ws delim_simps)
  moreover have "list_all json_ws '' ''" using not_ws_marks(6) by simp
  ultimately have v: "read_value m ('' '' @ t @ rest) = Some (v, rest)"
    using ts(2) n(2) unfolding reads_def by blast
  show ?case
  proof (cases kvs)
    case Nil
    then show ?thesis using v Cons.prems(5) n(1) kv unfolding j
      by (simp add: q read_chars_quote rest_def dropWhile_ws not_ws_marks)
  next
    case kvs: (Cons a as)
    have "read_members m (w1 @ join sep ts' @ w2 @ CHR ''}'' # r) = Some (kvs, r)"
      using Cons.IH [OF ts(3) _ Cons.prems(3-5,4) n(3)] kvs by simp
    then show ?thesis using v n(1) kv kvs unfolding j
      by (simp add: q read_chars_quote rest_def not_ws_marks)
  qed
qed simp

lemma fuel_list: "(\<Sum>v\<leftarrow>vs. 2 * size v + 2) \<le> 2 * size (JList vs)"
  by (induction vs) auto

lemma fuel_obj: "(\<Sum>(k, v)\<leftarrow>kvs. 2 * size v + 2) \<le> 2 * size (JObj kvs)"
  by (induction kvs) auto

lemma reads_leaf:
  assumes "t \<noteq> []" and "opener (hd t)" and "\<And>r n. delim r \<Longrightarrow> read_value (Suc n) (t @ r) = Some (v, r)"
  shows "reads v t"
  unfolding reads_def
proof (intro allI impI)
  fix w r n
  assume w: "list_all json_ws w" and r: "delim r" and "2 * size v + 1 \<le> n"
  then obtain m where n: "n = Suc m" by (cases n) auto
  have "dropWhile json_ws (w @ t @ r) = t @ r" "dropWhile json_ws (t @ r) = t @ r"
    using dropWhile_ws [OF w, of "t @ r"] dropWhile_ws [of "[]" "t @ r"] assms(1) opener_not [OF assms(2)] by simp_all
  then show "read_value n (w @ t @ r) = Some (v, r)" using assms(3) [OF r, of m] n by simp
qed

lemma reads_list:
  assumes "list_all2 reads vs ts" and "vs \<noteq> []" and "\<And>t. t \<in> set ts \<Longrightarrow> t \<noteq> [] \<and> opener (hd t)"
  shows "reads (JList vs) (''['' @ newline indent (level + 1) @ join (item_sep indent (level + 1)) ts @ newline indent level @ '']'')"
  unfolding reads_def
proof (intro allI impI)
  fix w r n
  assume w: "list_all json_ws w" and f: "2 * size (JList vs) + 1 \<le> n"
  define m where "m = n - 1"
  then have n: "n = Suc m" "(\<Sum>v\<leftarrow>vs. 2 * size v + 2) \<le> m" using f fuel_list [of vs] by linarith+
  let ?t = "newline indent (level + 1) @ join (item_sep indent (level + 1)) ts @ newline indent level @ CHR '']'' # r"
  obtain w1 where sep: "item_sep indent (level + 1) = CHR '','' # w1" "list_all json_ws w1" using item_sep_ws by blast
  obtain t ts' where ts: "ts = t # ts'" using assms(1,2) by (cases ts) auto
  then have t: "t \<noteq> []" "opener (hd t)" using assms(3) by auto
  have "take 1 (dropWhile json_ws ?t) \<noteq> '']''"
    using t opener_not [OF t(2)] unfolding ts join_Cons by (subst dropWhile_ws [OF newline_ws]) (cases t, auto)+
  moreover have "read_items m ?t = Some (vs, r)"
    by (rule read_items_join [OF assms(1,2) sep newline_ws newline_ws n(2)])
  moreover have "dropWhile json_ws (w @ CHR ''['' # ?t) = CHR ''['' # ?t"
    using w by (subst dropWhile_ws) (auto simp: json_ws_def code_def)
  ultimately show "read_value n (w @ (''['' @ newline indent (level + 1) @ join (item_sep indent (level + 1)) ts @ newline indent level @ '']'') @ r)
      = Some (JList vs, r)"
    using n(1) by simp
qed

lemma reads_obj:
  assumes "list_all2 member_reads kvs ts" and "kvs \<noteq> []"
  shows "reads (JObj kvs) (''{'' @ newline indent (level + 1) @ join (item_sep indent (level + 1)) ts @ newline indent level @ ''}'')"
  unfolding reads_def
proof (intro allI impI)
  fix w r n
  assume w: "list_all json_ws w" and f: "2 * size (JObj kvs) + 1 \<le> n"
  define m where "m = n - 1"
  then have n: "n = Suc m" "(\<Sum>(k, v)\<leftarrow>kvs. 2 * size v + 2) \<le> m" using f fuel_obj [of kvs] by linarith+
  let ?t = "newline indent (level + 1) @ join (item_sep indent (level + 1)) ts @ newline indent level @ CHR ''}'' # r"
  obtain w1 where sep: "item_sep indent (level + 1) = CHR '','' # w1" "list_all json_ws w1" using item_sep_ws by blast
  obtain s ts' where ts: "ts = (CHR 0x22 # s) # ts'"
    using assms by (cases kvs) (auto simp: list_all2_Cons1 member_reads_def quote_def)
  have "take 1 (dropWhile json_ws ?t) \<noteq> ''}''"
    unfolding ts join_Cons by (subst dropWhile_ws [OF newline_ws]) (auto simp: not_ws_marks)
  moreover have "read_members m ?t = Some (kvs, r)"
    by (rule read_members_join [OF assms sep newline_ws newline_ws n(2)])
  moreover have "dropWhile json_ws (w @ CHR ''{'' # ?t) = CHR ''{'' # ?t"
    using w by (subst dropWhile_ws) (auto simp: json_ws_def code_def)
  ultimately show "read_value n (w @ (''{'' @ newline indent (level + 1) @ join (item_sep indent (level + 1)) ts @ newline indent level @ ''}'') @ r)
      = Some (JObj kvs, r)"
    using n(1) by simp
qed

lemma json_dump_reads: "json_dump nan indent level v = Inr t \<Longrightarrow> json_ok v \<Longrightarrow> reads v t"
proof (induction nan indent level v arbitrary: t rule: json_dump.induct)
  case (3 nan indent level n)
  then have t: "t = int_str n" by simp
  have h: "hd t \<notin> {CHR 0x22, CHR ''['', CHR ''{'', CHR ''n'', CHR ''t'', CHR ''f''}"
    using int_str_chars [of "hd t" n] int_str_hd [of n] t by (auto simp: is_decimal_def code_def)
  show ?case
  proof (rule reads_leaf)
    show "read_value (Suc m) (t @ r) = Some (JInt n, r)" if "delim r" for r m
    proof -
      obtain c s where "t = c # s" using int_str_hd [of n] t by (metis list.exhaust)
      moreover have "dropWhile json_ws (t @ r) = t @ r"
        using dropWhile_ws [of "[]" "t @ r"] int_str_hd [of n] opener_not t by simp
      moreover have "read_number (t @ r) = Some (JInt n, r)" using read_number_int [OF _ that] 3 t by simp
      ultimately show ?thesis using h by simp
    qed
  qed (use int_str_hd t in simp_all)
next
  case (4 nan indent level x)
  then have t: "t = py_repr x" and x: "f64_wf x" "is_finite x" by (simp_all add: json_float_def)
  note h = py_repr_hd [OF x(2)]
  show ?case
  proof (rule reads_leaf)
    show "read_value (Suc m) (t @ r) = Some (JFloat x, r)" if "delim r" for r m
    proof -
      obtain c s where "t = c # s" using h t by (metis list.exhaust)
      moreover have "dropWhile json_ws (t @ r) = t @ r"
        using dropWhile_ws [of "[]" "t @ r"] h opener_not t by simp
      moreover have "read_number (t @ r) = Some (JFloat x, r)" using read_number_float [OF x that] t by simp
      ultimately show ?thesis using h t by simp
    qed
  qed (use h t in simp_all)
next
  case (6 nan indent level vs)
  show ?case
  proof (cases "vs = []")
    case True
    then show ?thesis using 6 by (intro reads_leaf) (auto simp: opener_def json_ws_def code_def)
  next
    case False
    then obtain ts where ts: "res_mapM (json_dump nan indent (level + 1)) vs = Inr ts"
      "t = ''['' @ newline indent (level + 1) @ join (item_sep indent (level + 1)) ts @ newline indent level @ '']''"
      using 6(2) by (auto simp: res_bind_Inr_conv)
    then have d: "list_all2 (\<lambda>v t. json_dump nan indent (level + 1) v = Inr t) vs ts" by (simp add: res_mapM_Inr_iff)
    have ok: "json_ok v" if "v \<in> set vs" for v using 6(3) that by (simp add: list_all_iff)
    have "list_all2 reads vs ts"
      by (rule list_all2_mono_set [OF d]) (use 6(1) [OF False] ok in blast)
    moreover have "t \<noteq> [] \<and> opener (hd t)" if "t \<in> set ts" for t
    proof -
      from that obtain i where i: "i < length ts" "t = ts ! i" by (auto simp: in_set_conv_nth)
      then have "json_dump nan indent (level + 1) (vs ! i) = Inr t" "vs ! i \<in> set vs"
        using d by (auto simp: list_all2_conv_all_nth)
      then show ?thesis using ok json_dump_opener by blast
    qed
    ultimately show ?thesis unfolding ts(2) using False by (intro reads_list)
  qed
next
  case (7 nan indent level kvs)
  show ?case
  proof (cases "kvs = []")
    case True
    then show ?thesis using 7 by (intro reads_leaf) (auto simp: opener_def json_ws_def code_def)
  next
    case False
    then obtain ts where ts: "res_mapM (\<lambda>(k, v). res_bind (json_dump nan indent (level + 1) v) (\<lambda>t. Inr (quote k @ '': '' @ t))) kvs = Inr ts"
      "t = ''{'' @ newline indent (level + 1) @ join (item_sep indent (level + 1)) ts @ newline indent level @ ''}''"
      using 7(2) by (auto simp: res_bind_Inr_conv)
    then have d: "list_all2 (\<lambda>(k, v) t. \<exists>t'. json_dump nan indent (level + 1) v = Inr t' \<and> t = quote k @ '': '' @ t') kvs ts"
      by (auto simp: res_mapM_Inr_iff res_bind_Inr_conv split_def elim!: list_all2_mono)
    have ok: "json_ok v" if "(k, v) \<in> set kvs" for k v using 7(3) that by (auto simp: list_all_iff)
    have "list_all2 member_reads kvs ts"
      by (rule list_all2_mono_set [OF d]) (use 7(1) [OF False] ok in \<open>fastforce simp: member_reads_def\<close>)
    then show ?thesis unfolding ts(2) using False by (intro reads_obj)
  qed
next
  case (5 nan indent level s)
  then show ?case
    by (intro reads_leaf) (auto simp: quote_def opener_def read_chars_quote not_ws_marks)
qed (intro reads_leaf; auto simp: opener_def json_ws_def code_def)+

lemma length_join: "(\<Sum>t\<leftarrow>ts. length t + 1) \<le> length (join sep ts) + 1" if "1 \<le> length sep" for sep :: "'a list"
  using that by (induction sep ts rule: join.induct) auto

lemma sum_list_le_all2: "list_all2 (\<lambda>x y. f x \<le> g y) xs ys \<Longrightarrow> sum_list (map f xs) \<le> sum_list (map g ys)"
  for f :: "_ \<Rightarrow> nat"
  by (induction rule: list_all2_induct) auto

lemma json_dump_size: "json_dump nan indent level v = Inr t \<Longrightarrow> json_ok v \<Longrightarrow> size v \<le> length t"
proof (induction nan indent level v arbitrary: t rule: json_dump.induct)
  case (6 nan indent level vs)
  show ?case
  proof (cases "vs = []")
    case False
    then obtain ts where ts: "res_mapM (json_dump nan indent (level + 1)) vs = Inr ts"
      "t = ''['' @ newline indent (level + 1) @ join (item_sep indent (level + 1)) ts @ newline indent level @ '']''"
      using 6(2) by (auto simp: res_bind_Inr_conv)
    then have d: "list_all2 (\<lambda>v t. json_dump nan indent (level + 1) v = Inr t) vs ts" by (simp add: res_mapM_Inr_iff)
    have "list_all2 (\<lambda>v t. size v + 1 \<le> length t + 1) vs ts"
      by (rule list_all2_mono_set [OF d]) (use 6(1) [OF False] 6(3) in \<open>auto simp: list_all_iff\<close>)
    from sum_list_le_all2 [OF this] have "(\<Sum>v\<leftarrow>vs. size v + 1) \<le> (\<Sum>t\<leftarrow>ts. length t + 1)" .
    moreover have "(\<Sum>v\<leftarrow>vs. size v + 1) = size_list size vs" by (induction vs) auto
    moreover have "1 \<le> length (item_sep indent (level + 1))" using item_sep_ws [of indent "level + 1"] by auto
    ultimately show ?thesis using length_join [of "item_sep indent (level + 1)" ts] ts(2) by simp
  qed (use 6 in auto)
next
  case (7 nan indent level kvs)
  show ?case
  proof (cases "kvs = []")
    case False
    then obtain ts where ts: "res_mapM (\<lambda>(k, v). res_bind (json_dump nan indent (level + 1) v) (\<lambda>t. Inr (quote k @ '': '' @ t))) kvs = Inr ts"
      "t = ''{'' @ newline indent (level + 1) @ join (item_sep indent (level + 1)) ts @ newline indent level @ ''}''"
      using 7(2) by (auto simp: res_bind_Inr_conv)
    then have d: "list_all2 (\<lambda>(k, v) t. \<exists>t'. json_dump nan indent (level + 1) v = Inr t' \<and> t = quote k @ '': '' @ t') kvs ts"
      by (auto simp: res_mapM_Inr_iff res_bind_Inr_conv split_def elim!: list_all2_mono)
    have "list_all2 (\<lambda>kv t. size (snd kv) + 2 \<le> length t + 1) kvs ts"
      by (rule list_all2_mono_set [OF d]) (use 7(1) [OF False] 7(3) in \<open>fastforce simp: list_all_iff quote_def\<close>)
    from sum_list_le_all2 [OF this] have "(\<Sum>kv\<leftarrow>kvs. size (snd kv) + 2) \<le> (\<Sum>t\<leftarrow>ts. length t + 1)" .
    moreover have "(\<Sum>kv\<leftarrow>kvs. size (snd kv) + 2) = size_list (size_prod (\<lambda>x. 0) size) kvs" by (induction kvs) auto
    moreover have "1 \<le> length (item_sep indent (level + 1))" using item_sep_ws [of indent "level + 1"] by auto
    ultimately show ?thesis using length_join [of "item_sep indent (level + 1)" ts] ts(2) by simp
  qed (use 7 in auto)
qed (use json_dump_opener in \<open>fastforce simp: Suc_le_eq\<close>)+

text \<open>Printing and reading a document back is the identity, in both layouts.\<close>

lemma json_read_dumps:
  assumes "json_dumps nan indent v = Inr t" and "json_ok v"
  shows "json_read t = Some v"
proof -
  have d: "json_dump nan indent 0 v = Inr t" using assms(1) by (simp add: json_dumps_def)
  have "read_value (2 * length t + 1) ([] @ t @ []) = Some (v, [])"
    using json_dump_size [OF d assms(2)] delim_simps(4)
    by (intro json_dump_reads [OF d assms(2), unfolded reads_def, rule_format]) simp_all
  then show ?thesis by (simp add: json_read_def)
qed

lemma res_mapM_total: "(\<And>x. x \<in> set xs \<Longrightarrow> \<exists>y. f x = Inr y) \<Longrightarrow> \<exists>ys. res_mapM f xs = Inr ys"
proof (induction xs)
  case (Cons x xs)
  obtain y where "f x = Inr y" using Cons.prems by fastforce
  moreover obtain ys where "res_mapM f xs = Inr ys" using Cons by fastforce
  ultimately show ?case by simp
qed simp

lemma json_dump_total: "json_ok v \<Longrightarrow> \<exists>t. json_dump nan indent level v = Inr t"
proof (induction nan indent level v rule: json_dump.induct)
  case (6 nan indent level vs)
  show ?case
  proof (cases "vs = []")
    case False
    have "\<exists>ts. res_mapM (json_dump nan indent (level + 1)) vs = Inr ts"
      by (rule res_mapM_total) (use 6(1) [OF False] 6(2) in \<open>auto simp: list_all_iff\<close>)
    then show ?thesis using False by auto
  qed simp
next
  case (7 nan indent level kvs)
  show ?case
  proof (cases "kvs = []")
    case False
    have "\<exists>ts. res_mapM (\<lambda>(k, v). res_bind (json_dump nan indent (level + 1) v) (\<lambda>t. Inr (quote k @ '': '' @ t))) kvs = Inr ts"
      by (rule res_mapM_total) (use 7(1) [OF False] 7(2) in \<open>fastforce simp: list_all_iff\<close>)
    then show ?thesis using False by auto
  qed simp
qed (auto simp: json_float_def)

end
