(* ===== verification/Effects.thy ===== *)
theory Effects
  imports Prelude
begin

text \<open>
  What a program does to its environment: the trace of the calls that took place, in order, and
  the value or the exception it ended with. The type of calls is a parameter, each program brings
  its own. The environment is a function that says of each call whether it succeeds or which
  exception it raises; a call that raises is not in the trace. The lemmas are the monad laws,
  the trace of a fixed sequence of calls, and rules for the order in which calls may appear.
\<close>

section \<open>Computations with a trace\<close>

type_synonym ('e, 'a) eff = "'e list \<times> 'a res"

definition io_return :: "'a \<Rightarrow> ('e, 'a) eff" where
  "io_return x = ([], Inr x)"

definition io_bind :: "('e, 'a) eff \<Rightarrow> ('a \<Rightarrow> ('e, 'b) eff) \<Rightarrow> ('e, 'b) eff" where
  "io_bind m f = (case m of
      (effs, Inl e) \<Rightarrow> (effs, Inl e)
    | (effs, Inr x) \<Rightarrow> (case f x of (effs', r) \<Rightarrow> (effs @ effs', r)))"

text \<open>\<open>try: m finally: fin\<close>: an exception of the final block replaces the one under way.\<close>

definition io_finally :: "('e, 'a) eff \<Rightarrow> ('e, unit) eff \<Rightarrow> ('e, 'a) eff" where
  "io_finally m fin = (fst m @ fst fin, case snd fin of Inl e \<Rightarrow> Inl e | Inr _ \<Rightarrow> snd m)"

definition perform :: "('e \<Rightarrow> unit res) \<Rightarrow> 'e \<Rightarrow> ('e, unit) eff" where
  "perform os e = (case os e of Inl err \<Rightarrow> ([], Inl err) | Inr _ \<Rightarrow> ([e], Inr ()))"

fun perform_all :: "('e \<Rightarrow> unit res) \<Rightarrow> 'e list \<Rightarrow> ('e, unit) eff" where
  "perform_all os [] = io_return ()"
| "perform_all os (e # es) = io_bind (perform os e) (\<lambda>_. perform_all os es)"

lemma io_bind_simps [simp]:
  "io_bind (effs, Inl e) f = (effs, Inl e)"
  "io_bind (effs, Inr x) f = (effs @ fst (f x), snd (f x))"
  by (simp_all add: io_bind_def split: prod.splits)

lemma io_return_simp [simp]: "io_return x = ([], Inr x)"
  by (simp add: io_return_def)

lemma perform_ok [simp]: "os e = Inr () \<Longrightarrow> perform os e = ([e], Inr ())"
  by (simp add: perform_def)

lemma perform_raises [simp]: "os e = Inl err \<Longrightarrow> perform os e = ([], Inl err)"
  by (simp add: perform_def)

lemma io_bind_return: "io_bind m io_return = m"
  by (cases m; cases "snd m") (auto simp: io_bind_def)

lemma io_bind_assoc: "io_bind (io_bind m f) g = io_bind m (\<lambda>x. io_bind (f x) g)"
proof (cases m)
  case (Pair effs r)
  show ?thesis
  proof (cases r)
    case (Inr x)
    then show ?thesis by (cases "f x"; cases "snd (f x)") (simp_all add: Pair)
  qed (simp add: Pair)
qed

text \<open>
  A sequence of calls stops at the first that raises; what took place before is the trace, and
  only calls the environment accepted are in it.
\<close>

lemma perform_all_trace: "fst (perform_all os es) = takeWhile (\<lambda>e. os e = Inr ()) es"
proof (induction es)
  case (Cons e es)
  then show ?case by (cases "os e") simp_all
qed simp

lemma perform_all_outcome:
  "snd (perform_all os es) = (case dropWhile (\<lambda>e. os e = Inr ()) es of [] \<Rightarrow> Inr () | e # _ \<Rightarrow> os e)"
proof (induction es)
  case (Cons e es)
  then show ?case by (cases "os e") simp_all
qed simp

lemma perform_all_ok: "(\<And>e. e \<in> set es \<Longrightarrow> os e = Inr ()) \<Longrightarrow> perform_all os es = (es, Inr ())"
  by (induction es) simp_all

lemma perform_all_done: "snd (perform_all os es) = Inr x \<Longrightarrow> fst (perform_all os es) = es"
proof (induction es)
  case (Cons e es)
  then show ?case by (cases "os e") simp_all
qed simp

lemma perform_all_calls: "e \<in> set (fst (perform_all os es)) \<Longrightarrow> e \<in> set es \<and> os e = Inr ()"
  by (auto simp: perform_all_trace dest: set_takeWhileD)

lemma perform_calls: "e' \<in> set (fst (perform os e)) \<Longrightarrow> e' = e \<and> os e = Inr ()"
  by (cases "os e") simp_all

lemma io_bind_calls:
  "e \<in> set (fst (io_bind m f)) \<longleftrightarrow> e \<in> set (fst m) \<or> (\<exists>x. snd m = Inr x \<and> e \<in> set (fst (f x)))"
  by (cases m; cases "snd m") auto

lemma io_finally_calls: "e \<in> set (fst (io_finally m fin)) \<longleftrightarrow> e \<in> set (fst m) \<or> e \<in> set (fst fin)"
  by (simp add: io_finally_def)

lemma perform_all_raises:
  assumes "e \<in> set es" and "os e \<noteq> Inr ()"
  shows "\<exists>err. snd (perform_all os es) = Inl err" and "e \<notin> set (fst (perform_all os es))"
proof -
  have "dropWhile (\<lambda>e. os e = Inr ()) es \<noteq> []" using assms by auto
  then obtain x xs where x: "dropWhile (\<lambda>e. os e = Inr ()) es = x # xs" by (cases "dropWhile (\<lambda>e. os e = Inr ()) es") auto
  then have "os x \<noteq> Inr ()" by (simp add: dropWhile_eq_Cons_conv)
  then show "\<exists>err. snd (perform_all os es) = Inl err" by (cases "os x") (simp_all add: perform_all_outcome x)
  show "e \<notin> set (fst (perform_all os es))" using assms(2) by (auto simp: perform_all_trace dest: set_takeWhileD)
qed

section \<open>The order of calls\<close>

text \<open>
  \<open>only_after gs P tr\<close>: every call of the trace that satisfies \<open>P\<close> comes after all of
  the calls \<open>gs\<close>.
\<close>

fun only_after :: "'e list \<Rightarrow> ('e \<Rightarrow> bool) \<Rightarrow> 'e list \<Rightarrow> bool" where
  "only_after gs P [] \<longleftrightarrow> True"
| "only_after gs P (e # tr) \<longleftrightarrow> (P e \<longrightarrow> gs = []) \<and> only_after (removeAll e gs) P tr"

lemma only_after_Nil [simp]: "only_after [] P tr"
  by (induction tr) simp_all

lemma only_after_append [simp]:
  "only_after gs P (tr @ tr') \<longleftrightarrow> only_after gs P tr \<and> only_after (filter (\<lambda>g. g \<notin> set tr) gs) P tr'"
proof (induction tr arbitrary: gs)
  case (Cons e tr)
  have "filter (\<lambda>g. g \<notin> set tr) (removeAll e gs) = filter (\<lambda>g. g \<notin> set (e # tr)) gs"
    by (induction gs) auto
  then show ?case by (simp add: Cons)
qed simp

lemma only_after_never: "(\<And>e. e \<in> set tr \<Longrightarrow> \<not> P e) \<Longrightarrow> only_after gs P tr"
  by (induction tr arbitrary: gs) simp_all

lemma only_after_take: "only_after gs P tr \<Longrightarrow> only_after gs P (take n tr)"
  using only_after_append [of gs P "take n tr" "drop n tr"] by simp

lemma only_after_iff:
  "only_after gs P tr \<longleftrightarrow> (\<forall>pre e post. tr = pre @ e # post \<and> P e \<longrightarrow> set gs \<subseteq> set pre)"
proof (induction tr arbitrary: gs)
  case (Cons a tr)
  have split: "(\<forall>pre e post. a # tr = pre @ e # post \<and> P e \<longrightarrow> set gs \<subseteq> set pre) \<longleftrightarrow>
    (P a \<longrightarrow> gs = []) \<and> (\<forall>pre e post. tr = pre @ e # post \<and> P e \<longrightarrow> set gs \<subseteq> set (a # pre))" (is "?L \<longleftrightarrow> ?R")
  proof
    assume L: ?L
    then have "P a \<Longrightarrow> gs = []" by (metis append_Nil empty_set set_empty subset_empty)
    moreover have "set gs \<subseteq> set (a # pre)" if "tr = pre @ e # post" "P e" for pre e post
      using L [rule_format, of "a # pre" e post] that by simp
    ultimately show ?R by blast
  next
    assume R: ?R
    show ?L
    proof (intro allI impI)
      fix pre e post assume "a # tr = pre @ e # post \<and> P e"
      then show "set gs \<subseteq> set pre" using R by (cases pre) auto
    qed
  qed
  show ?case unfolding split by (simp add: Cons) blast
qed simp

lemma only_after_bind:
  assumes "only_after gs P (fst m)"
    and "\<And>x. snd m = Inr x \<Longrightarrow> only_after (filter (\<lambda>g. g \<notin> set (fst m)) gs) P (fst (f x))"
  shows "only_after gs P (fst (io_bind m f))"
  using assms by (cases m; cases "snd m") simp_all

text \<open>The trace of a sequence of calls keeps the order of the sequence, wherever it stops.\<close>

lemma only_after_perform_all: "only_after gs P es \<Longrightarrow> only_after gs P (fst (perform_all os es))"
  using only_after_take [of gs P es] by (metis perform_all_trace takeWhile_eq_take)

end
