(* ===== verification/Options.thy ===== *)
theory Options
  imports PyText
begin

text \<open>
  What the programs state about their command lines: which options exist, their types, defaults,
  choices and which are required. \<open>argparse\<close> matches the words of the command line to options;
  its result, the options that were given in order with their texts, is the input here. From it
  come the parsed arguments, or a usage error: each occurrence is converted, an occurrence that does
  not convert is an error even when a later one would, and the last one counts.
\<close>

section \<open>Given options and their conversion\<close>

text \<open>The options given, in order; a flag has no text. \<open>None\<close> is a usage error, exit status 2.\<close>

type_synonym given = "(string \<times> string) list"

definition texts_of :: "string \<Rightarrow> given \<Rightarrow> string list" where
  "texts_of name g = map snd (filter (\<lambda>(n, _). n = name) g)"

fun convert_all :: "(string \<Rightarrow> 'a option) \<Rightarrow> string list \<Rightarrow> 'a list option" where
  "convert_all conv [] = Some []"
| "convert_all conv (t # ts) = (case conv t of
      None \<Rightarrow> None
    | Some v \<Rightarrow> map_option (\<lambda>vs. v # vs) (convert_all conv ts))"

definition opt_default :: "(string \<Rightarrow> 'a option) \<Rightarrow> 'a \<Rightarrow> string \<Rightarrow> given \<Rightarrow> 'a option" where
  "opt_default conv d name g = map_option (\<lambda>vs. if vs = [] then d else last vs) (convert_all conv (texts_of name g))"

definition opt_required :: "(string \<Rightarrow> 'a option) \<Rightarrow> string \<Rightarrow> given \<Rightarrow> 'a option" where
  "opt_required conv name g =
     (case convert_all conv (texts_of name g) of
        None \<Rightarrow> None
      | Some vs \<Rightarrow> if vs = [] then None else Some (last vs))"

definition opt_flag :: "string \<Rightarrow> given \<Rightarrow> bool" where
  "opt_flag name g \<longleftrightarrow> texts_of name g \<noteq> []"

text \<open>The \<open>type\<close>s: \<open>int\<close>, \<open>float\<close>, a text, a text among choices.\<close>

definition type_int :: "string \<Rightarrow> int option" where
  "type_int t = (case py_int t of Inl _ \<Rightarrow> None | Inr n \<Rightarrow> Some n)"

definition type_float :: "string \<Rightarrow> f64 option" where
  "type_float t = (case py_float t of Inl _ \<Rightarrow> None | Inr x \<Rightarrow> Some x)"

definition type_str :: "string \<Rightarrow> string option" where
  "type_str t = Some t"

definition type_choice :: "string list \<Rightarrow> string \<Rightarrow> string option" where
  "type_choice choices t = (if t \<in> set choices then Some t else None)"

section \<open>Lemmas\<close>

lemma texts_of_simps [simp]:
  "texts_of name [] = []"
  "texts_of name ((n, t) # g) = (if n = name then t # texts_of name g else texts_of name g)"
  "texts_of name (g @ g') = texts_of name g @ texts_of name g'"
  by (simp_all add: texts_of_def)

lemma convert_all_Some: "convert_all conv ts = Some vs \<longleftrightarrow> map conv ts = map Some vs"
  by (induction ts arbitrary: vs) (auto split: option.splits simp: Cons_eq_map_conv)

lemma convert_all_None: "convert_all conv ts = None \<longleftrightarrow> None \<in> set (map conv ts)"
  by (induction ts) (auto split: option.splits)

lemma texts_of_absent: "name \<notin> fst ` set g \<Longrightarrow> texts_of name g = []"
  by (induction g) auto

lemma texts_of_given: "(name, t) \<in> set g \<Longrightarrow> t \<in> set (texts_of name g)"
  by (induction g) auto

lemma opt_absent:
  "name \<notin> fst ` set g \<Longrightarrow> opt_default conv d name g = Some d"
  "name \<notin> fst ` set g \<Longrightarrow> opt_required conv name g = None"
  by (simp_all add: opt_default_def opt_required_def texts_of_absent)

text \<open>The last occurrence counts, provided that every occurrence converts.\<close>

lemma opt_default_last:
  assumes "\<forall>t \<in> set (texts_of name g). conv t \<noteq> None" and "conv t = Some v"
  shows "opt_default conv d name (g @ [(name, t)]) = Some v" and "opt_required conv name (g @ [(name, t)]) = Some v"
proof -
  have "\<exists>vs. convert_all conv (texts_of name g) = Some vs"
    using assms(1) convert_all_None [of conv "texts_of name g"] by (metis image_iff list.set_map not_None_eq)
  then obtain vs where "map conv (texts_of name g) = map Some vs" by (auto simp: convert_all_Some)
  then have "convert_all conv (texts_of name g @ [t]) = Some (vs @ [v])" using assms(2) by (simp add: convert_all_Some)
  then show "opt_default conv d name (g @ [(name, t)]) = Some v" "opt_required conv name (g @ [(name, t)]) = Some v"
    by (simp_all add: opt_default_def opt_required_def)
qed

lemma opt_bad:
  assumes "(name, t) \<in> set g" and "conv t = None"
  shows "opt_default conv d name g = None" and "opt_required conv name g = None"
proof -
  have "None \<in> set (map conv (texts_of name g))" using texts_of_given [OF assms(1)] assms(2) by force
  then have "convert_all conv (texts_of name g) = None" by (simp only: convert_all_None)
  then show "opt_default conv d name g = None" "opt_required conv name g = None"
    by (simp_all add: opt_default_def opt_required_def)
qed

lemma opt_default_choice:
  assumes "opt_default (type_choice cs) d name g = Some v"
  shows "v = d \<or> v \<in> set cs"
proof -
  obtain vs where vs: "map (type_choice cs) (texts_of name g) = map Some vs" "v = (if vs = [] then d else last vs)"
    using assms by (auto simp: opt_default_def convert_all_Some)
  have "u \<in> set cs" if "u \<in> set vs" for u
  proof -
    have "Some u \<in> set (map (type_choice cs) (texts_of name g))" unfolding vs(1) using that by simp
    then show ?thesis by (auto simp: type_choice_def split: if_splits)
  qed
  then show ?thesis using vs(2) by (cases "vs = []") simp_all
qed

end
