(* ===== verification/Workload.thy ===== *)
theory Workload
  imports Talker Flood PyJson Effects Options
begin

text \<open>
  The four workload programs as their operating system sees them: \<open>main\<close> of
  \<open>workload/listener.py\<close>, \<open>talker.py\<close>, \<open>be_flood.py\<close> and \<open>udp_sink.py\<close>, from the
  socket they open to the files they leave behind, around the loops of the theories Listener,
  Talker and Flood. A program is its trace of system calls with the value it returns, the exception it
  ends with, or nothing when it is still waiting; its arguments come from the options given on its
  command line. The lemmas show in which order sockets and
  files are touched and that the files read back as what was measured.
\<close>

section \<open>System calls\<close>

text \<open>
  The calls: options of the one socket a program opens, name resolution, signal handlers, and files
  that are created or truncated, written and closed.
\<close>

datatype sys_call =
    Socket
  | SetSockOpt int int int
  | Bind string int
  | SetTimeout f64
  | CloseSocket
  | Resolve string
  | SetHandler int
  | MakeDirs string
  | OpenFile string
  | WriteText string string
  | CloseFile string

type_synonym 'a sys = "(sys_call, 'a) eff"

text \<open>A program's run: its trace so far, and how it ended (\<open>None\<close>: it has not).\<close>

type_synonym 'a prog = "sys_call list \<times> 'a res option"

text \<open>The Linux values of the socket constants and signals.\<close>

definition SO_REUSEADDR :: int where "SO_REUSEADDR = 2"
definition SO_SNDBUF :: int where "SO_SNDBUF = 7"
definition SO_RCVBUF :: int where "SO_RCVBUF = 8"
definition SO_PRIORITY :: int where "SO_PRIORITY = 12"
definition IP_RECVTOS :: int where "IP_RECVTOS = 13"
definition SO_TIMESTAMPNS_NEW :: int where "SO_TIMESTAMPNS_NEW = 64"
definition SIGINT :: int where "SIGINT = 2"
definition SIGTERM :: int where "SIGTERM = 15"

text \<open>\<open>os.path.dirname\<close>, and the directory that is created for a path.\<close>

definition os_dirname :: "string \<Rightarrow> string" where
  "os_dirname p =
     (let head = rev (dropWhile (\<lambda>c. c \<noteq> CHR ''/'') (rev p))
      in if head \<noteq> [] \<and> head \<noteq> replicate (length head) (CHR ''/'')
         then rev (dropWhile (\<lambda>c. c = CHR ''/'') (rev head)) else head)"

definition dir_or_dot :: "string \<Rightarrow> string" where
  "dir_or_dot p = (if os_dirname p = [] then ''.'' else os_dirname p)"

text \<open>\<open>with open(path, "w") as f\<close>: the file is closed whether or not the block raises.\<close>

definition with_open :: "(sys_call \<Rightarrow> unit res) \<Rightarrow> string \<Rightarrow> 'a sys \<Rightarrow> 'a sys" where
  "with_open os p body = io_bind (perform os (OpenFile p)) (\<lambda>_. io_finally body (perform os (CloseFile p)))"

text \<open>What a file holds after a trace: opening empties it, writing appends.\<close>

fun file_text :: "string \<Rightarrow> sys_call list \<Rightarrow> string option \<Rightarrow> string option" where
  "file_text p [] t = t"
| "file_text p (OpenFile q # tr) t = file_text p tr (if p = q then Some [] else t)"
| "file_text p (WriteText q s # tr) t = file_text p tr (if p = q then map_option (\<lambda>u. u @ s) t else t)"
| "file_text p (_ # tr) t = file_text p tr t"

section \<open>The listener\<close>

record listener_opts =
  lo_args :: listener_args
  lo_port :: int
  lo_timeout :: f64
  lo_output :: string
  lo_ready_file :: string

text \<open>The command line's options with their types and defaults; the byte order is the host's.\<close>

definition listener_options :: "bool \<Rightarrow> given \<Rightarrow> listener_opts option" where
  "listener_options little g =
     Option.bind (opt_default type_int 6000 ''--port'' g) (\<lambda>port.
     Option.bind (opt_default type_float (Num 1) ''--interval'' g) (\<lambda>interval.
     Option.bind (opt_default type_float (Num 30) ''--timeout'' g) (\<lambda>timeout.
     Option.bind (opt_default type_str ''results.csv'' ''--output'' g) (\<lambda>output.
     Option.bind (opt_default type_str [] ''--ready-file'' g) (\<lambda>ready_file.
     Some \<lparr>lo_args = \<lparr>la_interval = interval, la_record_tos = opt_flag ''--record-tos'' g,
              la_kernel_ts = opt_flag ''--kernel-ts'' g, la_little = little, la_quiet = opt_flag ''--quiet'' g\<rparr>,
           lo_port = port, lo_timeout = timeout, lo_output = output, lo_ready_file = ready_file\<rparr>)))))"

definition listener_socket :: "listener_opts \<Rightarrow> sys_call list" where
  "listener_socket ops =
     [Socket, SetSockOpt SOL_SOCKET SO_RCVBUF (4 * 1024 * 1024)]
     @ (if la_record_tos (lo_args ops) then [SetSockOpt IPPROTO_IP IP_RECVTOS 1] else [])
     @ (if la_kernel_ts (lo_args ops) then [SetSockOpt SOL_SOCKET SO_TIMESTAMPNS_NEW 1] else [])
     @ [Bind ''0.0.0.0'' (lo_port ops), SetTimeout (lo_timeout ops)]"

definition write_ready_file :: "(sys_call \<Rightarrow> unit res) \<Rightarrow> int \<Rightarrow> string \<Rightarrow> unit sys" where
  "write_ready_file os pid p =
     (if p = [] then io_return ()
      else io_bind (perform os (MakeDirs (dir_or_dot p))) (\<lambda>_. with_open os p (perform os (WriteText p (int_str pid)))))"

definition listener_setup :: "(sys_call \<Rightarrow> unit res) \<Rightarrow> int \<Rightarrow> listener_opts \<Rightarrow> unit sys" where
  "listener_setup os pid ops =
     io_bind (perform_all os (listener_socket ops)) (\<lambda>_. write_ready_file os pid (lo_ready_file ops))"

text \<open>The CSV writer writes the header and then row by row.\<close>

definition csv_calls :: "string \<Rightarrow> row list \<Rightarrow> sys_call list" where
  "csv_calls p rows = map (\<lambda>r. WriteText p (csv_write_row r)) (row_keys (hd rows) # map row_fields rows)"

definition save_results :: "(sys_call \<Rightarrow> unit res) \<Rightarrow> string \<Rightarrow> row list \<Rightarrow> unit sys" where
  "save_results os p rows =
     io_bind (perform os (MakeDirs (dir_or_dot p))) (\<lambda>_. with_open os p (perform_all os (csv_calls p rows)))"

definition listener_close ::
  "(sys_call \<Rightarrow> unit res) \<Rightarrow> listener_opts \<Rightarrow> listener_state \<Rightarrow> listener_report option sys" where
  "listener_close os ops st =
     io_bind (perform os CloseSocket) (\<lambda>_.
       if ls_results st = [] then io_return None
       else io_bind ([], report_rows (lo_args ops) (ls_total_bytes st) (ls_results st)) (\<lambda>rep.
            io_bind (save_results os (lo_output ops) (ls_results st)) (\<lambda>_. io_return (Some rep))))"

definition listener_program ::
  "(sys_call \<Rightarrow> unit res) \<Rightarrow> int \<Rightarrow> listener_opts \<Rightarrow> Listener.net_event list \<Rightarrow> listener_report option prog" where
  "listener_program os pid ops evs =
     (case int_of_f64 (f_mul (la_interval (lo_args ops)) (Num 1000000)) of
        Inl e \<Rightarrow> ([], Some (Inl e))
      | Inr iv \<Rightarrow>
          (case listener_setup os pid ops of
             (effs, Inl e) \<Rightarrow> (effs, Some (Inl e))
           | (effs, Inr _) \<Rightarrow>
               (case listener_loop (lo_args ops) iv listener_init evs of
                  None \<Rightarrow> (effs, None)
                | Some (Inl e) \<Rightarrow> (effs, Some (Inl e))
                | Some (Inr st) \<Rightarrow> (case listener_close os ops st of (effs', r) \<Rightarrow> (effs @ effs', Some r)))))"

section \<open>The talker\<close>

record talker_opts =
  to_args :: talker_args
  to_target :: string
  to_port :: int
  to_so_priority :: int
  to_log :: string

definition talker_options :: "given \<Rightarrow> talker_opts option" where
  "talker_options g =
     Option.bind (opt_required type_str ''--target'' g) (\<lambda>target.
     Option.bind (opt_default type_int 6000 ''--port'' g) (\<lambda>port.
     Option.bind (opt_default type_float (Num 1) ''--interval'' g) (\<lambda>interval.
     Option.bind (opt_default type_int 10000 ''--count'' g) (\<lambda>count.
     Option.bind (opt_default type_int 128 ''--size'' g) (\<lambda>size.
     Option.bind (opt_default type_int (-1) ''--so-priority'' g) (\<lambda>so_priority.
     Option.bind (opt_default type_str [] ''--log'' g) (\<lambda>log.
     Some \<lparr>to_args = \<lparr>ta_interval = interval, ta_count = count, ta_size = size, ta_quiet = opt_flag ''--quiet'' g\<rparr>,
           to_target = target, to_port = port, to_so_priority = so_priority, to_log = log\<rparr>)))))))"

text \<open>The resolver answers a name with the addresses of its entries, or raises.\<close>

definition resolve_first :: "(sys_call \<Rightarrow> unit res) \<Rightarrow> (string \<Rightarrow> string list res) \<Rightarrow> string \<Rightarrow> string sys" where
  "resolve_first os resolver name =
     io_bind (perform os (Resolve name)) (\<lambda>_. ([], res_bind (resolver name) (\<lambda>addrs. py_index addrs 0)))"

definition log_text :: "string \<Rightarrow> string" where
  "log_text l = l @ [LF]"

definition talker_calls :: "talker_opts \<Rightarrow> sys_call list" where
  "talker_calls ops =
     [Socket]
     @ (if 0 \<le> to_so_priority ops then [SetSockOpt SOL_SOCKET SO_PRIORITY (to_so_priority ops)] else [])
     @ (if to_log ops = [] then []
        else [MakeDirs (dir_or_dot (to_log ops)), OpenFile (to_log ops),
              WriteText (to_log ops) (log_text ''seq,send_time_ns,scheduled_time_ns,drift_us'')])"

definition talker_setup ::
  "(sys_call \<Rightarrow> unit res) \<Rightarrow> (string \<Rightarrow> string list res) \<Rightarrow> talker_opts \<Rightarrow> (string \<times> int) sys" where
  "talker_setup os resolver ops =
     io_bind (resolve_first os resolver (to_target ops)) (\<lambda>ip.
     io_bind (perform_all os (talker_calls ops)) (\<lambda>_. io_return (ip, to_port ops)))"

text \<open>The lines the loop wrote to the log, after the header.\<close>

definition log_calls :: "talker_opts \<Rightarrow> talker_state \<Rightarrow> sys_call list" where
  "log_calls ops st = (if to_log ops = [] then [] else map (\<lambda>l. WriteText (to_log ops) (log_text l)) (drop 1 (tk_log st)))"

definition talker_close :: "(sys_call \<Rightarrow> unit res) \<Rightarrow> talker_opts \<Rightarrow> unit sys" where
  "talker_close os ops = perform_all os ((if to_log ops = [] then [] else [CloseFile (to_log ops)]) @ [CloseSocket])"

text \<open>
  Writes to the open log are taken to succeed (they are buffered), and the lines are part of the
  trace once the loop has ended; the datagrams are in the loop's final state.
\<close>

definition talker_program ::
  "(sys_call \<Rightarrow> unit res) \<Rightarrow> (string \<Rightarrow> string list res) \<Rightarrow> talker_opts \<Rightarrow> int \<Rightarrow> int \<Rightarrow> tick list \<Rightarrow> int
     \<Rightarrow> ((string \<times> int) \<times> talker_state \<times> talker_report) prog" where
  "talker_program os resolver ops start_mono start_wall ticks end_mono =
     (case talker_setup os resolver ops of
        (effs, Inl e) \<Rightarrow> (effs, Some (Inl e))
      | (effs, Inr target) \<Rightarrow>
          (case interval_ns (to_args ops) of
             Inl e \<Rightarrow> (effs, Some (Inl e))
           | Inr iv \<Rightarrow>
               (case talker_loop (to_args ops) iv start_mono start_wall talker_init 0 ticks of
                  None \<Rightarrow> (effs, None)
                | Some (Inl e) \<Rightarrow> (effs, Some (Inl e))
                | Some (Inr st) \<Rightarrow>
                    (case io_bind ([], talker_finish (to_args ops) st start_mono end_mono) (\<lambda>rep.
                            io_bind (talker_close os ops) (\<lambda>_. io_return (target, st, rep))) of
                       (effs', r) \<Rightarrow> (effs @ log_calls ops st @ effs', Some r)))))"

section \<open>The flood and its sink\<close>

text \<open>The statistics of a run as \<open>json.dump\<close> writes them; an empty path asks for none.\<close>

definition write_stats :: "(sys_call \<Rightarrow> unit res) \<Rightarrow> string \<Rightarrow> json \<Rightarrow> unit sys" where
  "write_stats os p v =
     (if p = [] then io_return ()
      else with_open os p (io_bind ([], json_dumps True None v) (\<lambda>t. perform os (WriteText p t))))"

record flood_opts =
  fo_args :: flood_args
  fo_target :: string
  fo_port :: int
  fo_stats_file :: string

definition flood_options :: "given \<Rightarrow> flood_opts option" where
  "flood_options g =
     Option.bind (opt_required type_str ''--target'' g) (\<lambda>target.
     Option.bind (opt_default type_int 5001 ''--port'' g) (\<lambda>port.
     Option.bind (opt_default type_float (Num 30) ''--rate-mbps'' g) (\<lambda>rate_mbps.
     Option.bind (opt_default type_int 1400 ''--size'' g) (\<lambda>size.
     Option.bind (opt_default type_float (Num 15) ''--duration'' g) (\<lambda>duration.
     Option.bind (opt_default type_str [] ''--stats-file'' g) (\<lambda>stats_file.
     Some \<lparr>fo_args = \<lparr>fa_rate_mbps = rate_mbps, fa_size = size, fa_duration = duration\<rparr>,
           fo_target = target, fo_port = port, fo_stats_file = stats_file\<rparr>))))))"

definition flood_setup :: "(sys_call \<Rightarrow> unit res) \<Rightarrow> (string \<Rightarrow> string res) \<Rightarrow> flood_opts \<Rightarrow> (string \<times> int) sys" where
  "flood_setup os gethostbyname ops =
     io_bind (perform_all os [Socket, SetSockOpt SOL_SOCKET SO_SNDBUF (4 * 1024 * 1024), Resolve (fo_target ops)]) (\<lambda>_.
     io_bind ([], gethostbyname (fo_target ops)) (\<lambda>ip. io_return (ip, fo_port ops)))"

definition flood_json :: "flood_stats \<Rightarrow> json" where
  "flood_json s = JObj
     [(''sent'', JInt (int (fs_sent s))), (''errors'', JInt (int (fs_errors s))), (''elapsed_s'', JFloat (fs_elapsed_s s)),
      (''achieved_mbps'', JFloat (fs_achieved_mbps s)), (''offered_mbps'', JFloat (fs_offered_mbps s)),
      (''size'', JInt (fs_size s))]"

definition flood_program ::
  "(sys_call \<Rightarrow> unit res) \<Rightarrow> (string \<Rightarrow> string res) \<Rightarrow> flood_opts \<Rightarrow> int \<Rightarrow> flood_event list \<Rightarrow> int
     \<Rightarrow> ((string \<times> int) \<times> flood_stats) prog" where
  "flood_program os gethostbyname ops t0 evs t1 =
     (case flood_setup os gethostbyname ops of
        (effs, Inl e) \<Rightarrow> (effs, Some (Inl e))
      | (effs, Inr target) \<Rightarrow>
          (case flood_main (fo_args ops) t0 evs t1 of
             None \<Rightarrow> (effs, None)
           | Some r \<Rightarrow>
               (case io_bind (effs, r) (\<lambda>s. io_bind (write_stats os (fo_stats_file ops) (flood_json s)) (\<lambda>_. io_return (target, s))) of
                  (effs', r') \<Rightarrow> (effs', Some r'))))"

record sink_opts =
  so_port :: int
  so_stats_file :: string

definition sink_options :: "given \<Rightarrow> sink_opts option" where
  "sink_options g =
     Option.bind (opt_default type_int 5001 ''--port'' g) (\<lambda>port.
     Option.bind (opt_default type_str [] ''--stats-file'' g) (\<lambda>stats_file.
     Some \<lparr>so_port = port, so_stats_file = stats_file\<rparr>))"

definition sink_calls :: "sink_opts \<Rightarrow> sys_call list" where
  "sink_calls ops =
     [Socket, SetSockOpt SOL_SOCKET SO_REUSEADDR 1, SetSockOpt SOL_SOCKET SO_RCVBUF (8 * 1024 * 1024),
      Bind ''0.0.0.0'' (so_port ops), SetTimeout (f_lit (1 / 2)), SetHandler SIGTERM, SetHandler SIGINT]"

definition sink_json :: "sink_state \<Rightarrow> json" where
  "sink_json st = JObj [(''received'', JInt (int (sk_count st))), (''bytes'', JInt (int (sk_nbytes st)))]"

definition sink_program :: "(sys_call \<Rightarrow> unit res) \<Rightarrow> sink_opts \<Rightarrow> sink_event list \<Rightarrow> sink_state prog" where
  "sink_program os ops evs =
     (case perform_all os (sink_calls ops) of
        (effs, Inl e) \<Rightarrow> (effs, Some (Inl e))
      | (effs, Inr _) \<Rightarrow>
          (case sink_main evs of
             None \<Rightarrow> (effs, None)
           | Some st \<Rightarrow>
               (case io_bind (write_stats os (so_stats_file ops) (sink_json st)) (\<lambda>_. io_return st) of
                  (effs', r) \<Rightarrow> (effs @ effs', Some r))))"

section \<open>Options\<close>

text \<open>The senders do not start without a target.\<close>

lemma options_need_target:
  assumes "''--target'' \<notin> fst ` set g"
  shows "talker_options g = None" and "flood_options g = None"
  by (simp_all add: talker_options_def flood_options_def opt_absent(2) [OF assms])

text \<open>
  A talker that is given its target only and a listener that is given neither port nor numbers
  agree on port and interval, and so do the flood and its sink.
\<close>

lemma options_agree:
  assumes "fst ` set g \<subseteq> {''--target''}" and "talker_options g = Some tops"
    and "{''--port'', ''--interval'', ''--timeout''} \<inter> fst ` set g' = {}"
  shows "\<exists>lops. listener_options little g' = Some lops \<and> lo_port lops = to_port tops
    \<and> la_interval (lo_args lops) = ta_interval (to_args tops) \<and> to_so_priority tops < 0"
proof -
  have t: "''--port'' \<notin> fst ` set g" "''--interval'' \<notin> fst ` set g" "''--count'' \<notin> fst ` set g" "''--size'' \<notin> fst ` set g"
    "''--so-priority'' \<notin> fst ` set g" "''--log'' \<notin> fst ` set g" using assms(1) by auto
  have l: "''--port'' \<notin> fst ` set g'" "''--interval'' \<notin> fst ` set g'" "''--timeout'' \<notin> fst ` set g'" using assms(3) by auto
  have "convert_all type_str ts = Some ts" for ts by (simp add: convert_all_Some type_str_def)
  then have "\<exists>v. opt_default type_str d n g' = Some v" for d n by (simp add: opt_default_def)
  then obtain out rdy where "opt_default type_str ''results.csv'' ''--output'' g' = Some out" "opt_default type_str [] ''--ready-file'' g' = Some rdy"
    by meson
  then have "\<exists>lops. listener_options little g' = Some lops \<and> lo_port lops = 6000 \<and> la_interval (lo_args lops) = Num 1"
    by (simp add: listener_options_def opt_absent(1) [OF l(1)] opt_absent(1) [OF l(2)] opt_absent(1) [OF l(3)])
  moreover have "to_port tops = 6000 \<and> ta_interval (to_args tops) = Num 1 \<and> to_so_priority tops < 0"
    using assms(2) by (auto simp: talker_options_def opt_absent(1) [OF t(1)] opt_absent(1) [OF t(2)] opt_absent(1) [OF t(3)]
        opt_absent(1) [OF t(4)] opt_absent(1) [OF t(5)] opt_absent(1) [OF t(6)] split: bind_splits)
  ultimately show ?thesis by auto
qed

section \<open>Files\<close>

fun file_call :: "sys_call \<Rightarrow> bool" where
  "file_call (MakeDirs d) = True"
| "file_call (OpenFile p) = True"
| "file_call (WriteText p t) = True"
| "file_call (CloseFile p) = True"
| "file_call _ = False"

fun call_path :: "sys_call \<Rightarrow> string option" where
  "call_path (OpenFile p) = Some p"
| "call_path (WriteText p t) = Some p"
| "call_path (CloseFile p) = Some p"
| "call_path _ = None"

lemma file_text_append: "file_text p (tr @ tr') t = file_text p tr' (file_text p tr t)"
  by (induction p tr t rule: file_text.induct) simp_all

lemma file_text_other: "list_all (\<lambda>c. call_path c \<noteq> Some p) tr \<Longrightarrow> file_text p tr t = t"
  by (induction p tr t rule: file_text.induct) (auto split: if_splits)

lemma file_text_writes: "file_text p (map (\<lambda>x. WriteText p (f x)) xs) (Some t) = Some (t @ concat (map f xs))"
  by (induction xs arbitrary: t) simp_all

text \<open>With an operating system that accepts every call, a \<open>with\<close> block is its three parts in order.\<close>

lemma with_open_ok:
  assumes "\<And>c. os c = Inr ()" and "body = (tr, Inr x)"
  shows "with_open os p body = (OpenFile p # tr @ [CloseFile p], Inr x)"
  using assms by (simp add: with_open_def io_finally_def)

lemma write_ready_file_ok:
  assumes "\<And>c. os c = Inr ()"
  shows "write_ready_file os pid p =
    (if p = [] then [] else [MakeDirs (dir_or_dot p), OpenFile p, WriteText p (int_str pid), CloseFile p], Inr ())"
  using assms by (simp add: write_ready_file_def with_open_ok)

lemma save_results_ok:
  assumes "\<And>c. os c = Inr ()"
  shows "save_results os p rows = (MakeDirs (dir_or_dot p) # OpenFile p # csv_calls p rows @ [CloseFile p], Inr ())"
proof -
  have "perform_all os (csv_calls p rows) = (csv_calls p rows, Inr ())" using assms by (intro perform_all_ok)
  from with_open_ok [of os, OF assms this] show ?thesis using assms by (simp add: save_results_def)
qed

lemma csv_calls_text: "file_text p (csv_calls p rows) (Some []) = Some (listener_csv rows)"
  unfolding csv_calls_def file_text_writes by (simp add: listener_csv_def csv_write_def comp_def)

lemma csv_calls_path: "c \<in> set (csv_calls p rows) \<Longrightarrow> call_path c = Some p \<and> file_call c"
  by (auto simp: csv_calls_def)

lemma call_path_socket: "c \<in> set (listener_socket ops) \<Longrightarrow> call_path c = None"
  by (auto simp: listener_socket_def split: if_splits)

lemma write_stats_ok:
  assumes "\<And>c. os c = Inr ()" and "p \<noteq> []" and "json_ok v"
  obtains t where "write_stats os p v = ([OpenFile p, WriteText p t, CloseFile p], Inr ())" "json_read t = Some v"
proof -
  obtain t where t: "json_dumps True None v = Inr t" using json_dump_total [OF assms(3), of True None 0] by (auto simp: json_dumps_def)
  then have "write_stats os p v = ([OpenFile p, WriteText p t, CloseFile p], Inr ())"
    using assms(1,2) by (simp add: write_stats_def with_open_ok)
  then show ?thesis using that json_read_dumps [OF t assms(3)] by blast
qed

section \<open>The order of the listener's calls\<close>

lemma listener_setup_done:
  assumes "snd (perform_all os (listener_socket ops)) = Inr x"
  shows "set [Bind ''0.0.0.0'' (lo_port ops), SetTimeout (lo_timeout ops)] \<subseteq> set (fst (perform_all os (listener_socket ops)))"
  unfolding perform_all_done [OF assms] by (auto simp: listener_socket_def)

lemma socket_no_files: "c \<in> set (fst (perform_all os (listener_socket ops))) \<Longrightarrow> \<not> file_call c \<and> call_path c = None"
  by (drule perform_all_calls) (auto simp: listener_socket_def split: if_splits)

text \<open>The set-up and the closing part touch files only once the port is bound and, apart from the ready file, the socket closed.\<close>

lemma setup_files_after_bind:
  "only_after [Bind ''0.0.0.0'' (lo_port ops), SetTimeout (lo_timeout ops)] file_call (fst (listener_setup os pid ops))"
  unfolding listener_setup_def
proof (rule only_after_bind)
  show "only_after [Bind ''0.0.0.0'' (lo_port ops), SetTimeout (lo_timeout ops)] file_call (fst (perform_all os (listener_socket ops)))"
    by (rule only_after_never) (use socket_no_files in blast)
next
  fix x assume "snd (perform_all os (listener_socket ops)) = Inr x"
  then show "only_after (filter (\<lambda>g. g \<notin> set (fst (perform_all os (listener_socket ops)))) [Bind ''0.0.0.0'' (lo_port ops), SetTimeout (lo_timeout ops)])
     file_call (fst (write_ready_file os pid (lo_ready_file ops)))"
    using listener_setup_done by auto
qed

lemma setup_done:
  assumes "snd (listener_setup os pid ops) = Inr x"
  shows "set [Bind ''0.0.0.0'' (lo_port ops), SetTimeout (lo_timeout ops)] \<subseteq> set (fst (listener_setup os pid ops))"
proof (cases "perform_all os (listener_socket ops)")
  case (Pair effs r)
  then obtain y where "r = Inr y" using assms by (cases r) (simp_all add: listener_setup_def)
  then show ?thesis using listener_setup_done [of os ops y] Pair by (auto simp: listener_setup_def)
qed

lemma ready_file_path: "c \<in> set (fst (write_ready_file os pid p)) \<Longrightarrow> call_path c = None \<or> call_path c = Some p"
  unfolding write_ready_file_def with_open_def io_bind_calls io_finally_calls
  by (auto simp: io_bind_calls io_finally_calls dest!: perform_calls split: if_splits)

lemma setup_paths: "c \<in> set (fst (listener_setup os pid ops)) \<Longrightarrow> call_path c = None \<or> call_path c = Some (lo_ready_file ops)"
  using ready_file_path socket_no_files unfolding listener_setup_def io_bind_calls by blast

lemma close_starts: "fst (listener_close os ops st) = [] \<or> (\<exists>tr. fst (listener_close os ops st) = CloseSocket # tr)"
  by (cases "os CloseSocket") (simp_all add: listener_close_def)

text \<open>The trace of a run: the set-up, followed by the closing part once the loop has ended.\<close>

lemma listener_trace:
  "fst (listener_program os pid ops evs) = [] \<or> fst (listener_program os pid ops evs) = fst (listener_setup os pid ops)
   \<or> (\<exists>st. (\<exists>x. snd (listener_setup os pid ops) = Inr x)
        \<and> fst (listener_program os pid ops evs) = fst (listener_setup os pid ops) @ fst (listener_close os ops st))"
proof (cases "int_of_f64 (f_mul (la_interval (lo_args ops)) (Num 1000000))")
  case (Inr iv)
  obtain effs r where s: "listener_setup os pid ops = (effs, r)" by (cases "listener_setup os pid ops")
  show ?thesis
  proof (cases r)
    case (Inr x)
    show ?thesis
    proof (cases "listener_loop (lo_args ops) iv listener_init evs")
      case (Some l)
      then show ?thesis
        using s Inr \<open>int_of_f64 _ = Inr iv\<close> by (cases l) (auto simp: listener_program_def case_prod_beta)
    qed (use s Inr \<open>int_of_f64 _ = Inr iv\<close> in \<open>simp add: listener_program_def\<close>)
  qed (use s Inr in \<open>simp add: listener_program_def\<close>)
qed (simp add: listener_program_def)

lemma save_results_calls: "c \<in> set (fst (save_results os p rows)) \<Longrightarrow> file_call c"
  unfolding save_results_def with_open_def io_bind_calls io_finally_calls
  by (auto dest!: perform_calls perform_all_calls csv_calls_path)

lemma listener_files_after_bind:
  "only_after [Bind ''0.0.0.0'' (lo_port ops), SetTimeout (lo_timeout ops)] file_call (fst (listener_program os pid ops evs))"
  using listener_trace [of os pid ops evs]
proof (elim disjE exE conjE)
  fix st x assume "snd (listener_setup os pid ops) = Inr x"
    and tr: "fst (listener_program os pid ops evs) = fst (listener_setup os pid ops) @ fst (listener_close os ops st)"
  then show ?thesis using setup_done [of os pid ops x] setup_files_after_bind by (simp add: tr)
qed (simp_all add: setup_files_after_bind)

lemma listener_files_after_close:
  "only_after [CloseSocket] (\<lambda>c. call_path c \<noteq> None \<and> call_path c \<noteq> Some (lo_ready_file ops)) (fst (listener_program os pid ops evs))"
  (is "only_after ?gs ?P _")
proof -
  have set_up: "only_after ?gs ?P (fst (listener_setup os pid ops))"
    by (rule only_after_never, drule setup_paths) auto
  moreover have "only_after ?gs ?P (fst (listener_close os ops st))" for st
    using close_starts [of os ops st] by auto
  ultimately show ?thesis using listener_trace [of os pid ops evs] by auto
qed

lemma listener_calls:
  assumes "c \<in> set (fst (listener_program os pid ops evs))"
  shows "c \<in> set (listener_socket ops) \<or> file_call c \<or> c = CloseSocket"
proof -
  have rdy: "file_call c" if "c \<in> set (fst (write_ready_file os pid p))" for p
    using that unfolding write_ready_file_def with_open_def
    by (auto simp: io_bind_calls io_finally_calls dest!: perform_calls split: if_splits)
  then have "c \<in> set (listener_socket ops) \<or> file_call c" if "c \<in> set (fst (listener_setup os pid ops))"
    using that perform_all_calls [of c os] unfolding listener_setup_def io_bind_calls by blast
  moreover have "file_call c \<or> c = CloseSocket" if "c \<in> set (fst (listener_close os ops st))" for st
    using that unfolding listener_close_def
    by (cases "ls_results st = []") (auto simp: io_bind_calls dest!: perform_calls save_results_calls)
  ultimately show ?thesis using listener_trace [of os pid ops evs] assms by auto
qed

lemma listener_bind_fails:
  assumes "os (Bind ''0.0.0.0'' (lo_port ops)) \<noteq> Inr ()"
  shows "\<exists>e. listener_program os pid ops evs = (fst (listener_program os pid ops evs), Some (Inl e))"
    and "c \<in> set (fst (listener_program os pid ops evs)) \<Longrightarrow> \<not> file_call c"
proof -
  have "Bind ''0.0.0.0'' (lo_port ops) \<in> set (listener_socket ops)" by (simp add: listener_socket_def)
  from perform_all_raises(1) [of "Bind ''0.0.0.0'' (lo_port ops)" "listener_socket ops" os, OF this assms] obtain e where e: "snd (perform_all os (listener_socket ops)) = Inl e" ..
  have "perform_all os (listener_socket ops) = (fst (perform_all os (listener_socket ops)), Inl e)"
    by (rule prod_eqI) (simp_all only: e prod.sel)
  from arg_cong [OF this, of "\<lambda>m. io_bind m (\<lambda>_. write_ready_file os pid (lo_ready_file ops))"]
  have s: "listener_setup os pid ops = (fst (perform_all os (listener_socket ops)), Inl e)"
    unfolding listener_setup_def io_bind_simps .
  show "\<exists>e. listener_program os pid ops evs = (fst (listener_program os pid ops evs), Some (Inl e))"
    by (simp add: listener_program_def s split: sum.split)
  show "\<not> file_call c" if "c \<in> set (fst (listener_program os pid ops evs))"
    using that socket_no_files [of c os ops] by (auto simp: listener_program_def s split: sum.splits)
qed

section \<open>The rows of a run\<close>

text \<open>Datagrams as UDP can deliver them, with send stamps and receive times that fit 64 signed bits.\<close>

fun event_fits :: "Listener.net_event \<Rightarrow> bool" where
  "event_fits (Listener.Datagram d anc t) \<longleftrightarrow> length d \<le> 65535 \<and> be_int (take 8 (drop 4 d)) < 2 ^ 63 \<and> int64 t"
| "event_fits _ \<longleftrightarrow> True"

definition row_fits :: "listener_args \<Rightarrow> row \<Rightarrow> bool" where
  "row_fits a r \<longleftrightarrow> row_ok (la_record_tos a) (la_kernel_ts a) r \<and> 0 \<le> row_seq r
     \<and> \<not> is_nan (row_latency_ms r) \<and> \<not> is_nan (row_jitter_us r)"

lemma make_row_numbers:
  "0 \<le> row_seq (make_row a iv prev d tos k t) \<and> \<not> is_nan (row_latency_ms (make_row a iv prev d tos k t))
   \<and> \<not> is_nan (row_jitter_us (make_row a iv prev d tos k t))"
proof -
  have "\<not> is_nan (f_div (f_of_int n) (Num 1000000))" "\<not> is_nan (f_div (f_of_int n) (Num 1000))" for n
    by (simp_all add: f_div_def Let_def)
  then show ?thesis by (simp add: make_row_def unpack_header_def be_int_range split: option.split)
qed

lemma rows_of_accepted: "list_all event_fits evs \<Longrightarrow> list_all (row_fits a) (rows_of a iv prev (accepted a evs))"
proof (induction a evs arbitrary: prev rule: accepted.induct)
  case (2 a d anc t evs)
  show ?case
  proof (cases "recv_one (la_little a) (la_record_tos a) (la_kernel_ts a) d anc")
    case (Inr x)
    then obtain data tos k where x: "recv_one (la_little a) (la_record_tos a) (la_kernel_ts a) d anc = Inr (data, tos, k)"
      by (cases x) auto
    have d: "data = d" using recv_one_data [OF x] .
    show ?thesis
    proof (cases "length data < PKT_HEADER_SIZE")
      case False
      then have "row_fits a (make_row a iv prev d tos k t)"
        using make_row_ok [OF x [unfolded d], of t iv prev] 2(4) make_row_numbers by (simp add: row_fits_def d)
      then show ?thesis using 2 x d False by simp
    qed (use 2 x d in simp)
  qed (use 2 in simp)
qed simp_all

lemma length_accepted: "length (accepted a evs) \<le> length evs"
proof (induction evs)
  case (Cons ev evs)
  then show ?case by (cases ev) (auto split: sum.split intro: le_SucI)
qed simp

lemma listener_rows_fit:
  assumes "listener_loop a iv listener_init evs = Some (Inr st)" and "list_all event_fits evs"
  shows "list_all (row_fits a) (ls_results st)" and "length (ls_results st) \<le> length evs"
proof -
  obtain pre ev post where p: "evs = pre @ ev # post" "ls_results st = rows_of a iv None (accepted a pre)"
    using listener_loop_exact [OF assms(1), of "[]"] by (auto simp: listener_init_def)
  then show "list_all (row_fits a) (ls_results st)" using rows_of_accepted [of pre a iv None] assms(2) by simp
  show "length (ls_results st) \<le> length evs" using p length_accepted [of a pre] by simp
qed

text \<open>The traces of set-up and closing on an operating system that accepts every call.\<close>

lemma listener_setup_ok:
  assumes "\<And>c. os c = Inr ()"
  shows "listener_setup os pid ops = (listener_socket ops @ fst (write_ready_file os pid (lo_ready_file ops)), Inr ())"
proof -
  have s: "perform_all os (listener_socket ops) = (listener_socket ops, Inr ())" using assms by (intro perform_all_ok)
  show ?thesis unfolding listener_setup_def s io_bind_simps write_ready_file_ok [of os, OF assms] by simp
qed

lemma listener_close_ok:
  assumes "\<And>c. os c = Inr ()" and "list_all (row_fits (lo_args ops)) (ls_results st)" and "int (length (ls_results st)) \<le> 2 ^ 46"
    and "ls_results st \<noteq> []"
  obtains rep where "listener_close os ops st = (CloseSocket # fst (save_results os (lo_output ops) (ls_results st)), Inr (Some rep))"
proof -
  have "list_all (\<lambda>r. 0 \<le> row_seq r \<and> \<not> is_nan (row_latency_ms r) \<and> \<not> is_nan (row_jitter_us r)) (ls_results st)"
    using assms(2) by (simp add: list_all_iff row_fits_def)
  from report_rows_total [OF assms(4,3) this, of "lo_args ops" "ls_total_bytes st"] obtain rep where
    rep: "report_rows (lo_args ops) (ls_total_bytes st) (ls_results st) = Inr rep" by blast
  have "listener_close os ops st = (CloseSocket # fst (save_results os (lo_output ops) (ls_results st)), Inr (Some rep))"
    unfolding listener_close_def rep using assms(1,4) by (simp add: save_results_ok)
  then show ?thesis by (rule that)
qed

lemma saved_text:
  assumes "\<And>c. os c = Inr ()"
  shows "file_text p (fst (save_results os p rows)) t = Some (listener_csv rows)"
    and "q \<noteq> p \<Longrightarrow> file_text q (fst (save_results os p rows)) t = t"
  unfolding save_results_ok [of os, OF assms]
  by (simp_all add: file_text_append csv_calls_text file_text_other list_all_iff csv_calls_path)

lemma setup_text:
  assumes "\<And>c. os c = Inr ()"
  shows "q \<noteq> lo_ready_file ops \<Longrightarrow> file_text q (fst (listener_setup os pid ops)) t = t"
    and "lo_ready_file ops \<noteq> [] \<Longrightarrow> file_text (lo_ready_file ops) (fst (listener_setup os pid ops)) t = Some (int_str pid)"
proof -
  have s: "file_text q (listener_socket ops) t = t" for q t
    by (rule file_text_other) (simp add: list_all_iff call_path_socket)
  show "q \<noteq> lo_ready_file ops \<Longrightarrow> file_text q (fst (listener_setup os pid ops)) t = t"
    "lo_ready_file ops \<noteq> [] \<Longrightarrow> file_text (lo_ready_file ops) (fst (listener_setup os pid ops)) t = Some (int_str pid)"
    unfolding listener_setup_ok [of os, OF assms] write_ready_file_ok [of os, OF assms]
    by (simp_all add: file_text_append s)
qed

text \<open>A run with accepted calls leaves the recorded rows in its output file.\<close>

lemma listener_run_saves:
  assumes "\<And>c. os c = Inr ()" and "int_of_f64 (f_mul (la_interval (lo_args ops)) (Num 1000000)) = Inr iv"
    and "listener_loop (lo_args ops) iv listener_init evs = Some (Inr st)"
    and "list_all event_fits evs" and "int (length evs) \<le> 2 ^ 46"
    and "parse_name (path_stem name) = Inr (c, k)" and "lo_ready_file ops \<noteq> lo_output ops"
  shows "\<exists>tr r. listener_program os pid ops evs = (tr, Some (Inr r))
    \<and> (r = None \<longleftrightarrow> ls_results st = [])
    \<and> (ls_results st = [] \<longrightarrow> file_text (lo_output ops) tr None = None)
    \<and> (ls_results st \<noteq> [] \<longrightarrow> (\<exists>text run. file_text (lo_output ops) tr None = Some text
         \<and> load_csv name text = Inr run \<and> run_condition run = c \<and> run_index run = k
         \<and> run_seq run = map row_seq (ls_results st) \<and> send_ns run = map row_send_ns (ls_results st)
         \<and> recv_ns run = map row_recv_ns (ls_results st) \<and> latency_ms run = map row_latency_ms (ls_results st)
         \<and> jitter_us run = map row_jitter_us (ls_results st) \<and> pkt_size run = map row_pkt_size (ls_results st)
         \<and> run_tos run = (if la_record_tos (lo_args ops) then Some (map (\<lambda>r. the (row_tos r)) (ls_results st)) else None)
         \<and> (la_kernel_ts (lo_args ops) \<longrightarrow> (\<exists>h body. csv_reader text = (h # body, None) \<and> ''recv_kernel_ns'' \<in> set h
              \<and> map (\<lambda>r. cell h r ''recv_kernel_ns'') body = map (\<lambda>r. int_str (the (row_recv_kernel_ns r))) (ls_results st)))))
    \<and> (lo_ready_file ops \<noteq> [] \<longrightarrow> file_text (lo_ready_file ops) tr None = Some (int_str pid))"
proof -
  let ?a = "lo_args ops" and ?rows = "ls_results st" and ?su = "fst (listener_setup os pid ops)"
  have su: "listener_setup os pid ops = (?su, Inr ())" by (simp add: listener_setup_ok [of os, OF assms(1)])
  have run: "listener_program os pid ops evs = (?su @ fst (listener_close os ops st), Some (snd (listener_close os ops st)))"
    unfolding listener_program_def assms(2) by (subst su) (simp add: assms(3) case_prod_beta)
  note fits = listener_rows_fit [OF assms(3,4)]
  show ?thesis
  proof (cases "?rows = []")
    case True
    then have "listener_close os ops st = ([CloseSocket], Inr None)" using assms(1) by (simp add: listener_close_def)
    then show ?thesis using run True assms(7) setup_text [of os, OF assms(1)] by (auto simp: file_text_append)
  next
    case False
    have "int (length ?rows) \<le> 2 ^ 46" using fits(2) assms(5) by linarith
    then obtain rep where cl: "listener_close os ops st = (CloseSocket # fst (save_results os (lo_output ops) ?rows), Inr (Some rep))"
      using listener_close_ok [of os, OF assms(1) fits(1) _ False] by blast
    have "list_all (row_ok (la_record_tos ?a) (la_kernel_ts ?a)) ?rows" using fits(1) by (simp add: list_all_iff row_fits_def)
    note csv = listener_csv_loads [OF False this assms(6)] and ok = this
    have kernel: "la_kernel_ts ?a \<longrightarrow> (\<exists>h body. csv_reader (listener_csv ?rows) = (h # body, None) \<and> ''recv_kernel_ns'' \<in> set h
        \<and> map (\<lambda>r. cell h r ''recv_kernel_ns'') body = map (\<lambda>r. int_str (the (row_recv_kernel_ns r))) ?rows)"
      using listener_csv_kernel [OF False] ok by (cases "la_kernel_ts ?a") simp_all
    show ?thesis unfolding run cl
      by (intro exI [of _ "?su @ CloseSocket # fst (save_results os (lo_output ops) ?rows)"] exI [of _ "Some rep"])
        (use False csv kernel assms(7) setup_text [of os, OF assms(1)] saved_text [of os, OF assms(1)] in \<open>auto simp: file_text_append\<close>)
  qed
qed

lemma listener_run_saved:
  assumes "\<And>c. os c = Inr ()" and "int_of_f64 (f_mul (la_interval (lo_args ops)) (Num 1000000)) = Inr iv"
    and "listener_loop (lo_args ops) iv listener_init evs = Some (Inr st)"
    and "list_all event_fits evs" and "int (length evs) \<le> 2 ^ 46"
    and "parse_name (path_stem name) = Inr (c, k)" and "lo_ready_file ops \<noteq> lo_output ops"
    and "ls_results st \<noteq> []"
  obtains tr rep csv run where "listener_program os pid ops evs = (tr, Some (Inr (Some rep)))"
    and "file_text (lo_output ops) tr None = Some csv" and "load_csv name csv = Inr run"
    and "run_seq run = map row_seq (ls_results st)" and "send_ns run = map row_send_ns (ls_results st)"
    and "recv_ns run = map row_recv_ns (ls_results st)" and "latency_ms run = map row_latency_ms (ls_results st)"
    and "run_tos run = (if la_record_tos (lo_args ops) then Some (map (\<lambda>r. the (row_tos r)) (ls_results st)) else None)"
proof -
  note saves = listener_run_saves [of os ops iv evs st name c k pid, OF assms(1-7)]
  from saves [unfolded not_None_eq] assms(8) show ?thesis
    by (elim exE conjE) (metis that not_None_eq)
qed

section \<open>The talker's run\<close>

lemma talker_setup_ok:
  assumes "\<And>c. os c = Inr ()" and "resolver (to_target ops) = Inr (ip # ips)"
  shows "talker_setup os resolver ops = (Resolve (to_target ops) # talker_calls ops, Inr (ip, to_port ops))"
proof -
  have s: "perform_all os (talker_calls ops) = (talker_calls ops, Inr ())" using assms(1) by (intro perform_all_ok)
  show ?thesis using assms by (simp add: talker_setup_def resolve_first_def py_index_def s)
qed

lemma log_file_text:
  assumes "to_log ops \<noteq> []" and "tk_log st = ''seq,send_time_ns,scheduled_time_ns,drift_us'' # ls" and "os_close = [CloseFile (to_log ops), CloseSocket]"
  shows "file_text (to_log ops) ((Resolve n # talker_calls ops) @ log_calls ops st @ os_close) t = Some (concat (map log_text (tk_log st)))"
  using assms file_text_writes [of "to_log ops" log_text ls "log_text ''seq,send_time_ns,scheduled_time_ns,drift_us''"]
  by (simp add: file_text_append talker_calls_def log_calls_def)

text \<open>The loop appends to the log and keeps its header first.\<close>

lemma talker_send_log: "talker_send a iv sm sw st seq now wall ok = Inr st' \<Longrightarrow> \<exists>l. tk_log st' = tk_log st @ [l]"
  by (auto simp: talker_send_def Let_def res_bind_Inr_conv)

lemma talker_turn_log: "talker_turn a iv sm sw st seq now wall ok later_ns = Inr st' \<Longrightarrow> \<exists>l. tk_log st' = tk_log st @ [l]"
  using talker_send_log by (fastforce simp: talker_turn_def res_bind_Inr_conv)

lemma talker_loop_log:
  "talker_loop a iv sm sw st seq ticks = Some (Inr st') \<Longrightarrow> \<exists>ls. tk_log st' = tk_log st @ ls"
proof (induction ticks arbitrary: st seq)
  case Nil
  then show ?case by (simp add: talker_loop.simps [of a iv sm sw st seq] split: if_splits)
next
  case (Cons t ticks)
  show ?case
  proof (cases "ta_count a \<le> seq \<or> t = Break")
    case True
    then show ?thesis using Cons.prems by (auto simp: talker_loop.simps [of a iv sm sw st seq] split: if_splits)
  next
    case False
    then obtain rs wall ok later_ns where t: "t = Tick rs wall ok later_ns" by (cases t) auto
    with Cons.prems False obtain now sl st1 where "talker_turn a iv sm sw st seq now wall ok later_ns = Inr st1"
      and l: "talker_loop a iv sm sw st1 (seq + 1) ticks = Some (Inr st')"
      by (auto simp: talker_loop.simps [of a iv sm sw st seq] split: option.splits sum.splits)
    with talker_turn_log obtain x where "tk_log st1 = tk_log st @ [x]" by blast
    then show ?thesis using Cons.IH [OF l] by auto
  qed
qed

lemma drifts_not_nan:
  assumes "talker_loop a iv sm sw talker_init 0 ticks = Some (Inr st)" and "0 \<le> ta_count a"
  shows "no_nan (tk_drifts_us st)" and "length (tk_drifts_us st) = tk_sent st + tk_errors st"
proof -
  obtain n where n: "talker_added a iv sm 0 ticks n talker_init st" using talker_loop_added [OF assms] by blast
  then show "length (tk_drifts_us st) = tk_sent st + tk_errors st" by (auto simp: talker_added_def talker_init_def)
  have "\<not> is_nan (f_div (f_of_int k) (Num 1000))" for k by (simp add: f_div_def Let_def)
  moreover have "\<exists>k. tk_drifts_us st ! i = f_div (f_of_int k) (Num 1000)" if "i < length (tk_drifts_us st)" for i
    using n that by (auto simp: talker_added_def talker_init_def)
  ultimately show "no_nan (tk_drifts_us st)" unfolding no_nan_def list_all_length by metis
qed

definition close_calls :: "talker_opts \<Rightarrow> sys_call list" where
  "close_calls ops = (if to_log ops = [] then [] else [CloseFile (to_log ops)]) @ [CloseSocket]"

text \<open>A run whose loop ends computes its statistics and closes what it opened.\<close>

lemma talker_program_run:
  assumes "\<And>c. os c = Inr ()" and "resolver (to_target ops) = Inr (ip # ips)" and "interval_ns (to_args ops) = Inr iv"
    and "\<not> f_eq (interval_s (to_args ops)) (Num 0)" and "0 \<le> ta_count (to_args ops)" and "ta_count (to_args ops) \<le> 2 ^ 32"
    and "talker_loop (to_args ops) iv start_mono start_wall talker_init 0 ticks = Some (Inr st)"
  obtains rep where "talker_program os resolver ops start_mono start_wall ticks end_mono =
    ((Resolve (to_target ops) # talker_calls ops) @ log_calls ops st @ close_calls ops, Some (Inr ((ip, to_port ops), st, rep)))"
proof -
  note d = drifts_not_nan [OF assms(7,5)]
  obtain n where "n \<le> length ticks" "int n = ta_count (to_args ops) \<or> int n < ta_count (to_args ops) \<and> n < length ticks \<and> ticks ! n = Break"
      "talker_added (to_args ops) iv start_mono 0 ticks n talker_init st"
    using talker_loop_added [OF assms(7,5)] by auto
  then have "int (length (tk_drifts_us st)) \<le> ta_count (to_args ops)" by (auto simp: talker_added_def talker_init_def)
  then have "int (length (tk_drifts_us st)) \<le> 2 ^ 46" using assms(6) by simp
  then obtain rep where rep: "talker_finish (to_args ops) st start_mono end_mono = Inr rep"
    using talker_finish_cases [OF d(1)] assms(4) by blast
  have "perform_all os (close_calls ops) = (close_calls ops, Inr ())" using assms(1) by (intro perform_all_ok)
  then have cl: "talker_close os ops = (close_calls ops, Inr ())" by (simp add: talker_close_def close_calls_def)
  have "talker_program os resolver ops start_mono start_wall ticks end_mono =
    ((Resolve (to_target ops) # talker_calls ops) @ log_calls ops st @ close_calls ops, Some (Inr ((ip, to_port ops), st, rep)))"
    unfolding talker_program_def talker_setup_ok [of os resolver ops, OF assms(1,2)] by (simp add: assms(3,7) rep cl)
  then show ?thesis by (rule that)
qed

lemma talker_program_loop:
  assumes "talker_program os resolver ops start_mono start_wall ticks end_mono = (tr, Some (Inr (target, st, rep)))"
  obtains iv where "talker_loop (to_args ops) iv start_mono start_wall talker_init 0 ticks = Some (Inr st)"
proof -
  obtain effs r where s: "talker_setup os resolver ops = (effs, r)" by (cases "talker_setup os resolver ops")
  then obtain x where r: "r = Inr x" using assms by (cases r) (simp_all add: talker_program_def)
  then obtain iv where iv: "interval_ns (to_args ops) = Inr iv"
    using assms s by (cases "interval_ns (to_args ops)") (simp_all add: talker_program_def)
  obtain l where l: "talker_loop (to_args ops) iv start_mono start_wall talker_init 0 ticks = Some l"
    using assms s r iv by (cases "talker_loop (to_args ops) iv start_mono start_wall talker_init 0 ticks") (simp_all add: talker_program_def)
  then obtain st' where "l = Inr st'" using assms s r iv by (cases l) (simp_all add: talker_program_def)
  moreover from this have "st' = st"
    using assms s r iv l
    by (cases "talker_finish (to_args ops) st' start_mono end_mono"; cases "talker_close os ops"; cases "snd (talker_close os ops)")
      (auto simp: talker_program_def)
  ultimately show ?thesis using that l by simp
qed

section \<open>The statistics files\<close>

lemma length_datagrams: "length (datagrams evs) \<le> length evs"
  by (induction evs rule: datagrams.induct) simp_all

lemma sink_json_ok:
  assumes "sink_main evs = Some st" and "length evs < 2 ^ 63"
  shows "json_ok (sink_json st)"
proof -
  obtain pre e sigs post where e: "evs = pre @ Signal # sigs @ e # post" "sk_count st = length (datagrams (pre @ [e]))"
      "sk_nbytes st = sum_list (map (\<lambda>d. min (length d) 65535) (datagrams (pre @ [e])))"
    using assms(1) by (auto simp: sink_main_iff)
  have n: "length (datagrams (pre @ [e])) < 2 ^ 63" using length_datagrams [of "pre @ [e]"] e(1) assms(2) by simp
  have "sum_list (map (\<lambda>d. min (length d) 65535) ds) \<le> 65535 * length ds" for ds :: "bytes list"
    by (induction ds) auto
  from this [of "datagrams (pre @ [e])"] have "sk_nbytes st < 65535 * 2 ^ 63" unfolding e(3) using n by linarith
  then have "\<bar>int (sk_count st)\<bar> < 10 ^ 100" "\<bar>int (sk_nbytes st)\<bar> < 10 ^ 100" using n e(2) by simp_all
  note digits = this [THEN below_digit_limit_int]
  show ?thesis unfolding sink_json_def json_ok.simps list.pred_inject prod.case by (intro conjI digits list.pred_inject(1))
qed

lemma sink_program_run:
  assumes "\<And>c. os c = Inr ()"
  shows "sink_program os ops evs = (case sink_main evs of
     None \<Rightarrow> (sink_calls ops, None)
   | Some st \<Rightarrow> (sink_calls ops @ fst (write_stats os (so_stats_file ops) (sink_json st)),
        Some (res_bind (snd (write_stats os (so_stats_file ops) (sink_json st))) (\<lambda>_. Inr st))))"
proof -
  have s: "perform_all os (sink_calls ops) = (sink_calls ops, Inr ())" using assms by (intro perform_all_ok)
  have "io_bind m (\<lambda>_. io_return x) = (fst m, res_bind (snd m) (\<lambda>_. Inr x))" for m :: "unit sys" and x :: sink_state
    by (cases m; cases "snd m") simp_all
  then show ?thesis unfolding sink_program_def s by (simp del: io_return_simp split: option.split)
qed

lemma sink_calls_text: "file_text p (sink_calls ops) t = t"
  by (simp add: sink_calls_def)

text \<open>A flood that reports finite rates leaves them in its statistics file.\<close>

lemma flood_program_stats:
  assumes "\<And>c. os c = Inr ()" and "gethostbyname (fo_target ops) = Inr ip" and "fo_stats_file ops \<noteq> []"
    and "flood_main (fo_args ops) t0 evs t1 = Some (Inr s)" and "json_ok (flood_json s)"
  shows "\<exists>tr text. flood_program os gethostbyname ops t0 evs t1 = (tr, Some (Inr ((ip, fo_port ops), s)))
    \<and> file_text (fo_stats_file ops) tr None = Some text \<and> json_read text = Some (flood_json s)"
proof -
  obtain t where t: "write_stats os (fo_stats_file ops) (flood_json s) = ([OpenFile (fo_stats_file ops), WriteText (fo_stats_file ops) t, CloseFile (fo_stats_file ops)], Inr ())"
      "json_read t = Some (flood_json s)"
    using write_stats_ok [of os, OF assms(1,3,5)] by blast
  have "flood_setup os gethostbyname ops
      = ([Socket, SetSockOpt SOL_SOCKET SO_SNDBUF (4 * 1024 * 1024), Resolve (fo_target ops)], Inr (ip, fo_port ops))"
    using assms(1,2) by (simp add: flood_setup_def)
  then show ?thesis using t assms(4) by (simp add: flood_program_def)
qed

section \<open>Properties\<close>

text \<open>
  Property C20. The order in which the listener touches its environment, whatever the operating
  system answers: no directory or file before the port is bound and the timeout set, so the ready
  file means a listener that receives; no file but the ready file before the socket is closed;
  \<open>SO_REUSEADDR\<close> is never set; and when the port cannot be bound, the program ends with an
  exception and without having touched a file.
\<close>

theorem listener_program_order:
  assumes "fst (listener_program os pid ops evs) = tr"
  shows "(\<forall>pre c post. tr = pre @ c # post \<and> file_call c \<longrightarrow>
      {Bind ''0.0.0.0'' (lo_port ops), SetTimeout (lo_timeout ops)} \<subseteq> set pre
      \<and> (call_path c = None \<or> call_path c = Some (lo_ready_file ops) \<or> CloseSocket \<in> set pre))
    \<and> (\<forall>v. SetSockOpt SOL_SOCKET SO_REUSEADDR v \<notin> set tr)
    \<and> (os (Bind ''0.0.0.0'' (lo_port ops)) \<noteq> Inr () \<longrightarrow>
        (\<exists>e. snd (listener_program os pid ops evs) = Some (Inl e)) \<and> (\<forall>c \<in> set tr. \<not> file_call c))"
proof (intro conjI allI impI)
  fix pre c post assume c: "tr = pre @ c # post \<and> file_call c"
  show "{Bind ''0.0.0.0'' (lo_port ops), SetTimeout (lo_timeout ops)} \<subseteq> set pre"
    using c listener_files_after_bind [of ops os pid evs, unfolded assms only_after_iff] by auto
  show "call_path c = None \<or> call_path c = Some (lo_ready_file ops) \<or> CloseSocket \<in> set pre"
    using c listener_files_after_close [of ops os pid evs, unfolded assms only_after_iff] by auto
next
  fix v
  show "SetSockOpt SOL_SOCKET SO_REUSEADDR v \<notin> set tr"
    using listener_calls [of "SetSockOpt SOL_SOCKET SO_REUSEADDR v" os pid ops evs, unfolded assms]
    by (auto simp: listener_socket_def SO_REUSEADDR_def SO_RCVBUF_def SO_TIMESTAMPNS_NEW_def IPPROTO_IP_def SOL_SOCKET_def split: if_splits)
next
  assume b: "os (Bind ''0.0.0.0'' (lo_port ops)) \<noteq> Inr ()"
  show "\<exists>e. snd (listener_program os pid ops evs) = Some (Inl e)" using listener_bind_fails(1) [of os ops pid evs, OF b] by (metis snd_conv)
  show "\<forall>c \<in> set tr. \<not> file_call c" using listener_bind_fails(2) [of os ops _ pid evs, OF b] assms by blast
qed

lemma listener_program_order_witness:
  "\<exists>e. snd (listener_program (\<lambda>c. case c of Bind h p \<Rightarrow> Inl (OSError ''in use'') | _ \<Rightarrow> Inr ()) 7
     \<lparr>lo_args = \<lparr>la_interval = Num 1, la_record_tos = True, la_kernel_ts = True, la_little = True, la_quiet = True\<rparr>,
      lo_port = 6000, lo_timeout = Num 30, lo_output = ''r/a.csv'', lo_ready_file = ''r/ready''\<rparr> []) = Some (Inl e)"
  by (rule listener_program_order [OF refl, THEN conjunct2, THEN conjunct2, THEN mp, THEN conjunct1]) simp

text \<open>
  Property C19. A listener run saves what it received: on an operating system that accepts its
  calls, and with datagrams whose stamps fit 64 signed bits (at most $2^{46}$ of them), a
  run whose loop ends returns, with a report and an output file that the loader, under the name
  the file is given in a results directory, reads back as exactly the recorded rows, every column
  of them, or, when nothing was received, without an output file. The kernel's time stamps,
  which the loader ignores, are in the file's column for them. The ready file holds the process id.
\<close>

theorem listener_program_saves:
  assumes "\<And>c. os c = Inr ()" and "int_of_f64 (f_mul (la_interval (lo_args ops)) (Num 1000000)) = Inr iv"
    and "listener_loop (lo_args ops) iv listener_init evs = Some (Inr st)"
    and "list_all event_fits evs" and "int (length evs) \<le> 2 ^ 46"
    and "parse_name (path_stem name) = Inr (c, k)" and "lo_ready_file ops \<noteq> lo_output ops"
  shows "\<exists>tr r. listener_program os pid ops evs = (tr, Some (Inr r))
    \<and> (r = None \<longleftrightarrow> ls_results st = [])
    \<and> (ls_results st = [] \<longrightarrow> file_text (lo_output ops) tr None = None)
    \<and> (ls_results st \<noteq> [] \<longrightarrow> (\<exists>text run. file_text (lo_output ops) tr None = Some text
         \<and> load_csv name text = Inr run \<and> run_condition run = c \<and> run_index run = k
         \<and> run_seq run = map row_seq (ls_results st) \<and> send_ns run = map row_send_ns (ls_results st)
         \<and> recv_ns run = map row_recv_ns (ls_results st) \<and> latency_ms run = map row_latency_ms (ls_results st)
         \<and> jitter_us run = map row_jitter_us (ls_results st) \<and> pkt_size run = map row_pkt_size (ls_results st)
         \<and> run_tos run = (if la_record_tos (lo_args ops) then Some (map (\<lambda>r. the (row_tos r)) (ls_results st)) else None)
         \<and> (la_kernel_ts (lo_args ops) \<longrightarrow> (\<exists>h body. csv_reader text = (h # body, None) \<and> ''recv_kernel_ns'' \<in> set h
              \<and> map (\<lambda>r. cell h r ''recv_kernel_ns'') body = map (\<lambda>r. int_str (the (row_recv_kernel_ns r))) (ls_results st)))))
    \<and> (lo_ready_file ops \<noteq> [] \<longrightarrow> file_text (lo_ready_file ops) tr None = Some (int_str pid))"
  by (rule listener_run_saves [of os ops iv evs st name c k pid, OF assms])

lemma listener_program_saves_witness:
  "\<exists>tr r. listener_program (\<lambda>c. Inr ()) 7
     \<lparr>lo_args = \<lparr>la_interval = Num 1, la_record_tos = False, la_kernel_ts = False, la_little = True, la_quiet = True\<rparr>,
      lo_port = 6000, lo_timeout = Num 30, lo_output = ''d/results.csv'', lo_ready_file = ''r/ready''\<rparr>
     [Listener.Timeout, Listener.Datagram (be_bytes 4 7 @ be_bytes 8 1000) [] 2000, Listener.Timeout] = (tr, Some (Inr r))
     \<and> file_text ''r/ready'' tr None = Some (int_str 7)"
proof -
  let ?a = "\<lparr>la_interval = Num 1, la_record_tos = False, la_kernel_ts = False, la_little = True, la_quiet = True\<rparr>"
  let ?ops = "\<lparr>lo_args = ?a, lo_port = 6000, lo_timeout = Num 30, lo_output = ''d/results.csv'', lo_ready_file = ''r/ready''\<rparr>"
  let ?evs = "[Listener.Timeout, Listener.Datagram (be_bytes 4 7 @ be_bytes 8 1000) [] 2000, Listener.Timeout]"
  have "\<exists>st. listener_loop (lo_args ?ops) 1000000 listener_init ?evs = Some (Inr st)"
    by (simp add: listener_init_def recv_one_def PKT_HEADER_SIZE_def Let_def)
  then obtain st where st: "listener_loop (lo_args ?ops) 1000000 listener_init ?evs = Some (Inr st)" ..
  have iv: "int_of_f64 (f_mul (la_interval (lo_args ?ops)) (Num 1000000)) = Inr 1000000" by code_simp
  have fit: "list_all event_fits ?evs" by (simp add: be_int_be_bytes int64_def)
  have name: "parse_name (path_stem ''fifo_run1.csv'') = Inr (''fifo'', Some 1)" by code_simp
  show ?thesis using listener_program_saves [of "\<lambda>c. Inr ()", OF refl iv st fit _ name, of 7] by auto
qed

text \<open>
  Property C24. A talker run completes: on an operating system that accepts its calls, with a
  target name that resolves, a non-zero interval, at most $2^{32}$ packets, and a clock that
  reaches every scheduled time, the program returns with every packet attempted. It resolved the
  name exactly once (to the first address), set the socket priority exactly when one was asked
  for, closed its socket last, and its log file holds the header and one line per packet.
\<close>

theorem talker_program_completes:
  assumes "\<And>c. os c = Inr ()" and "resolver (to_target ops) = Inr (ip # ips)"
    and "interval_ns (to_args ops) = Inr iv" and "\<not> f_eq (interval_s (to_args ops)) (Num 0)"
    and "0 \<le> ta_count (to_args ops)" and "ta_count (to_args ops) \<le> 2 ^ 32" and "ta_count (to_args ops) \<le> int (length ticks)"
    and "\<forall>i < nat (ta_count (to_args ops)). tick_ready (to_args ops) start_mono iv (int i) (ticks ! i)"
  shows "\<exists>tr st rep. talker_program os resolver ops start_mono start_wall ticks end_mono = (tr, Some (Inr ((ip, to_port ops), st, rep)))
    \<and> int (tk_sent st + tk_errors st) = ta_count (to_args ops)
    \<and> [c \<leftarrow> tr. case c of Resolve n \<Rightarrow> True | _ \<Rightarrow> False] = [Resolve (to_target ops)]
    \<and> (\<forall>v. SetSockOpt SOL_SOCKET SO_PRIORITY v \<in> set tr \<longleftrightarrow> 0 \<le> v \<and> v = to_so_priority ops)
    \<and> last tr = CloseSocket
    \<and> (to_log ops \<noteq> [] \<longrightarrow> file_text (to_log ops) tr None = Some (concat (map log_text (tk_log st)))
         \<and> int (length (tk_log st)) = ta_count (to_args ops) + 1)"
proof -
  let ?a = "to_args ops"
  obtain st where st: "talker_loop ?a iv start_mono start_wall talker_init 0 ticks = Some (Inr st)"
      "int (tk_sent st + tk_errors st) = ta_count ?a"
    using talker_loop_completes [OF assms(5-8)] by blast
  obtain ls where ls: "tk_log st = ''seq,send_time_ns,scheduled_time_ns,drift_us'' # ls"
    using talker_loop_log [OF st(1)] by (auto simp: talker_init_def)
  obtain n where "talker_added ?a iv start_mono 0 ticks n talker_init st" using talker_loop_added [OF st(1) assms(5)] by blast
  then have len: "int (length (tk_log st)) = ta_count ?a + 1" using st(2) by (auto simp: talker_added_def talker_init_def)
  define tr where "tr = (Resolve (to_target ops) # talker_calls ops) @ log_calls ops st @ close_calls ops"
  obtain rep where run: "talker_program os resolver ops start_mono start_wall ticks end_mono = (tr, Some (Inr ((ip, to_port ops), st, rep)))"
    unfolding tr_def by (rule talker_program_run [of os resolver ops ip ips iv, OF assms(1-6) st(1)])
  have one: "[c \<leftarrow> tr. case c of Resolve n \<Rightarrow> True | _ \<Rightarrow> False] = [Resolve (to_target ops)]"
    by (simp add: tr_def talker_calls_def log_calls_def close_calls_def filter_empty_conv)
  have prio: "SetSockOpt SOL_SOCKET SO_PRIORITY v \<in> set tr \<longleftrightarrow> 0 \<le> v \<and> v = to_so_priority ops" for v
    by (auto simp: tr_def talker_calls_def log_calls_def close_calls_def split: if_splits)
  have "last tr = CloseSocket" by (simp add: tr_def close_calls_def)
  moreover have "file_text (to_log ops) tr None = Some (concat (map log_text (tk_log st)))" if "to_log ops \<noteq> []"
    using log_file_text [OF that ls, of "close_calls ops"] that by (simp only: tr_def close_calls_def) simp
  ultimately show ?thesis using run st(2) one prio len by blast
qed

lemma talker_program_completes_witness:
  "\<exists>tr st rep. talker_program (\<lambda>c. Inr ()) (\<lambda>n. Inr [''10.0.0.2''])
      \<lparr>to_args = \<lparr>ta_interval = Num 1, ta_count = 1, ta_size = 128, ta_quiet = True\<rparr>, to_target = ''sink'', to_port = 6000,
       to_so_priority = 6, to_log = ''t/log.csv''\<rparr> 5 100 [Tick [5] 101 True 0] 1000005 = (tr, Some (Inr ((''10.0.0.2'', 6000), st, rep)))
    \<and> SetSockOpt SOL_SOCKET SO_PRIORITY 6 \<in> set tr"
proof -
  let ?ops = "\<lparr>to_args = \<lparr>ta_interval = Num 1, ta_count = 1, ta_size = 128, ta_quiet = True\<rparr>, to_target = ''sink'', to_port = 6000,
       to_so_priority = 6, to_log = ''t/log.csv''\<rparr>"
  have iv: "interval_ns (to_args ?ops) = Inr 1000000" by code_simp
  have nz: "\<not> f_eq (interval_s (to_args ?ops)) (Num 0)" by code_simp
  show ?thesis
    using talker_program_completes [of "\<lambda>c. Inr ()" "\<lambda>n. Inr [''10.0.0.2'']" ?ops "''10.0.0.2''" "[]", OF refl refl iv nz, of "[Tick [5] 101 True 0]" 5 100 1000005]
    by (auto simp: tick_ready_def)
qed

text \<open>
  Property C29. The flood sink reports what it received: on an operating system that accepts its
  calls (at most $2^{63}$ events), the program returns exactly when, after the first signal
  and possibly further ones, one more datagram or timeout arrives, and its statistics file then reads
  back as JSON with every datagram counted up to and including that event, and their bytes.
\<close>

theorem sink_program_stats:
  assumes "\<And>c. os c = Inr ()" and "so_stats_file ops \<noteq> []" and "length evs < 2 ^ 63"
  shows "(\<exists>tr text. sink_program os ops evs = (tr, Some (Inr st)) \<and> file_text (so_stats_file ops) tr None = Some text
      \<and> json_read text = Some (JObj [(''received'', JInt (int (sk_count st))), (''bytes'', JInt (int (sk_nbytes st)))])) \<longleftrightarrow>
     (\<exists>pre sigs e post. evs = pre @ Signal # sigs @ e # post \<and> Signal \<notin> set pre \<and> set sigs \<subseteq> {Signal} \<and> e \<noteq> Signal
        \<and> st = \<lparr>sk_count = length (datagrams (pre @ [e])),
               sk_nbytes = sum_list (map (\<lambda>d. min (length d) 65535) (datagrams (pre @ [e]))), sk_stop = True\<rparr>)"
proof -
  have prog: "(\<exists>tr text. sink_program os ops evs = (tr, Some (Inr st)) \<and> file_text (so_stats_file ops) tr None = Some text
      \<and> json_read text = Some (JObj [(''received'', JInt (int (sk_count st))), (''bytes'', JInt (int (sk_nbytes st)))])) \<longleftrightarrow> sink_main evs = Some st"
  proof (cases "sink_main evs")
    case (Some st')
    obtain t where "write_stats os (so_stats_file ops) (sink_json st')
        = ([OpenFile (so_stats_file ops), WriteText (so_stats_file ops) t, CloseFile (so_stats_file ops)], Inr ())"
      "json_read t = Some (sink_json st')"
      using write_stats_ok [of os, OF assms(1,2) sink_json_ok [OF Some assms(3)]] by blast
    then show ?thesis unfolding sink_program_run [of os, OF assms(1)] Some by (auto simp: file_text_append sink_calls_text sink_json_def)
  qed (simp add: sink_program_run [of os, OF assms(1)])
  then show ?thesis unfolding sink_main_iff .
qed

lemma sink_program_stats_witness:
  "\<exists>tr text. sink_program (\<lambda>c. Inr ()) \<lparr>so_port = 5001, so_stats_file = ''s.json''\<rparr> [Datagram [1, 2], Signal, Timeout]
       = (tr, Some (Inr \<lparr>sk_count = 1, sk_nbytes = 2, sk_stop = True\<rparr>))
     \<and> file_text ''s.json'' tr None = Some text \<and> json_read text = Some (JObj [(''received'', JInt 1), (''bytes'', JInt 2)])"
proof -
  let ?st = "\<lparr>sk_count = 1, sk_nbytes = 2, sk_stop = True\<rparr>"
  have "\<exists>tr text. sink_program (\<lambda>c. Inr ()) \<lparr>so_port = 5001, so_stats_file = ''s.json''\<rparr> [Datagram [1, 2], Signal, Timeout] = (tr, Some (Inr ?st))
     \<and> file_text (so_stats_file \<lparr>so_port = 5001, so_stats_file = ''s.json''\<rparr>) tr None = Some text \<and> json_read text
        = Some (JObj [(''received'', JInt (int (sk_count ?st))), (''bytes'', JInt (int (sk_nbytes ?st)))])"
  proof (rule sink_program_stats [THEN iffD2])
    show "\<exists>pre sigs e post. [Datagram [1, 2], Signal, Timeout] = pre @ Signal # sigs @ e # post \<and> Signal \<notin> set pre
        \<and> set sigs \<subseteq> {Signal} \<and> e \<noteq> Signal \<and> ?st = \<lparr>sk_count = length (datagrams (pre @ [e])),
          sk_nbytes = sum_list (map (\<lambda>d. min (length d) 65535) (datagrams (pre @ [e]))), sk_stop = True\<rparr>"
      by (intro exI [of _ "[Datagram [1, 2]]"] exI [of _ "[]"] exI [of _ Timeout]) simp
  qed simp_all
  then show ?thesis by simp
qed

end
