(* ===== verification/Classifier.thy ===== *)
theory Classifier
  imports PyBytes
begin

text \<open>
  \<open>bpf/src/ts_classifier.c\<close>, the tc program that gives time-sensitive packets their
  priority and DSCP, with the probe \<open>prio_probe.c\<close> and \<open>tcx_dummy_ok.c\<close>. The BPF maps
  are part of the state; the kernel's packet helpers are a parameter with the laws of the locale
  \<open>bpf_skb\<close>, instantiated by \<open>bpf_ref\<close>. The lemmas show which frames are time-sensitive
  (against abstract frames), that only the TOS byte and the header checksum of a time-sensitive
  packet change, that the checksum stays valid, what is counted, and that marking is idempotent.
\<close>

unbundle bit_operations_syntax

section \<open>Packets and maps\<close>

type_synonym u16 = "16 word"
type_synonym u32 = "32 word"
type_synonym u64 = "64 word"

text \<open>
  The packet behind \<open>struct __sk_buff\<close>: its bytes, how many of them lie between
  \<open>data\<close> and \<open>data_end\<close>, and the fields the programs use.
\<close>

record sk_buff =
  sk_data :: bytes
  sk_headlen :: nat
  skb_vlan_present :: bool
  skb_vlan_tci :: u32
  skb_priority :: u32

record ts_config =
  cfg_priority :: u32
  cfg_dscp :: u32
  cfg_flags :: u32
  cfg_reserved :: u32

record bpf_maps =
  ts_config_map :: "ts_config option"
  ts_udp_ports :: "u16 \<rightharpoonup> byte"
  ts_counters :: "u32 \<rightharpoonup> u64"

record parse_result =
  reason :: u32
  ip_off :: nat

definition ts_config_zero :: ts_config where
  "ts_config_zero = \<lparr>cfg_priority = 0, cfg_dscp = 0, cfg_flags = 0, cfg_reserved = 0\<rparr>"

definition TS_IP_MF :: u16 where "TS_IP_MF = 0x2000"
definition TS_IP_OFFSET :: u16 where "TS_IP_OFFSET = 0x1FFF"
definition TS_DEFAULT_UDP_PORT :: u16 where "TS_DEFAULT_UDP_PORT = 6000"
definition AVTP_ETHERTYPE :: u16 where "AVTP_ETHERTYPE = 0x22F0"
definition TS_VLAN_PCP_MIN :: byte where "TS_VLAN_PCP_MIN = 5"
definition TS_DEFAULT_PRIORITY :: u32 where "TS_DEFAULT_PRIORITY = 6"
definition TS_DEFAULT_DSCP :: u32 where "TS_DEFAULT_DSCP = 46"
definition TS_CFG_MARK_DSCP :: u32 where "TS_CFG_MARK_DSCP = 1"
definition TS_CFG_DISABLE_UDP_DEFAULT :: u32 where "TS_CFG_DISABLE_UDP_DEFAULT = 2"

definition CNT_NORMAL :: u32 where "CNT_NORMAL = 0"
definition CNT_TS_AVTP :: u32 where "CNT_TS_AVTP = 1"
definition CNT_TS_PCP :: u32 where "CNT_TS_PCP = 2"
definition CNT_TS_UDP :: u32 where "CNT_TS_UDP = 3"
definition CNT_DSCP_MARKED :: u32 where "CNT_DSCP_MARKED = 4"
definition CNT_PARSE_SHORT :: u32 where "CNT_PARSE_SHORT = 5"

definition ETH_P_IP :: u16 where "ETH_P_IP = 0x0800"
definition ETH_P_8021Q :: u16 where "ETH_P_8021Q = 0x8100"
definition ETH_P_8021AD :: u16 where "ETH_P_8021AD = 0x88A8"
definition IPPROTO_UDP :: byte where "IPPROTO_UDP = 17"
definition TC_ACT_UNSPEC :: u32 where "TC_ACT_UNSPEC = -1"
definition TC_ACT_OK :: u32 where "TC_ACT_OK = 0"

lemmas cnt_defs = CNT_NORMAL_def CNT_TS_AVTP_def CNT_TS_PCP_def CNT_TS_UDP_def CNT_DSCP_MARKED_def CNT_PARSE_SHORT_def
lemmas proto_defs = ETH_P_IP_def ETH_P_8021Q_def ETH_P_8021AD_def AVTP_ETHERTYPE_def IPPROTO_UDP_def

text \<open>A 16-bit field in network byte order, after \<open>bpf_ntohs\<close>; and in the host's order.\<close>

definition be16_at :: "bytes \<Rightarrow> nat \<Rightarrow> u16" where
  "be16_at data i = ucast (data ! i) * 256 + ucast (data ! (i + 1))"

definition le16 :: "byte \<Rightarrow> byte \<Rightarrow> u16" where
  "le16 lo hi = ucast lo + ucast hi * 256"

definition count_idx :: "bpf_maps \<Rightarrow> u32 \<Rightarrow> bpf_maps" where
  "count_idx maps idx =
     (case ts_counters maps idx of
        None \<Rightarrow> maps
      | Some v \<Rightarrow> maps\<lparr>ts_counters := (ts_counters maps)(idx \<mapsto> v + 1)\<rparr>)"

section \<open>Classification\<close>

definition is_vlan :: "u16 \<Rightarrow> bool" where
  "is_vlan proto \<longleftrightarrow> proto = ETH_P_8021Q \<or> proto = ETH_P_8021AD"

text \<open>
  The unrolled loop over at most \<open>n\<close> tags in the packet, from offset \<open>off\<close>; \<open>None\<close>
  when a tag is cut off. Only the outermost tag sets the PCP.
\<close>

fun vlan_loop :: "nat \<Rightarrow> bytes \<Rightarrow> nat \<Rightarrow> u16 \<Rightarrow> byte \<Rightarrow> bool \<Rightarrow> (nat \<times> u16 \<times> byte \<times> bool) option" where
  "vlan_loop 0 data off proto pcp has_pcp = Some (off, proto, pcp, has_pcp)"
| "vlan_loop (Suc n) data off proto pcp has_pcp =
     (if \<not> is_vlan proto then Some (off, proto, pcp, has_pcp)
      else if length data < off + 4 then None
      else vlan_loop n data (off + 4) (be16_at data (off + 2))
             (if has_pcp then pcp else ucast (drop_bit 13 (be16_at data off) AND 7)) True)"

text \<open>The label \<open>done\<close>.\<close>

definition classify_done :: "parse_result \<Rightarrow> bool \<times> parse_result" where
  "classify_done pr = (if reason pr = CNT_TS_PCP then (True, pr) else (False, pr\<lparr>reason := CNT_NORMAL\<rparr>))"

definition by_udp :: "parse_result \<Rightarrow> bool \<times> parse_result" where
  "by_udp pr = (True, if reason pr \<noteq> CNT_TS_PCP then pr\<lparr>reason := CNT_TS_UDP\<rparr> else pr)"

definition classify_ip ::
  "(u16 \<rightharpoonup> byte) \<Rightarrow> ts_config \<Rightarrow> bytes \<Rightarrow> nat \<Rightarrow> parse_result \<Rightarrow> bool \<times> parse_result" where
  "classify_ip ports cfg data off pr =
     (if length data < off + 20
      then let pr = (if reason pr \<noteq> CNT_TS_PCP then pr\<lparr>reason := CNT_PARSE_SHORT\<rparr> else pr)
           in (reason pr = CNT_TS_PCP, pr)
      else if drop_bit 4 (data ! off) \<noteq> 4 then classify_done pr
      else let ihl = unat (data ! off AND 15) * 4
      in if ihl < 20 then classify_done pr
      else if be16_at data (off + 6) AND (TS_IP_MF OR TS_IP_OFFSET) \<noteq> 0 then classify_done pr
      else let pr = pr\<lparr>ip_off := off\<rparr>
      in if data ! (off + 9) = IPPROTO_UDP
         then if length data < off + ihl + 8 then classify_done pr
              else let dport = be16_at data (off + ihl + 2)
              in if cfg_flags cfg AND TS_CFG_DISABLE_UDP_DEFAULT = 0 \<and> dport = TS_DEFAULT_UDP_PORT then by_udp pr
                 else if ports dport \<noteq> None then by_udp pr
                 else classify_done pr
         else classify_done pr)"

definition classify :: "(u16 \<rightharpoonup> byte) \<Rightarrow> ts_config \<Rightarrow> sk_buff \<Rightarrow> parse_result \<Rightarrow> bool \<times> parse_result" where
  "classify ports cfg skb pr =
     (let data = take (sk_headlen skb) (sk_data skb)
      in if length data < 14 then (False, pr\<lparr>reason := CNT_PARSE_SHORT\<rparr>)
      else let pcp = (if skb_vlan_present skb then ucast (drop_bit 13 (skb_vlan_tci skb) AND 7) else 0)
      in case vlan_loop 2 data 14 (be16_at data 12) pcp (skb_vlan_present skb) of
           None \<Rightarrow> (False, pr\<lparr>reason := CNT_PARSE_SHORT\<rparr>)
         | Some (off, proto, pcp, has_pcp) \<Rightarrow>
             if proto = AVTP_ETHERTYPE then (True, pr\<lparr>reason := CNT_TS_AVTP\<rparr>)
             else let pr = (if has_pcp \<and> TS_VLAN_PCP_MIN \<le> pcp then pr\<lparr>reason := CNT_TS_PCP\<rparr> else pr)
             in if proto = ETH_P_IP then classify_ip ports cfg data off pr else classify_done pr)"

section \<open>Marking\<close>

text \<open>
  The kernel's helpers: \<open>bpf_skb_load_bytes\<close>, \<open>bpf_skb_store_bytes\<close> and
  \<open>bpf_l3_csum_replace\<close>; \<open>None\<close> is a negative return value, after which the packet is
  as before.
\<close>

record bpf_helpers =
  skb_load_bytes :: "sk_buff \<Rightarrow> nat \<Rightarrow> nat \<Rightarrow> bytes option"
  skb_store_bytes :: "sk_buff \<Rightarrow> nat \<Rightarrow> bytes \<Rightarrow> u64 \<Rightarrow> sk_buff option"
  l3_csum_replace :: "sk_buff \<Rightarrow> nat \<Rightarrow> u64 \<Rightarrow> u64 \<Rightarrow> u64 \<Rightarrow> sk_buff option"

definition mark_dscp :: "bpf_helpers \<Rightarrow> sk_buff \<Rightarrow> nat \<Rightarrow> byte \<Rightarrow> int \<times> sk_buff" where
  "mark_dscp h skb off dscp =
     (case skb_load_bytes h skb off 2 of
        None \<Rightarrow> (-1, skb)
      | Some hdr \<Rightarrow>
          let old_tos = hdr ! 1;
              new_tos = push_bit 2 dscp OR (old_tos AND 3)
          in if new_tos = old_tos then (0, skb)
             else let old_w = le16 (hdr ! 0) old_tos; new_w = le16 (hdr ! 0) new_tos
             in case l3_csum_replace h skb (off + 10) (ucast old_w) (ucast new_w) 2 of
                  None \<Rightarrow> (-1, skb)
                | Some skb \<Rightarrow> (case skb_store_bytes h skb (off + 1) [new_tos] 0 of
                      None \<Rightarrow> (-1, skb)
                    | Some skb \<Rightarrow> (1, skb)))"

definition ts_classifier :: "bpf_helpers \<Rightarrow> bpf_maps \<Rightarrow> sk_buff \<Rightarrow> u32 \<times> bpf_maps \<times> sk_buff" where
  "ts_classifier h maps skb =
     (let cfg = (case ts_config_map maps of None \<Rightarrow> ts_config_zero | Some c \<Rightarrow> c);
          (ts, pr) = classify (ts_udp_ports maps) cfg skb \<lparr>reason = 0, ip_off = 0\<rparr>
      in if \<not> ts then (TC_ACT_UNSPEC, count_idx maps (reason pr), skb)
      else let skb = skb\<lparr>skb_priority := (if cfg_priority cfg \<noteq> 0 then cfg_priority cfg else TS_DEFAULT_PRIORITY)\<rparr>;
               maps = count_idx maps (reason pr)
      in if cfg_flags cfg AND TS_CFG_MARK_DSCP \<noteq> 0 \<and> ip_off pr \<noteq> 0
         then let dscp = ucast (if cfg_dscp cfg \<noteq> 0 then cfg_dscp cfg else TS_DEFAULT_DSCP) AND 0x3f;
                  (r, skb) = mark_dscp h skb (ip_off pr) dscp
              in (TC_ACT_UNSPEC, if 0 < r then count_idx maps CNT_DSCP_MARKED else maps, skb)
         else (TC_ACT_UNSPEC, maps, skb))"

section \<open>The probe and the dummy\<close>

definition PRIO_HIST_BUCKETS :: u32 where "PRIO_HIST_BUCKETS = 16"

definition prio_probe :: "(u32 \<rightharpoonup> u64) \<Rightarrow> sk_buff \<Rightarrow> u32 \<times> (u32 \<rightharpoonup> u64)" where
  "prio_probe prio_hist skb =
     (let idx = (if PRIO_HIST_BUCKETS \<le> skb_priority skb then PRIO_HIST_BUCKETS - 1 else skb_priority skb)
      in (TC_ACT_UNSPEC, case prio_hist idx of None \<Rightarrow> prio_hist | Some v \<Rightarrow> prio_hist(idx \<mapsto> v + 1)))"

definition tcx_dummy_ok :: "(u32 \<rightharpoonup> u64) \<Rightarrow> sk_buff \<Rightarrow> u32 \<times> (u32 \<rightharpoonup> u64)" where
  "tcx_dummy_ok dummy_hits skb =
     (TC_ACT_OK, case dummy_hits 0 of None \<Rightarrow> dummy_hits | Some v \<Rightarrow> dummy_hits(0 \<mapsto> v + 1))"

section \<open>The helpers' contract\<close>

text \<open>One's complement addition and the incremental update of RFC 1624 (equation 3).\<close>

definition csum16_add :: "u16 \<Rightarrow> u16 \<Rightarrow> u16" where
  "csum16_add a b = (let r = a + b in r + (if r < b then 1 else 0))"

definition csum_replace2 :: "u16 \<Rightarrow> u16 \<Rightarrow> u16 \<Rightarrow> u16" where
  "csum_replace2 csum old new = NOT (csum16_add (csum16_add (NOT csum) (NOT old)) new)"

definition put_le16 :: "bytes \<Rightarrow> nat \<Rightarrow> u16 \<Rightarrow> bytes" where
  "put_le16 data i w = data[i := ucast w, i + 1 := ucast (drop_bit 8 w)]"

definition csum_data :: "bytes \<Rightarrow> nat \<Rightarrow> u16 \<Rightarrow> u16 \<Rightarrow> bytes" where
  "csum_data data i old new = put_le16 data i (csum_replace2 (le16 (data ! i) (data ! (i + 1))) old new)"

text \<open>
  What the programs rely on: loading reads the bytes of the packet, whole or linear or not;
  storing and the checksum update change the bytes at their offset and may pull more of the
  packet into the linear part; the checksum update is the incremental one, on the host's
  (little-endian) words.
\<close>

locale bpf_skb =
  fixes h :: bpf_helpers
  assumes load_bytes: "0 < n \<Longrightarrow> skb_load_bytes h skb i n =
      (if i + n \<le> length (sk_data skb) then Some (take n (drop i (sk_data skb))) else None)"
    and store_bytes: "skb_store_bytes h skb i [b] 0 = Some skb' \<Longrightarrow>
      i < length (sk_data skb) \<and> (\<exists>hl \<ge> sk_headlen skb. skb' = skb\<lparr>sk_data := (sk_data skb)[i := b], sk_headlen := hl\<rparr>)"
    and csum_replace: "l3_csum_replace h skb i old new 2 = Some skb' \<Longrightarrow>
      i + 2 \<le> length (sk_data skb) \<and> (\<exists>hl \<ge> sk_headlen skb.
        skb' = skb\<lparr>sk_data := csum_data (sk_data skb) i (ucast old) (ucast new), sk_headlen := hl\<rparr>)"

text \<open>A packet whose header can be made writable: calls in range succeed.\<close>

locale bpf_skb_writable = bpf_skb +
  assumes store_succeeds: "i < length (sk_data skb) \<Longrightarrow> skb_store_bytes h skb i [b] 0 \<noteq> None"
    and csum_succeeds: "i + 2 \<le> length (sk_data skb) \<Longrightarrow> l3_csum_replace h skb i old new 2 \<noteq> None"

definition bpf_ref :: bpf_helpers where
  "bpf_ref =
     \<lparr>skb_load_bytes = (\<lambda>skb i n. if i + n \<le> length (sk_data skb) then Some (take n (drop i (sk_data skb))) else None),
      skb_store_bytes = (\<lambda>skb i bs fl. if i + length bs \<le> length (sk_data skb)
        then Some (skb\<lparr>sk_data := take i (sk_data skb) @ bs @ drop (i + length bs) (sk_data skb)\<rparr>) else None),
      l3_csum_replace = (\<lambda>skb i old new fl. if i + 2 \<le> length (sk_data skb)
        then Some (skb\<lparr>sk_data := csum_data (sk_data skb) i (ucast old) (ucast new)\<rparr>) else None)\<rparr>"

interpretation ref: bpf_skb_writable bpf_ref
  by unfold_locales
    (auto simp: bpf_ref_def upd_conv_take_nth_drop split: if_splits intro: exI [of _ "sk_headlen _"])

section \<open>What marking does\<close>

definition new_tos :: "byte \<Rightarrow> byte \<Rightarrow> byte" where
  "new_tos dscp tos = push_bit 2 dscp OR (tos AND 3)"

text \<open>The header word with the TOS byte in it, and the packet with the checksum updated for it.\<close>

definition csum_marked :: "bytes \<Rightarrow> nat \<Rightarrow> byte \<Rightarrow> bytes" where
  "csum_marked data i dscp = csum_data data (i + 10) (le16 (data ! i) (data ! (i + 1)))
     (le16 (data ! i) (new_tos dscp (data ! (i + 1))))"

definition marked :: "bytes \<Rightarrow> nat \<Rightarrow> byte \<Rightarrow> bytes" where
  "marked data i dscp = (csum_marked data i dscp)[i + 1 := new_tos dscp (data ! (i + 1))]"

lemma length_marked [simp]: "length (csum_marked data i dscp) = length data" "length (marked data i dscp) = length data"
  by (simp_all add: csum_marked_def marked_def csum_data_def put_le16_def)

lemma marked_nth:
  "j \<noteq> i + 10 \<Longrightarrow> j \<noteq> i + 11 \<Longrightarrow> csum_marked data i dscp ! j = data ! j"
  "j \<noteq> i + 1 \<Longrightarrow> j \<noteq> i + 10 \<Longrightarrow> j \<noteq> i + 11 \<Longrightarrow> marked data i dscp ! j = data ! j"
  "i + 1 < length data \<Longrightarrow> marked data i dscp ! (i + 1) = new_tos dscp (data ! (i + 1))"
  by (simp_all add: csum_marked_def marked_def csum_data_def put_le16_def nth_list_update)

lemma ucast_u16_u64 [simp]: "(ucast (ucast (w :: u16) :: u64) :: u16) = w"
  by (rule bit_word_eqI) (simp add: bit_simps)

context bpf_skb
begin

lemma mark_dscp_in_range:
  assumes "i + 2 \<le> length (sk_data skb)"
  shows "mark_dscp h skb i dscp =
    (let d = sk_data skb; t = new_tos dscp (d ! (i + 1))
     in if t = d ! (i + 1) then (0, skb)
        else case l3_csum_replace h skb (i + 10) (ucast (le16 (d ! i) (d ! (i + 1)))) (ucast (le16 (d ! i) t)) 2 of
          None \<Rightarrow> (-1, skb)
        | Some skb \<Rightarrow> (case skb_store_bytes h skb (i + 1) [t] 0 of None \<Rightarrow> (-1, skb) | Some skb \<Rightarrow> (1, skb)))"
proof -
  have "take 2 (drop i (sk_data skb)) = [sk_data skb ! i, sk_data skb ! (i + 1)]"
    using assms by (simp add: numeral_2_eq_2 take_Suc_conv_app_nth)
  then have "skb_load_bytes h skb i 2 = Some [sk_data skb ! i, sk_data skb ! (i + 1)]"
    using assms by (simp add: load_bytes)
  then show ?thesis by (simp add: mark_dscp_def new_tos_def Let_def)
qed

lemma mark_dscp_cases:
  assumes "mark_dscp h skb i dscp = (r, skb')"
  obtains (failed) "r = -1" "skb' = skb"
  | (same) "r = 0" "skb' = skb" "i + 2 \<le> length (sk_data skb)" "new_tos dscp (sk_data skb ! (i + 1)) = sk_data skb ! (i + 1)"
  | (half) hl where "r = -1" "skb' = skb\<lparr>sk_data := csum_marked (sk_data skb) i dscp, sk_headlen := hl\<rparr>"
      "i + 12 \<le> length (sk_data skb)" "sk_headlen skb \<le> hl"
  | (whole) hl where "r = 1" "skb' = skb\<lparr>sk_data := marked (sk_data skb) i dscp, sk_headlen := hl\<rparr>"
      "i + 12 \<le> length (sk_data skb)" "sk_headlen skb \<le> hl"
      "new_tos dscp (sk_data skb ! (i + 1)) \<noteq> sk_data skb ! (i + 1)"
proof (cases "i + 2 \<le> length (sk_data skb)")
  case False
  then show ?thesis using assms failed by (simp add: mark_dscp_def load_bytes)
next
  case in_range: True
  let ?d = "sk_data skb" and ?t = "new_tos dscp (sk_data skb ! (i + 1))"
  note m = mark_dscp_in_range [OF in_range, of dscp]
  show ?thesis
  proof (cases "?t = ?d ! (i + 1)")
    case True
    then show ?thesis using assms in_range same by (simp add: m Let_def)
  next
    case ne: False
    let ?c = "l3_csum_replace h skb (i + 10) (ucast (le16 (?d ! i) (?d ! (i + 1)))) (ucast (le16 (?d ! i) ?t)) 2"
    show ?thesis
    proof (cases ?c)
      case None
      then show ?thesis using assms ne failed by (simp add: m Let_def)
    next
      case (Some skb1)
      from csum_replace [OF Some] obtain hl where len: "i + 12 \<le> length ?d" and hl: "sk_headlen skb \<le> hl"
        and skb1: "skb1 = skb\<lparr>sk_data := csum_marked ?d i dscp, sk_headlen := hl\<rparr>"
        by (auto simp: csum_marked_def)
      show ?thesis
      proof (cases "skb_store_bytes h skb1 (i + 1) [?t] 0")
        case None
        then show ?thesis using assms ne Some skb1 len hl half [of hl] by (simp add: m Let_def)
      next
        case st: (Some skb2)
        from store_bytes [OF st] obtain hl' where "sk_headlen skb1 \<le> hl'"
          "skb2 = skb\<lparr>sk_data := marked ?d i dscp, sk_headlen := hl'\<rparr>"
          by (auto simp: skb1 marked_def)
        then show ?thesis using assms ne Some st skb1 len hl whole [of hl']
          by (simp add: m Let_def)
      qed
    qed
  qed
qed

end

context bpf_skb_writable
begin

lemma mark_dscp_writable:
  assumes "i + 12 \<le> length (sk_data skb)"
  shows "0 \<le> fst (mark_dscp h skb i dscp)"
proof -
  let ?d = "sk_data skb" and ?t = "new_tos dscp (sk_data skb ! (i + 1))"
  let ?c = "l3_csum_replace h skb (i + 10) (ucast (le16 (?d ! i) (?d ! (i + 1)))) (ucast (le16 (?d ! i) ?t)) 2"
  have m: "i + 2 \<le> length (sk_data skb)" using assms by simp
  obtain skb1 where c: "?c = Some skb1" using csum_succeeds [of "i + 10" skb] assms by fastforce
  from csum_replace [OF c] have "length (sk_data skb1) = length ?d" by (auto simp: csum_data_def put_le16_def)
  then obtain skb2 where "skb_store_bytes h skb1 (i + 1) [?t] 0 = Some skb2"
    using store_succeeds [of "i + 1" skb1] assms by fastforce
  then show ?thesis using c by (simp add: mark_dscp_in_range [OF m] Let_def)
qed

end

section \<open>What classification reads\<close>

lemma vlan_loop_off:
  "vlan_loop n data i proto pcp hp = Some (off, proto', pcp', hp') \<Longrightarrow>
     i \<le> off \<and> off \<le> i + 4 * n \<and> (i \<le> length data \<longrightarrow> off \<le> length data)"
  by (induction n data i proto pcp hp rule: vlan_loop.induct) (auto split: if_splits)

lemma vlan_loop_agree:
  assumes "vlan_loop n data i proto pcp hp = Some (off, proto', pcp', hp')"
    and "\<forall>j < off. data' ! j = data ! j" and "off \<le> length data'"
  shows "vlan_loop n data' i proto pcp hp = Some (off, proto', pcp', hp')"
  using assms
proof (induction n data i proto pcp hp rule: vlan_loop.induct)
  case (2 n data i proto pcp hp)
  show ?case
  proof (cases "is_vlan proto")
    case True
    then have len: "\<not> length data < i + 4" using 2(2) by (simp split: if_splits)
    then have r: "vlan_loop n data (i + 4) (be16_at data (i + 2))
        (if hp then pcp else ucast (drop_bit 13 (be16_at data i) AND 7)) True = Some (off, proto', pcp', hp')"
      using 2(2) True by simp
    then have off: "i + 4 \<le> off" using vlan_loop_off by blast
    then have "be16_at data' (i + 2) = be16_at data (i + 2)" "be16_at data' i = be16_at data i"
      using 2(3) by (simp_all add: be16_at_def)
    then show ?thesis using 2(1) [OF _ len r 2(3,4)] True off 2(4) by (cases hp) simp_all
  qed (use 2(2) in simp)
qed simp

lemma classify_done_simps [simp]:
  "fst (classify_done pr) = (reason pr = CNT_TS_PCP)" "ip_off (snd (classify_done pr)) = ip_off pr"
  "fst (by_udp pr)" "ip_off (snd (by_udp pr)) = ip_off pr"
  by (simp_all add: classify_done_def by_udp_def)

text \<open>An offset is reported for an unfragmented IPv4 header that lies in the packet.\<close>

definition plain_ipv4 :: "bytes \<Rightarrow> nat \<Rightarrow> bool" where
  "plain_ipv4 data off \<longleftrightarrow> off + 20 \<le> length data \<and> drop_bit 4 (data ! off) = 4 \<and> 5 \<le> unat (data ! off AND 15)
     \<and> be16_at data (off + 6) AND (TS_IP_MF OR TS_IP_OFFSET) = 0"

lemma classify_ip_off:
  "ip_off pr = 0 \<Longrightarrow> ip_off (snd (classify_ip ports cfg data off pr)) = (if plain_ipv4 data off then off else 0)"
  by (auto simp: classify_ip_def plain_ipv4_def Let_def)

lemma classify_ip_off_cases:
  assumes "ip_off pr = 0" and "ip_off (snd (classify ports cfg skb pr)) = off" and "off \<noteq> 0"
  shows "plain_ipv4 (take (sk_headlen skb) (sk_data skb)) off \<and> 14 \<le> off \<and> off \<le> 22"
proof -
  define data where "data = take (sk_headlen skb) (sk_data skb)"
  let ?pcp = "if skb_vlan_present skb then ucast (drop_bit 13 (skb_vlan_tci skb) AND 7) else 0"
  have c: "ip_off (snd (classify ports cfg skb pr)) = off" by (rule assms(2))
  have len: "\<not> length data < 14"
    using c assms(1,3) by (auto simp: classify_def Let_def data_def [symmetric])
  obtain o1 pr1 pcp1 hp1 where v: "vlan_loop 2 data 14 (be16_at data 12) ?pcp (skb_vlan_present skb) = Some (o1, pr1, pcp1, hp1)"
    using c assms(1,3) len
    by (cases "vlan_loop 2 data 14 (be16_at data 12) ?pcp (skb_vlan_present skb)")
      (auto simp: classify_def Let_def data_def [symmetric])
  have "off = o1 \<and> plain_ipv4 data o1"
    using c assms(1,3) len v
    by (cases "pr1 = AVTP_ETHERTYPE"; cases "pr1 = ETH_P_IP"; cases "hp1 \<and> TS_VLAN_PCP_MIN \<le> pcp1")
      (simp_all add: classify_def Let_def data_def [symmetric] classify_ip_off split: if_splits)
  then show ?thesis using vlan_loop_off [OF v] by (simp add: data_def)
qed

lemma plain_ipv4_take: "plain_ipv4 (take n data) off \<Longrightarrow> plain_ipv4 data off \<and> off + 20 \<le> n"
  by (auto simp: plain_ipv4_def be16_at_def)

section \<open>Counting\<close>

lemma count_idx_other [simp]:
  "ts_config_map (count_idx maps i) = ts_config_map maps" "ts_udp_ports (count_idx maps i) = ts_udp_ports maps"
  by (simp_all add: count_idx_def split: option.splits)

lemma count_idx_counters:
  "ts_counters (count_idx maps i) = (\<lambda>j. if j = i then map_option (\<lambda>v. v + 1) (ts_counters maps i) else ts_counters maps j)"
  by (auto simp: count_idx_def fun_eq_iff split: option.splits)

section \<open>The checksum\<close>

text \<open>The header checksum of the test harness: the folded sum of the big-endian words, complemented.\<close>

fun words_sum :: "bytes \<Rightarrow> int" where
  "words_sum [] = 0"
| "words_sum [a] = uint a * 256"
| "words_sum (a # b # bs) = uint a * 256 + uint b + words_sum bs"

function fold_carry :: "int \<Rightarrow> int" where
  "fold_carry s = (if 65536 \<le> s then fold_carry (s mod 65536 + s div 65536) else s)"
  by pat_completeness auto
termination
proof (relation "measure nat")
  fix s :: int
  assume "65536 \<le> s"
  then have "0 < s div 65536" by simp
  then have "s mod 65536 + s div 65536 < s" using div_mult_mod_eq [of s 65536] by linarith
  then show "(s mod 65536 + s div 65536, s) \<in> measure nat" using \<open>65536 \<le> s\<close> by simp
qed simp

declare fold_carry.simps [simp del]

definition ip_checksum :: "bytes \<Rightarrow> int" where
  "ip_checksum hdr = 65535 - fold_carry (words_sum hdr)"

definition ip_header :: "bytes \<Rightarrow> nat \<Rightarrow> bytes" where
  "ip_header frame off = take (unat (frame ! off AND 15) * 4) (drop off frame)"

definition csum_ok :: "bytes \<Rightarrow> nat \<Rightarrow> bool" where
  "csum_ok frame off \<longleftrightarrow> ip_checksum (ip_header frame off) = 0"

lemma fold_carry_mod: "0 < s \<Longrightarrow> fold_carry s = (s - 1) mod 65535 + 1"
proof (induction s rule: fold_carry.induct)
  case (1 s)
  show ?case
  proof (cases "65536 \<le> s")
    case True
    let ?t = "s mod 65536 + s div 65536"
    have "0 < ?t" using True by (simp add: add_nonneg_pos)
    have "s - 1 = (?t - 1) + (s div 65536) * 65535" using div_mult_mod_eq [of s 65536] by linarith
    then have "(s - 1) mod 65535 = (?t - 1) mod 65535" by (metis mod_mult_self1)
    then show ?thesis using 1 True \<open>0 < ?t\<close> by (simp add: fold_carry.simps [of s])
  next
    case False
    then show ?thesis using 1(2) by (simp add: fold_carry.simps [of s])
  qed
qed

lemma ip_checksum_zero_iff: "0 < words_sum hdr \<Longrightarrow> ip_checksum hdr = 0 \<longleftrightarrow> words_sum hdr mod 65535 = 0"
proof -
  assume pos: "0 < words_sum hdr"
  define s where "s = words_sum hdr - 1"
  have "s mod 65535 = 65534 \<longleftrightarrow> (s + 1) mod 65535 = 0"
  proof (cases "s mod 65535 = 65534")
    case True
    have "(s + 1) mod 65535 = (s mod 65535 + 1) mod 65535" by (simp add: mod_add_left_eq)
    then show ?thesis using True by simp
  next
    case False
    have "0 \<le> s mod 65535" "s mod 65535 < 65535" by simp_all
    then have "(s mod 65535 + 1) mod 65535 = s mod 65535 + 1" using False by (intro mod_pos_pos_trivial) linarith+
    then have "(s + 1) mod 65535 = s mod 65535 + 1" by (simp add: mod_add_left_eq)
    then show ?thesis using False \<open>0 \<le> s mod 65535\<close> by linarith
  qed
  then show ?thesis using fold_carry_mod [OF pos] by (auto simp: ip_checksum_def s_def)
qed

lemma words_sum_update:
  "i < length bs \<Longrightarrow> words_sum (bs[i := b]) = words_sum bs + (if even i then 256 else 1) * (uint b - uint (bs ! i))"
proof (induction bs arbitrary: i rule: words_sum.induct)
  case (3 a c bs)
  then show ?case by (cases i; cases "i - 1") (auto simp: algebra_simps)
qed auto

lemma words_sum_nonneg: "0 \<le> words_sum bs"
  by (induction bs rule: words_sum.induct) simp_all

lemma words_sum_pos: "bs \<noteq> [] \<Longrightarrow> 0 < uint (bs ! 0) \<Longrightarrow> 0 < words_sum bs"
  by (cases bs rule: words_sum.cases) (auto intro!: add_pos_nonneg words_sum_nonneg)

lemma uint_ucast_16: "uint (ucast (b :: byte) :: u16) = uint b"
proof -
  have "uint b < 65536" using uint_byte_range(2) [of b] by linarith
  then show ?thesis by (simp add: unsigned_ucast_eq take_bit_eq_mod)
qed

lemma uint_ucast_8: "uint (ucast (w :: u16) :: byte) = uint w mod 256"
  by (simp add: unsigned_ucast_eq take_bit_eq_mod)

lemma uint_le16: "uint (le16 lo hi) = uint lo + 256 * uint hi"
proof -
  have "uint lo + 256 * uint hi < 65536" using uint_byte_range [of lo] uint_byte_range [of hi] by linarith
  moreover have "uint (le16 lo hi) = (uint lo + 256 * uint hi) mod 65536"
    by (simp add: le16_def uint_word_ariths uint_ucast_16 mod_simps mult.commute)
  ultimately show ?thesis using uint_byte_range [of lo] uint_byte_range [of hi] by simp
qed

lemma uint_u16_range: "0 \<le> uint (a :: u16)" "uint (a :: u16) < 65536"
  using uint_lt2p [of a] by simp_all

lemma uint_csum16_add: "\<exists>k. uint (csum16_add a b) = uint a + uint b + 65535 * k"
proof (cases "uint a + uint b < 65536")
  case True
  then have "uint (a + b) = uint a + uint b" by (simp add: uint_plus_if')
  then have "csum16_add a b = a + b" using uint_u16_range [of a] by (simp add: csum16_add_def word_less_def)
  then show ?thesis using \<open>uint (a + b) = uint a + uint b\<close> by (intro exI [of _ 0]) simp
next
  case False
  then have s: "uint (a + b) = uint a + uint b - 65536" by (simp add: uint_plus_if')
  then have "a + b < b" using uint_u16_range [of a] by (simp add: word_less_def)
  moreover have "uint (a + b + 1) = uint a + uint b - 65535"
    using s uint_u16_range [of a] uint_u16_range [of b] by (simp add: uint_plus_if')
  ultimately show ?thesis by (intro exI [of _ "-1"]) (simp add: csum16_add_def)
qed

lemma uint_not16: "uint (NOT (a :: u16)) = 65535 - uint a"
proof -
  have "NOT a = 65535 - a" by (simp add: not_eq_complement)
  then show ?thesis using uint_u16_range [of a] by (simp add: uint_sub_if')
qed

lemma le16_split: "le16 (ucast w) (ucast (drop_bit 8 w)) = w"
proof -
  have "uint w div 256 < 256" using uint_u16_range(2) [of w] by presburger
  then have "uint (drop_bit 8 w) mod 256 = uint w div 256"
    using uint_u16_range [of w] by (simp add: drop_bit_eq_div uint_div pos_imp_zdiv_nonneg_iff)
  then have "uint (le16 (ucast w) (ucast (drop_bit 8 w))) = uint w"
    by (simp add: uint_le16 uint_ucast_8)
  then show ?thesis by (rule word_uint_eqI)
qed
lemma csum_replace2_sum: "\<exists>k. uint (csum_replace2 c old new) + uint new = uint c + uint old + 65535 * k"
proof -
  obtain k1 where "uint (csum16_add (NOT c) (NOT old)) = uint (NOT c) + uint (NOT old) + 65535 * k1"
    using uint_csum16_add by blast
  moreover obtain k2 where "uint (csum16_add (csum16_add (NOT c) (NOT old)) new)
      = uint (csum16_add (NOT c) (NOT old)) + uint new + 65535 * k2" using uint_csum16_add by blast
  ultimately show ?thesis
    by (intro exI [of _ "- 1 - k1 - k2"]) (simp add: csum_replace2_def uint_not16)
qed

lemma first_byte_pos: "drop_bit 4 b = 4 \<Longrightarrow> 0 < uint (b :: byte)"
proof -
  assume "drop_bit 4 b = 4"
  then have "b \<noteq> 0" by auto
  then have "uint b \<noteq> 0" by (simp add: uint_0_iff)
  then show ?thesis using uint_ge_0 [of b] by linarith
qed

lemma take_drop_update: "j < n \<Longrightarrow> take n (drop i (xs[i + j := v])) = (take n (drop i xs))[j := v]"
  by (simp add: drop_update_swap take_update_swap)

lemma csum_ok_marked:
  assumes "plain_ipv4 data i" and "csum_ok data i"
  shows "csum_ok (marked data i dscp) i"
proof -
  define n where "n = unat (data ! i AND 15) * 4"
  define H where "H = take n (drop i data)"
  let ?t = "new_tos dscp (data ! (i + 1))"
  have n: "20 \<le> n" and len: "i + 20 \<le> length data" using assms(1) by (simp_all add: plain_ipv4_def n_def)
  then have lH: "20 \<le> length H" by (simp add: H_def)
  have nth: "H ! j = data ! (i + j)" if "j < 20" for j using that n len by (simp add: H_def)
  obtain w where w: "csum_replace2 (le16 (H ! 10) (H ! 11)) (le16 (H ! 0) (H ! 1)) (le16 (H ! 0) ?t) = w" by blast
  let ?a = "ucast w :: byte" and ?b = "ucast (drop_bit 8 w) :: byte"
  have hdr: "ip_header data i = H" by (simp add: ip_header_def n_def H_def)
  have hdr': "ip_header (marked data i dscp) i = H[10 := ?a, 11 := ?b, 1 := ?t]"
  proof -
    have "marked data i dscp = data[i + 10 := ?a, i + 11 := ?b, i + 1 := ?t]"
      using w nth [of 0] nth [of 1] nth [of 10] nth [of 11]
      by (simp add: marked_def csum_marked_def csum_data_def put_le16_def add.commute)
    moreover have "marked data i dscp ! i = data ! i" by (simp add: marked_nth)
    ultimately show ?thesis using n
      by (simp add: ip_header_def n_def [symmetric] H_def take_drop_update del: One_nat_def add_Suc_right)
  qed
  obtain k where "uint w + uint (le16 (H ! 0) ?t) = uint (le16 (H ! 10) (H ! 11)) + uint (le16 (H ! 0) (H ! 1)) + 65535 * k"
    using csum_replace2_sum w by blast
  then have k: "uint ?a + 256 * uint ?b + 256 * uint ?t = uint (H ! 10) + 256 * uint (H ! 11) + 256 * uint (H ! 1) + 65535 * k"
    using uint_le16 [of ?a ?b] by (simp add: le16_split uint_le16)
  have "words_sum (H[10 := ?a, 11 := ?b, 1 := ?t])
      = words_sum H + 256 * (uint ?a - uint (H ! 10)) + (uint ?b - uint (H ! 11)) + (uint ?t - uint (H ! 1))"
    using lH by (simp add: words_sum_update)
  also have "\<dots> = words_sum H + 65535 * (256 * k - (uint ?b - uint (H ! 11)) - (uint ?t - uint (H ! 1)))"
    using k by (simp add: algebra_simps)
  finally have "words_sum (ip_header (marked data i dscp) i) mod 65535 = words_sum H mod 65535"
    by (simp only: hdr' mod_mult_self2)
  moreover have "0 < words_sum H" "0 < words_sum (ip_header (marked data i dscp) i)"
    using assms(1) lH nth [of 0] by (auto simp: hdr' plain_ipv4_def first_byte_pos intro!: words_sum_pos)
  ultimately show ?thesis using assms(2) by (simp add: csum_ok_def hdr ip_checksum_zero_iff)
qed

section \<open>Classifying again\<close>

lemma classify_ip_agree:
  assumes "plain_ipv4 data off" and "length data \<le> length data'"
    and same: "\<And>j. j < length data \<Longrightarrow> j \<noteq> off + 1 \<Longrightarrow> j \<noteq> off + 10 \<Longrightarrow> j \<noteq> off + 11 \<Longrightarrow> data' ! j = data ! j"
    and ts: "fst (classify_ip ports cfg data off pr)"
  shows "plain_ipv4 data' off" and "fst (classify_ip ports cfg data' off pr)"
proof -
  have len: "off + 20 \<le> length data" and ihl: "5 \<le> unat (data ! off AND 15)"
    using assms(1) by (simp_all add: plain_ipv4_def)
  have b0: "data' ! off = data ! off" "data' ! (off + 9) = data ! (off + 9)"
    and fr: "be16_at data' (off + 6) = be16_at data (off + 6)"
    using len same by (simp_all add: be16_at_def)
  then show plain': "plain_ipv4 data' off" using assms(1,2) by (simp add: plain_ipv4_def)
  show "fst (classify_ip ports cfg data' off pr)"
  proof (cases "reason pr = CNT_TS_PCP")
    case True
    then show ?thesis using plain' by (simp add: classify_ip_def plain_ipv4_def Let_def)
  next
    case False
    let ?ihl = "unat (data ! off AND 15) * 4"
    have l8: "off + ?ihl + 8 \<le> length data"
      using ts False assms(1) by (simp add: classify_ip_def plain_ipv4_def Let_def split: if_splits)
    then have "be16_at data' (off + ?ihl + 2) = be16_at data (off + ?ihl + 2)"
      using same ihl by (simp add: be16_at_def)
    then show ?thesis using ts plain' assms(1,2) b0 l8
      by (simp add: classify_ip_def plain_ipv4_def Let_def split: if_splits)
  qed
qed

text \<open>The verdict on a packet, with the configuration in the map or all zeros.\<close>

definition active_config :: "bpf_maps \<Rightarrow> ts_config" where
  "active_config maps = (case ts_config_map maps of None \<Rightarrow> ts_config_zero | Some c \<Rightarrow> c)"

definition verdict :: "bpf_maps \<Rightarrow> sk_buff \<Rightarrow> bool \<times> parse_result" where
  "verdict maps skb = classify (ts_udp_ports maps) (active_config maps) skb \<lparr>reason = 0, ip_off = 0\<rparr>"

definition marks :: "bpf_maps \<Rightarrow> sk_buff \<Rightarrow> bool" where
  "marks maps skb \<longleftrightarrow> fst (verdict maps skb) \<and> ip_off (snd (verdict maps skb)) \<noteq> 0
     \<and> cfg_flags (active_config maps) AND TS_CFG_MARK_DSCP \<noteq> 0"

definition ts_priority :: "ts_config \<Rightarrow> u32" where
  "ts_priority cfg = (if cfg_priority cfg \<noteq> 0 then cfg_priority cfg else TS_DEFAULT_PRIORITY)"

definition ts_dscp :: "ts_config \<Rightarrow> byte" where
  "ts_dscp cfg = ucast (if cfg_dscp cfg \<noteq> 0 then cfg_dscp cfg else TS_DEFAULT_DSCP) AND 0x3f"

lemma ts_classifier_eq:
  "ts_classifier h maps skb =
     (let off = ip_off (snd (verdict maps skb)); cfg = active_config maps;
          maps1 = count_idx maps (reason (snd (verdict maps skb)));
          skb1 = (if fst (verdict maps skb) then skb\<lparr>skb_priority := ts_priority cfg\<rparr> else skb);
          (r, skb2) = (if marks maps skb then mark_dscp h skb1 off (ts_dscp cfg) else (0, skb1))
      in (TC_ACT_UNSPEC, if 0 < r then count_idx maps1 CNT_DSCP_MARKED else maps1, skb2))"
  by (cases "verdict maps skb")
    (auto simp: ts_classifier_def verdict_def active_config_def ts_priority_def ts_dscp_def marks_def Let_def
       simp del: One_nat_def split: prod.splits)

lemma verdict_priority: "verdict maps (skb\<lparr>skb_priority := x\<rparr>) = verdict maps skb"
  by (cases skb) (simp only: verdict_def classify_def sk_buff.simps)

lemma marks_plain:
  assumes "marks maps skb"
  shows "plain_ipv4 (sk_data skb) (ip_off (snd (verdict maps skb)))"
proof -
  have "ip_off (snd (verdict maps skb)) \<noteq> 0" using assms by (simp add: marks_def)
  with classify_ip_off_cases [of "\<lparr>reason = 0, ip_off = 0\<rparr>", OF _ refl]
  have "plain_ipv4 (take (sk_headlen skb) (sk_data skb)) (ip_off (snd (verdict maps skb)))"
    unfolding verdict_def by simp
  then show ?thesis by (blast dest: plain_ipv4_take)
qed

text \<open>
  A packet that differs only in the marked bytes, with at least as much of it in the linear
  part, is classified as before.
\<close>

lemma classify_agree:
  assumes ts: "fst (classify ports cfg skb pr)" and pr: "ip_off pr = 0"
    and off: "ip_off (snd (classify ports cfg skb pr)) = off" "off \<noteq> 0"
    and meta: "skb_vlan_present skb' = skb_vlan_present skb" "skb_vlan_tci skb' = skb_vlan_tci skb" "sk_headlen skb \<le> sk_headlen skb'"
    and data: "length (sk_data skb') = length (sk_data skb)"
      "\<And>j. j \<noteq> off + 1 \<Longrightarrow> j \<noteq> off + 10 \<Longrightarrow> j \<noteq> off + 11 \<Longrightarrow> sk_data skb' ! j = sk_data skb ! j"
  shows "fst (classify ports cfg skb' pr) \<and> ip_off (snd (classify ports cfg skb' pr)) = off"
proof -
  define d d' where "d = take (sk_headlen skb) (sk_data skb)" and "d' = take (sk_headlen skb') (sk_data skb')"
  define pcp where "pcp = (if skb_vlan_present skb then ucast (drop_bit 13 (skb_vlan_tci skb) AND 7) else 0 :: byte)"
  from classify_ip_off_cases [OF pr off] have plain: "plain_ipv4 d off" and o14: "14 \<le> off" by (simp_all add: d_def)
  have lens: "length d \<le> length d'" "off + 20 \<le> length d"
    using meta(3) data(1) plain by (auto simp: d_def d'_def plain_ipv4_def)
  have eq: "d' ! j = d ! j" if "j < length d" "j \<noteq> off + 1" "j \<noteq> off + 10" "j \<noteq> off + 11" for j
    using that data meta(3) by (simp add: d_def d'_def)
  have l14: "\<not> length d < 14" "\<not> length d' < 14" using lens by linarith+
  note unf = classify_def [of ports cfg skb pr] Let_def d_def [symmetric] pcp_def [symmetric]
  obtain o1 p1 c1 h1 where v: "vlan_loop 2 d 14 (be16_at d 12) pcp (skb_vlan_present skb) = Some (o1, p1, c1, h1)"
    using off pr l14 by (cases "vlan_loop 2 d 14 (be16_at d 12) pcp (skb_vlan_present skb)") (auto simp: unf)
  define pr1 where "pr1 = (if h1 \<and> TS_VLAN_PCP_MIN \<le> c1 then pr\<lparr>reason := CNT_TS_PCP\<rparr> else pr)"
  have pr1: "ip_off pr1 = 0" using pr by (simp add: pr1_def)
  have p: "p1 \<noteq> AVTP_ETHERTYPE" "p1 = ETH_P_IP"
    using off pr pr1 l14 v by (auto simp: unf pr1_def [symmetric] split: if_splits)
  then have c: "classify ports cfg skb pr = classify_ip ports cfg d o1 pr1"
    using l14 v by (simp add: unf pr1_def)
  then have o1: "o1 = off" using off pr1 by (simp add: classify_ip_off split: if_splits)
  have "vlan_loop 2 d' 14 (be16_at d 12) pcp (skb_vlan_present skb) = Some (off, p1, c1, h1)"
    by (rule vlan_loop_agree [OF v [unfolded o1]]) (use lens eq in simp_all)
  moreover have "be16_at d' 12 = be16_at d 12" using eq lens o14 by (simp add: be16_at_def)
  ultimately have "classify ports cfg skb' pr = classify_ip ports cfg d' off pr1"
    using l14 p meta
    by (cases "skb_vlan_present skb") (simp_all add: classify_def [of ports cfg skb' pr] Let_def d'_def [symmetric] pcp_def pr1_def)
  then show ?thesis
    using classify_ip_agree [OF plain lens(1) eq, of ports cfg pr1] ts off pr1 by (simp add: c o1 classify_ip_off)
qed

lemma new_tos_bits:
  "drop_bit 2 (new_tos dscp tos) = dscp AND 0x3f" "new_tos dscp tos AND 3 = tos AND 3"
proof -
  have m: "(3 :: byte) = mask 2" "(0x3f :: byte) = mask 6" by (simp_all add: mask_eq_exp_minus_1)
  show "drop_bit 2 (new_tos dscp tos) = dscp AND 0x3f"
    unfolding new_tos_def m by (rule bit_word_eqI) (auto simp: bit_simps)
  show "new_tos dscp tos AND 3 = tos AND 3"
    unfolding new_tos_def m by (rule bit_word_eqI) (auto simp: bit_simps)
qed

lemma new_tos_idem: "new_tos dscp (new_tos dscp tos) = new_tos dscp tos"
  unfolding new_tos_def [of dscp "new_tos dscp tos"] new_tos_bits by (simp add: new_tos_def)

lemma classify_reason:
  assumes "classify ports cfg skb \<lparr>reason = 0, ip_off = 0\<rparr> = (ts, pr)"
  shows "reason pr \<in> {CNT_NORMAL, CNT_TS_AVTP, CNT_TS_PCP, CNT_TS_UDP, CNT_PARSE_SHORT}"
    and "ts \<longleftrightarrow> reason pr \<in> {CNT_TS_AVTP, CNT_TS_PCP, CNT_TS_UDP}"
proof -
  have d: "reason (snd (classify_done pr)) \<in> {CNT_NORMAL, CNT_TS_PCP}" "reason (snd (by_udp pr)) \<in> {CNT_TS_UDP, CNT_TS_PCP}"
    "fst (classify_done pr) = (reason (snd (classify_done pr)) = CNT_TS_PCP)" for pr
    by (simp_all add: classify_done_def by_udp_def cnt_defs)
  define ok where "ok r = (reason (snd r) \<in> {CNT_NORMAL, CNT_TS_AVTP, CNT_TS_PCP, CNT_TS_UDP, CNT_PARSE_SHORT}
    \<and> (fst r \<longleftrightarrow> reason (snd r) \<in> {CNT_TS_AVTP, CNT_TS_PCP, CNT_TS_UDP}))" for r :: "bool \<times> parse_result"
  have "ok (classify_done pr)" "ok (by_udp pr)" for pr
    using d [of pr] by (auto simp: ok_def cnt_defs)
  moreover have "reason pr = CNT_PARSE_SHORT \<Longrightarrow> ok (False, pr)" "reason pr = CNT_TS_AVTP \<Longrightarrow> ok (True, pr)"
    "reason pr = CNT_TS_PCP \<Longrightarrow> ok (True, pr)" for pr
    by (simp_all add: ok_def cnt_defs)
  moreover from calculation have "ok (classify_ip ports cfg data off pr)" for data off pr
    by (simp add: classify_ip_def Let_def) (simp add: cnt_defs)
  ultimately have "ok (classify ports cfg skb \<lparr>reason = 0, ip_off = 0\<rparr>)"
    by (simp add: classify_def Let_def split: option.splits)
  then show "reason pr \<in> {CNT_NORMAL, CNT_TS_AVTP, CNT_TS_PCP, CNT_TS_UDP, CNT_PARSE_SHORT}"
    and "ts \<longleftrightarrow> reason pr \<in> {CNT_TS_AVTP, CNT_TS_PCP, CNT_TS_UDP}"
    using assms by (simp_all add: ok_def)
qed

context bpf_skb
begin

lemma ts_classifier_cases:
  assumes "ts_classifier h maps skb = (rv, maps', skb')"
  obtains (normal) "\<not> fst (verdict maps skb)" "skb' = skb" "maps' = count_idx maps (reason (snd (verdict maps skb)))"
  | (kept) "fst (verdict maps skb)" "skb' = skb\<lparr>skb_priority := ts_priority (active_config maps)\<rparr>"
      "maps' = count_idx maps (reason (snd (verdict maps skb)))"
      "marks maps skb \<Longrightarrow> (let i = ip_off (snd (verdict maps skb)) in
         fst (mark_dscp h skb' i (ts_dscp (active_config maps))) = -1
         \<or> new_tos (ts_dscp (active_config maps)) (sk_data skb ! (i + 1)) = sk_data skb ! (i + 1))"
  | (half) hl where "marks maps skb" "sk_headlen skb \<le> hl"
      "fst (mark_dscp h (skb\<lparr>skb_priority := ts_priority (active_config maps)\<rparr>) (ip_off (snd (verdict maps skb)))
         (ts_dscp (active_config maps))) = -1"
      "skb' = skb\<lparr>skb_priority := ts_priority (active_config maps), sk_headlen := hl,
         sk_data := csum_marked (sk_data skb) (ip_off (snd (verdict maps skb))) (ts_dscp (active_config maps))\<rparr>"
      "maps' = count_idx maps (reason (snd (verdict maps skb)))"
  | (whole) hl where "marks maps skb" "sk_headlen skb \<le> hl"
      "skb' = skb\<lparr>skb_priority := ts_priority (active_config maps), sk_headlen := hl,
         sk_data := marked (sk_data skb) (ip_off (snd (verdict maps skb))) (ts_dscp (active_config maps))\<rparr>"
      "new_tos (ts_dscp (active_config maps)) (sk_data skb ! (ip_off (snd (verdict maps skb)) + 1))
         \<noteq> sk_data skb ! (ip_off (snd (verdict maps skb)) + 1)"
      "maps' = count_idx (count_idx maps (reason (snd (verdict maps skb)))) CNT_DSCP_MARKED"
proof (cases "marks maps skb")
  case False
  then have "maps' = count_idx maps (reason (snd (verdict maps skb)))"
    "skb' = (if fst (verdict maps skb) then skb\<lparr>skb_priority := ts_priority (active_config maps)\<rparr> else skb)"
    using assms by (auto simp: ts_classifier_eq Let_def)
  then show ?thesis using False normal kept by (cases "fst (verdict maps skb)") simp_all
next
  case True
  let ?skb1 = "skb\<lparr>skb_priority := ts_priority (active_config maps)\<rparr>" and ?i = "ip_off (snd (verdict maps skb))"
  have ts: "fst (verdict maps skb)" using True by (simp add: marks_def)
  obtain r skb2 where r: "mark_dscp h ?skb1 ?i (ts_dscp (active_config maps)) = (r, skb2)" by fastforce
  then have res: "skb' = skb2" "maps' = (if 0 < r then count_idx (count_idx maps (reason (snd (verdict maps skb)))) CNT_DSCP_MARKED
      else count_idx maps (reason (snd (verdict maps skb))))"
    using assms True ts by (auto simp: ts_classifier_eq Let_def)
  from r show ?thesis
  proof (cases rule: mark_dscp_cases)
    case failed
    then show ?thesis using ts res r kept by (simp add: Let_def)
  next
    case same
    then show ?thesis using ts res kept by (simp add: Let_def)
  next
    case (half hl)
    then show ?thesis using True res r that(3) [of hl] by simp
  next
    case (whole hl)
    then show ?thesis using True res that(4) [of hl] by simp
  qed
qed

end

context bpf_skb
begin

lemma ts_classifier_rv: "ts_classifier h maps skb = (rv, maps', skb') \<Longrightarrow> rv = TC_ACT_UNSPEC"
  by (auto simp: ts_classifier_eq Let_def split: prod.splits)

lemma ts_classifier_maps:
  "ts_classifier h maps skb = (rv, maps', skb') \<Longrightarrow>
     ts_config_map maps' = ts_config_map maps \<and> ts_udp_ports maps' = ts_udp_ports maps"
  by (auto simp: ts_classifier_eq Let_def split: prod.splits)

lemma verdict_maps:
  assumes "ts_classifier h maps skb = (rv, maps', skb')"
  shows "active_config maps' = active_config maps" "verdict maps' = verdict maps"
  using ts_classifier_maps [OF assms] by (simp_all add: active_config_def verdict_def [abs_def])

lemma metadata_kept:
  assumes "ts_classifier h maps skb = (rv, maps', skb')"
  shows "length (sk_data skb') = length (sk_data skb) \<and> sk_headlen skb \<le> sk_headlen skb'
    \<and> skb_vlan_present skb' = skb_vlan_present skb \<and> skb_vlan_tci skb' = skb_vlan_tci skb
    \<and> skb_priority skb' = (if fst (verdict maps skb) then ts_priority (active_config maps) else skb_priority skb)"
  using assms by (cases rule: ts_classifier_cases) (simp_all add: marks_def)

lemma data_kept:
  assumes "ts_classifier h maps skb = (rv, maps', skb')" and "ip_off (snd (verdict maps skb)) = i"
    and "j \<notin> {i + 1, i + 10, i + 11} \<or> \<not> marks maps skb"
  shows "sk_data skb' ! j = sk_data skb ! j"
  using assms(1)
proof (cases rule: ts_classifier_cases)
  case (half hl)
  then show ?thesis using assms(2,3) marked_nth(1) [of j i] by simp
next
  case (whole hl)
  then show ?thesis using assms(2,3) marked_nth(2) [of j i] by simp
qed simp_all

lemma tos_byte:
  assumes "ts_classifier h maps skb = (rv, maps', skb')" and "ip_off (snd (verdict maps skb)) = i"
  shows "sk_data skb' ! (i + 1) = sk_data skb ! (i + 1)
    \<or> marks maps skb \<and> sk_data skb' ! (i + 1) = new_tos (ts_dscp (active_config maps)) (sk_data skb ! (i + 1))"
  using assms(1)
proof (cases rule: ts_classifier_cases)
  case (half hl)
  then show ?thesis using assms(2) marked_nth(1) [of "i + 1" i] by simp
next
  case (whole hl)
  then have "i + 1 < length (sk_data skb)" using marks_plain [of maps skb] assms(2) by (simp add: plain_ipv4_def)
  then show ?thesis using whole assms(2) marked_nth(3) by simp
qed simp_all

lemma counters:
  assumes "ts_classifier h maps skb = (rv, maps', skb')" and v: "verdict maps skb = (ts, pr)"
    and c: "ts_counters maps j = Some n"
  shows "ts_counters maps' j = Some (n + (if j = reason pr then 1 else 0)
    + (if j = CNT_DSCP_MARKED \<and> sk_data skb' ! (ip_off pr + 1) \<noteq> sk_data skb ! (ip_off pr + 1) then 1 else 0))"
proof -
  have r: "reason pr \<noteq> CNT_DSCP_MARKED"
    using classify_reason(1) [OF v [unfolded verdict_def]] by (auto simp: cnt_defs)
  from assms(1) show ?thesis
  proof (cases rule: ts_classifier_cases)
    case (half hl)
    then show ?thesis using v c marked_nth(1) [of "ip_off pr + 1" "ip_off pr"] by (auto simp: count_idx_counters)
  next
    case (whole hl)
    then have "ip_off pr + 1 < length (sk_data skb)" using marks_plain [of maps skb] v by (simp add: plain_ipv4_def)
    then have "sk_data skb' ! (ip_off pr + 1) \<noteq> sk_data skb ! (ip_off pr + 1)" using whole v by (simp add: marked_nth(3) del: add_Suc_right One_nat_def)
    then show ?thesis using whole v c r by (auto simp: count_idx_counters)
  qed (use v c in \<open>auto simp: count_idx_counters\<close>)
qed

end

context bpf_skb_writable
begin

lemma writable_cases:
  assumes "ts_classifier h maps skb = (rv, maps', skb')" and "marks maps skb"
  defines "i \<equiv> ip_off (snd (verdict maps skb))" and "dscp \<equiv> ts_dscp (active_config maps)"
  shows "sk_data skb' = (if new_tos dscp (sk_data skb ! (i + 1)) = sk_data skb ! (i + 1) then sk_data skb else marked (sk_data skb) i dscp)"
proof -
  let ?skb1 = "skb\<lparr>skb_priority := ts_priority (active_config maps)\<rparr>"
  have "i + 20 \<le> length (sk_data skb)" using marks_plain [OF assms(2)] by (simp add: i_def plain_ipv4_def)
  then have w: "0 \<le> fst (mark_dscp h ?skb1 i dscp)" by (intro mark_dscp_writable) simp
  from assms(1) show ?thesis
    by (cases rule: ts_classifier_cases) (use w assms(2) in \<open>simp_all add: i_def dscp_def marks_def Let_def\<close>)
qed

lemma again:
  assumes "ts_classifier h maps skb = (rv, maps', skb')"
  shows "snd (snd (ts_classifier h maps' skb')) = skb'"
proof -
  obtain rv2 maps2 skb2 where r: "ts_classifier h maps' skb' = (rv2, maps2, skb2)" by (metis prod_cases3)
  note vm = verdict_maps [OF assms]
  let ?i = "ip_off (snd (verdict maps skb))" and ?d = "ts_dscp (active_config maps)"
  show ?thesis
  proof (cases "marks maps skb")
    case False
    then have "skb' = (if fst (verdict maps skb) then skb\<lparr>skb_priority := ts_priority (active_config maps)\<rparr> else skb)"
      using assms by (auto simp: ts_classifier_eq Let_def)
    moreover have "verdict maps skb' = verdict maps skb"
      unfolding calculation by (simp add: verdict_priority)
    moreover from calculation have "\<not> marks maps' skb'" using False by (simp add: marks_def vm)
    ultimately show ?thesis by (simp add: ts_classifier_eq vm Let_def)
  next
    case True
    have i: "?i \<noteq> 0" "fst (verdict maps skb)" using True by (simp_all add: marks_def)
    have "fst (verdict maps skb') \<and> ip_off (snd (verdict maps skb')) = ?i"
      using metadata_kept [OF assms] data_kept [OF assms refl] i
      unfolding verdict_def by (intro classify_agree [where skb = skb]) (simp_all add: verdict_def)
    then have m: "marks maps' skb'" "ip_off (snd (verdict maps' skb')) = ?i" "fst (verdict maps' skb')"
      using True by (simp_all add: marks_def vm)
    have len: "?i + 1 < length (sk_data skb)" using marks_plain [OF True] by (simp add: plain_ipv4_def)
    then have t: "new_tos ?d (sk_data skb' ! (?i + 1)) = sk_data skb' ! (?i + 1)"
      using writable_cases [OF assms True] marked_nth(3) [OF len] by (simp add: new_tos_idem del: add_Suc_right One_nat_def)
    have "skb'\<lparr>skb_priority := ts_priority (active_config maps)\<rparr> = skb'"
      using metadata_kept [OF assms] i by (cases skb') simp
    moreover have "?i + 2 \<le> length (sk_data skb')" using metadata_kept [OF assms] len by simp
    ultimately show ?thesis using m t
      by (simp add: ts_classifier_eq vm Let_def mark_dscp_in_range del: add_Suc_right One_nat_def)
  qed
qed

end

section \<open>Properties\<close>

text \<open>A packet to port 6000, and a configuration that marks, for the witnesses.\<close>

definition sample_skb :: sk_buff where
  "sample_skb = \<lparr>sk_data = replicate 12 0 @ [8, 0, 0x45, 1, 0, 28, 0, 0, 0, 0, 64, 17, 0x66, 0xce, 10, 0, 0, 1, 10, 0, 0, 2,
     0x30, 0x39, 0x17, 0x70, 0, 8, 0, 0], sk_headlen = 42, skb_vlan_present = False, skb_vlan_tci = 0, skb_priority = 3\<rparr>"

definition sample_maps :: bpf_maps where
  "sample_maps = \<lparr>ts_config_map = Some \<lparr>cfg_priority = 0, cfg_dscp = 0, cfg_flags = 1, cfg_reserved = 0\<rparr>,
     ts_udp_ports = (\<lambda>_. None), ts_counters = (\<lambda>k. if k < 6 then Some 0 else None)\<rparr>"

lemma sample_verdict: "verdict sample_maps sample_skb = (True, \<lparr>reason = CNT_TS_UDP, ip_off = 14\<rparr>)"
  by code_simp

lemma sample_marks: "marks sample_maps sample_skb"
  by code_simp

text \<open>
  Property C2. The program always passes the packet on (\<open>TC_ACT_UNSPEC\<close>). A packet that is
  not time-sensitive is left alone entirely; a time-sensitive one gets the configured priority
  (6 by default), keeps its length and VLAN tag, and of its bytes only the TOS and the header
  checksum of an unfragmented IPv4 header may change, and only when marking is switched on; the
  two ECN bits never change. This holds for all helpers within their contract.
\<close>

theorem ts_classifier_confined:
  assumes "bpf_skb h" and "ts_classifier h maps skb = (rv, maps', skb')" and "verdict maps skb = (ts, pr)"
  shows "rv = TC_ACT_UNSPEC \<and> (\<not> ts \<longrightarrow> skb' = skb)
    \<and> skb_priority skb' = (if ts then ts_priority (active_config maps) else skb_priority skb)
    \<and> length (sk_data skb') = length (sk_data skb)
    \<and> skb_vlan_present skb' = skb_vlan_present skb \<and> skb_vlan_tci skb' = skb_vlan_tci skb
    \<and> (\<forall>j. sk_data skb' ! j \<noteq> sk_data skb ! j \<longrightarrow>
         marks maps skb \<and> plain_ipv4 (sk_data skb) (ip_off pr) \<and> j \<in> {ip_off pr + 1, ip_off pr + 10, ip_off pr + 11})
    \<and> sk_data skb' ! (ip_off pr + 1) AND 3 = sk_data skb ! (ip_off pr + 1) AND 3"
proof -
  note l = assms(1) and r = assms(2) and i = assms(3)
  have "\<not> ts \<Longrightarrow> skb' = skb"
    using bpf_skb.ts_classifier_cases [OF l r] i by (auto simp: marks_def)
  moreover have "sk_data skb' ! (ip_off pr + 1) AND 3 = sk_data skb ! (ip_off pr + 1) AND 3"
    using bpf_skb.tos_byte [OF l r, of "ip_off pr"] i by (auto simp: new_tos_bits)
  moreover have "marks maps skb \<and> plain_ipv4 (sk_data skb) (ip_off pr) \<and> j \<in> {ip_off pr + 1, ip_off pr + 10, ip_off pr + 11}"
    if "sk_data skb' ! j \<noteq> sk_data skb ! j" for j
    using bpf_skb.data_kept [OF l r, of "ip_off pr" j] marks_plain [of maps skb] that i by auto
  ultimately show ?thesis
    using bpf_skb.metadata_kept [OF l r] bpf_skb.ts_classifier_rv [OF l r] i by simp
qed

lemma ts_classifier_confined_witness:
  "\<exists>rv maps' skb'. ts_classifier bpf_ref sample_maps sample_skb = (rv, maps', skb') \<and> rv = TC_ACT_UNSPEC
     \<and> skb_priority skb' = 6 \<and> length (sk_data skb') = 42"
proof -
  obtain rv maps' skb' where r: "ts_classifier bpf_ref sample_maps sample_skb = (rv, maps', skb')" by (metis prod_cases3)
  have "ts_priority (active_config sample_maps) = 6" "length (sk_data sample_skb) = 42" by code_simp+
  then show ?thesis
    using ts_classifier_confined [OF ref.bpf_skb_axioms r sample_verdict] r by auto
qed

text \<open>The TOS byte, and in it the DSCP, with which a marked packet leaves.\<close>

lemma marked_tos:
  assumes "bpf_skb_writable h" and "ts_classifier h maps skb = (rv, maps', skb')" and "marks maps skb"
    and "i = ip_off (snd (verdict maps skb))"
  shows "sk_data skb' ! (i + 1) = new_tos (ts_dscp (active_config maps)) (sk_data skb ! (i + 1))"
proof -
  have "plain_ipv4 (sk_data skb) i" using marks_plain [OF assms(3)] assms(4) by simp
  then show ?thesis
    using bpf_skb_writable.writable_cases [OF assms(1-3)] marked_nth(3) [of i "sk_data skb"] assms(4)
    by (simp add: plain_ipv4_def del: add_Suc_right One_nat_def)
qed

lemma marked_dscp:
  assumes "bpf_skb_writable h" and "ts_classifier h maps skb = (rv, maps', skb')" and "marks maps skb"
  shows "drop_bit 2 (sk_data skb' ! (ip_off (snd (verdict maps skb)) + 1)) = ts_dscp (active_config maps)"
proof -
  let ?d = "ts_dscp (active_config maps)"
  note marked_tos [OF assms refl]
  moreover have "?d AND 0x3f = ?d" by (simp add: ts_dscp_def and.assoc)
  ultimately show ?thesis by (simp add: new_tos_bits)
qed

text \<open>
  Property C3. Let the helpers be writable: besides the contract, storing the byte and updating
  the checksum succeed wherever the packet has the bytes. When marking applies, the packet then
  leaves with the configured DSCP (EF by default) in the upper six bits of its TOS byte, with the
  two ECN bits it came with below them, and with an IPv4 header checksum that is valid whenever it
  was valid before: the incremental update agrees with recomputing the checksum. A header that
  arrived with a wrong checksum is not repaired, and nothing is claimed of it.
\<close>

theorem ts_classifier_checksum:
  assumes "bpf_skb_writable h" and "ts_classifier h maps skb = (rv, maps', skb')" and "marks maps skb"
    and "i = ip_off (snd (verdict maps skb))"
  shows "drop_bit 2 (sk_data skb' ! (i + 1)) = ts_dscp (active_config maps)
    \<and> sk_data skb' ! (i + 1) AND 3 = sk_data skb ! (i + 1) AND 3
    \<and> (csum_ok (sk_data skb) i \<longrightarrow> csum_ok (sk_data skb') i)"
proof -
  note w = bpf_skb_writable.writable_cases [OF assms(1-3)]
  have plain: "plain_ipv4 (sk_data skb) i" using marks_plain [OF assms(3)] assms(4) by simp
  have "sk_data skb' ! (i + 1) AND 3 = sk_data skb ! (i + 1) AND 3"
    unfolding marked_tos [OF assms] by (rule new_tos_bits)
  then show ?thesis using marked_dscp [OF assms(1-3)] w assms(4) csum_ok_marked [OF plain] by simp
qed

lemma ts_classifier_checksum_witness:
  "\<exists>rv maps' skb'. ts_classifier bpf_ref sample_maps sample_skb = (rv, maps', skb') \<and> drop_bit 2 (sk_data skb' ! 15) = 46
     \<and> sk_data skb' ! 15 AND 3 = 1 \<and> csum_ok (sk_data skb') 14"
proof -
  obtain rv maps' skb' where r: "ts_classifier bpf_ref sample_maps sample_skb = (rv, maps', skb')" by (metis prod_cases3)
  have "ts_dscp (active_config sample_maps) = 46" "sk_data sample_skb ! 15 AND 3 = 1" "csum_ok (sk_data sample_skb) 14"
    by code_simp+
  then show ?thesis
    using ts_classifier_checksum [OF ref.bpf_skb_writable_axioms r sample_marks, of 14] r by (auto simp: sample_verdict)
qed

text \<open>
  Property C6. Every packet is counted once under its reason, which is one of the five
  classification counters and agrees with the verdict; a rewritten TOS byte is counted once more
  as marked; all other counters and the configuration stay. Counters wrap at 64 bits.
\<close>

theorem ts_classifier_counters:
  assumes "bpf_skb h" and "ts_classifier h maps skb = (rv, maps', skb')" and "verdict maps skb = (ts, pr)"
    and "ts_counters maps j = Some n"
  shows "ts_counters maps' j = Some (n + (if j = reason pr then 1 else 0)
      + (if j = CNT_DSCP_MARKED \<and> sk_data skb' ! (ip_off pr + 1) \<noteq> sk_data skb ! (ip_off pr + 1) then 1 else 0))
    \<and> reason pr \<in> {CNT_NORMAL, CNT_TS_AVTP, CNT_TS_PCP, CNT_TS_UDP, CNT_PARSE_SHORT}
    \<and> (ts \<longleftrightarrow> reason pr \<in> {CNT_TS_AVTP, CNT_TS_PCP, CNT_TS_UDP})
    \<and> ts_config_map maps' = ts_config_map maps \<and> ts_udp_ports maps' = ts_udp_ports maps"
  using bpf_skb.counters [OF assms] bpf_skb.ts_classifier_maps [OF assms(1,2)]
    classify_reason [OF assms(3) [unfolded verdict_def]] by blast

lemma ts_classifier_counters_witness:
  "\<exists>rv maps' skb'. ts_classifier bpf_ref sample_maps sample_skb = (rv, maps', skb') \<and> ts_counters maps' CNT_TS_UDP = Some 1"
proof -
  obtain rv maps' skb' where r: "ts_classifier bpf_ref sample_maps sample_skb = (rv, maps', skb')" by (metis prod_cases3)
  have "ts_counters sample_maps CNT_TS_UDP = Some 0" by code_simp
  from ts_classifier_counters [OF ref.bpf_skb_axioms r sample_verdict this] r show ?thesis by (auto simp: cnt_defs)
qed

text \<open>
  Property C7. The program is idempotent: run again on its own output (as when it is attached
  to two devices on the path), it classifies the packet as before and changes nothing.
\<close>

theorem ts_classifier_idempotent:
  assumes "bpf_skb_writable h" and "ts_classifier h maps skb = (rv, maps', skb')"
  shows "snd (snd (ts_classifier h maps' skb')) = skb'"
  using assms by (rule bpf_skb_writable.again)

lemma ts_classifier_idempotent_witness:
  "\<exists>rv maps' skb'. ts_classifier bpf_ref sample_maps sample_skb = (rv, maps', skb')
     \<and> snd (snd (ts_classifier bpf_ref maps' skb')) = skb'"
proof -
  obtain rv maps' skb' where r: "ts_classifier bpf_ref sample_maps sample_skb = (rv, maps', skb')" by (metis prod_cases3)
  then show ?thesis using ts_classifier_idempotent [OF ref.bpf_skb_writable_axioms r] by blast
qed

text \<open>
  The probe counts every packet in the bucket of its priority, those of 15 and
  above together in the last one, and passes it on.
\<close>

theorem prio_probe_histogram:
  assumes "prio_hist b = Some n"
  shows "foldl (\<lambda>hist skb. snd (prio_probe hist skb)) prio_hist skbs b
      = Some (n + of_nat (length (filter (\<lambda>skb. min (skb_priority skb) 15 = b) skbs)))
    \<and> (\<forall>skb. fst (prio_probe prio_hist skb) = TC_ACT_UNSPEC)"
proof -
  have step: "snd (prio_probe hist skb) = (\<lambda>c. if c = min (skb_priority skb) 15 then map_option (\<lambda>v. v + 1) (hist c) else hist c)"
    for hist :: "u32 \<rightharpoonup> u64" and skb
  proof -
    have "(16 \<le> skb_priority skb) = (15 < skb_priority skb)"
      by (simp add: word_le_def word_less_def) linarith
    then show ?thesis
      by (auto simp: prio_probe_def PRIO_HIST_BUCKETS_def fun_eq_iff min_def Let_def not_less not_le split: option.splits)
  qed
  have "foldl (\<lambda>hist skb. snd (prio_probe hist skb)) prio_hist skbs b
      = Some (n + of_nat (length (filter (\<lambda>skb. min (skb_priority skb) 15 = b) skbs)))"
    using assms by (induction skbs arbitrary: prio_hist n) (auto simp: step)
  then show ?thesis by (simp add: prio_probe_def Let_def)
qed

lemma prio_probe_histogram_witness:
  "foldl (\<lambda>hist skb. snd (prio_probe hist skb)) (\<lambda>k. if k < 16 then Some 0 else None) [sample_skb, sample_skb] 3 = Some 2"
  using prio_probe_histogram [of "\<lambda>k. if k < 16 then Some 0 else None" 3 0 "[sample_skb, sample_skb]"]
  by (simp add: sample_skb_def)

end
