(* ===== verification/Pipeline.thy ===== *)
theory Pipeline
  imports Workload Classifier
begin

text \<open>
  The measurement path as a whole: what the talker puts on the wire, a network that may lose,
  duplicate and reorder datagrams, the listener's receive loop and CSV file, the loader and the
  loss accounting; and the classifier's mark as the listener and the DSCP counts see it.
\<close>

lemma ok_stamps_take: "set (ok_stamps seq (take n ticks)) \<subseteq> set (ok_stamps seq ticks)"
proof (induction seq ticks arbitrary: n rule: ok_stamps.induct)
  case (2 seq rs wall ok ticks)
  then show ?case by (cases n) auto
qed (auto simp: take_Cons')

lemma talker_wire:
  assumes "talker_loop ta tiv start_mono start_wall talker_init 0 ticks = Some (Inr tst)" and "0 \<le> ta_count ta" and "w \<in> set (tk_wire tst)"
  shows "unpack_header w \<in> set (ok_stamps 0 ticks)" and "length w = nat (max (ta_size ta) (int PKT_HEADER_SIZE))"
proof -
  obtain n where "talker_added ta tiv start_mono 0 ticks n talker_init tst"
    using talker_loop_added [OF assms(1,2)] by blast
  then have w: "map unpack_header (tk_wire tst) = ok_stamps 0 (take n ticks)"
    and "\<forall>w \<in> set (tk_wire tst). length w = nat (max (ta_size ta) (int PKT_HEADER_SIZE))"
    by (auto simp: talker_added_def talker_init_def)
  then show "length w = nat (max (ta_size ta) (int PKT_HEADER_SIZE))" using assms(3) by blast
  have "unpack_header w \<in> set (map unpack_header (tk_wire tst))" using assms(3) by simp
  then show "unpack_header w \<in> set (ok_stamps 0 ticks)" unfolding w using ok_stamps_take by blast
qed

text \<open>
  The events the listener sees: the payloads that arrive, each with its control data and receive
  time, after any number of timeouts, and what ends the run (a timeout or Ctrl-C).
\<close>

definition arrival_events :: "nat \<Rightarrow> (bytes \<times> cmsg list \<times> int) list \<Rightarrow> Listener.net_event \<Rightarrow> Listener.net_event list" where
  "arrival_events n arrivals stop =
     replicate n Listener.Timeout @ map (\<lambda>(w, anc, t). Listener.Datagram w anc t) arrivals @ [stop]"

text \<open>A payload as the listener takes it from the socket, with what it reads from the control data.\<close>

definition arrived :: "listener_args \<Rightarrow> bytes \<times> cmsg list \<times> int \<Rightarrow> packet" where
  "arrived a x = (case x of (w, anc, t) \<Rightarrow>
     (case recv_one (la_little a) (la_record_tos a) (la_kernel_ts a) w anc of
        Inl e \<Rightarrow> (w, None, None, t)
      | Inr (d, tos, k) \<Rightarrow> (d, tos, k, t)))"

definition readable :: "listener_args \<Rightarrow> bytes \<times> cmsg list \<times> int \<Rightarrow> bool" where
  "readable a x = (case x of (w, anc, t) \<Rightarrow> \<not> isl (recv_one (la_little a) (la_record_tos a) (la_kernel_ts a) w anc))"

lemma arrived_eq: "arrived a (w, anc, t) = (w, fst (snd (arrived a (w, anc, t))), fst (snd (snd (arrived a (w, anc, t)))), t)"
  by (auto simp: arrived_def dest: recv_one_data split: sum.split prod.split)

lemma waits_append: "waits a seen (xs @ ys) \<longleftrightarrow> waits a seen xs \<and> waits a (seen @ xs) ys"
  by (induction xs arbitrary: seen) simp_all

lemma waits_timeouts: "accepted a seen = [] \<Longrightarrow> waits a seen (replicate n Listener.Timeout)"
  by (induction n arbitrary: seen) (simp_all add: loop_stops_def)

lemma waits_datagrams:
  "list_all (readable a) arrivals \<Longrightarrow> waits a seen (map (\<lambda>(w, anc, t). Listener.Datagram w anc t) arrivals)"
  by (induction arrivals arbitrary: seen) (auto simp: loop_stops_def readable_def)

lemma accepted_datagrams:
  "list_all (readable a) arrivals \<Longrightarrow> \<forall>(w, anc, t) \<in> set arrivals. PKT_HEADER_SIZE \<le> length w \<Longrightarrow>
   accepted a (map (\<lambda>(w, anc, t). Listener.Datagram w anc t) arrivals) = map (arrived a) arrivals"
proof (induction arrivals)
  case (Cons x arrivals)
  obtain w anc t where x: "x = (w, anc, t)" by (cases x)
  then obtain d tos k where r: "recv_one (la_little a) (la_record_tos a) (la_kernel_ts a) w anc = Inr (d, tos, k)"
    using Cons.prems(1) by (cases "recv_one (la_little a) (la_record_tos a) (la_kernel_ts a) w anc") (auto simp: readable_def)
  then show ?case using Cons x recv_one_data [OF r] by (simp add: arrived_def)
qed simp

lemma listener_loop_arrivals:
  assumes "list_all (readable a) arrivals" and "\<forall>(w, anc, t) \<in> set arrivals. PKT_HEADER_SIZE \<le> length w"
    and "stop = Listener.Interrupt \<or> stop = Listener.Timeout \<and> arrivals \<noteq> []"
  shows "\<exists>st. listener_loop a iv listener_init (arrival_events n arrivals stop) = Some (Inr st)
    \<and> ls_results st = rows_of a iv None (map (arrived a) arrivals)"
proof -
  let ?pre = "replicate n Listener.Timeout @ map (\<lambda>(w, anc, t). Listener.Datagram w anc t) arrivals"
  have none: "accepted a (replicate n Listener.Timeout) = []" by (induction n) simp_all
  have acc: "accepted a ?pre = map (arrived a) arrivals"
    using accepted_datagrams [OF assms(1,2)] none by simp
  have "waits a [] ?pre"
    unfolding waits_append using waits_timeouts [of a "[]" n] waits_datagrams [OF assms(1)] by simp
  moreover have "loop_stops a ?pre stop" using assms(3) acc unfolding loop_stops_def by auto
  moreover have "stop \<in> {Listener.Interrupt, Listener.Timeout}" using assms(3) by blast
  ultimately have "\<exists>st. listener_loop a iv listener_init (?pre @ stop # []) = Some (Inr st)
      \<and> ls_results st = rows_of a iv None (accepted a ?pre)" by (rule listener_loop_returns)
  then show ?thesis by (simp only: acc arrival_events_def append_assoc)
qed

lemma rows_of_columns:
  "map row_seq (rows_of a iv prev ps) = map (\<lambda>(d, _). fst (unpack_header d)) ps"
  "map row_send_ns (rows_of a iv prev ps) = map (\<lambda>(d, _). snd (unpack_header d)) ps"
  "map row_recv_ns (rows_of a iv prev ps) = map (\<lambda>(_, _, _, t). t) ps"
  "map row_latency_ms (rows_of a iv prev ps)
     = map (\<lambda>(d, _, _, t). f_div (f_of_int (t - snd (unpack_header d))) (Num 1000000)) ps"
  "la_record_tos a \<Longrightarrow> map (\<lambda>r. the (row_tos r)) (rows_of a iv prev ps) = map (\<lambda>(_, tos, _, _). the tos) ps"
  by (induction a iv prev ps rule: rows_of.induct) (simp_all add: make_row_def split_def Let_def)

lemma arrived_columns:
  "map (\<lambda>(d, _). f d) (map (arrived a) arrivals) = map (\<lambda>(w, anc, t). f w) arrivals"
  "map (\<lambda>(d, _, _, t). g d t) (map (arrived a) arrivals) = map (\<lambda>(w, anc, t). g w t) arrivals"
  by (auto simp: arrived_def dest: recv_one_data split: sum.split prod.split)

text \<open>
  Property C4. End to end: whatever subset of the datagrams of a talker run the network delivers,
  in whatever order and however often, with whatever readable control data, the listener program,
  with or without \<open>--record-tos\<close> and \<open>--kernel-ts\<close>, waiting through any number of
  timeouts before the first arrival and ended by a timeout or by Ctrl-C (fewer than $2^{46}$
  events in all), ends with a report and an output file that loads (under a name
  \<open><condition>_run<k>.csv\<close>). The loaded run holds for each arrival in order the
  receive time and exactly a sequence number and send time that the talker stamped on a packet it
  sent, with the latency between the two, and, with \<open>--record-tos\<close>, the TOS value that
  came with it; the loss accounting then reports as received the number of arrivals, as lost the
  sequence numbers up to the highest that arrived which did not arrive, and as duplicates the
  surplus arrivals.
\<close>

theorem measurement_end_to_end:
  assumes "numpy_int np"
    and talk: "talker_program tos resolver tops start_mono start_wall ticks end_mono = (ttr, Some (Inr (target, tst, trep)))"
      "0 \<le> ta_count (to_args tops)" "ta_size (to_args tops) \<le> 65535"
    and stamps: "\<forall>(s, wall) \<in> set (ok_stamps 0 ticks). wall < 2 ^ 63"
    and net: "arrivals \<noteq> []" "\<forall>(w, anc, t) \<in> set arrivals. w \<in> set (tk_wire tst) \<and> int64 t" "int (n + length arrivals) < 2 ^ 46"
    and listen: "\<And>c. os c = Inr ()" "int_of_f64 (f_mul (la_interval (lo_args lops)) (Num 1000000)) = Inr iv"
      "list_all (readable (lo_args lops)) arrivals" "stop = Listener.Timeout \<or> stop = Listener.Interrupt"
      "parse_name (path_stem name) = Inr (c, k)" "lo_ready_file lops \<noteq> lo_output lops"
  shows "\<exists>ltr rep csv run. listener_program os pid lops (arrival_events n arrivals stop) = (ltr, Some (Inr (Some rep)))
    \<and> file_text (lo_output lops) ltr None = Some csv \<and> load_csv name csv = Inr run
    \<and> recv_ns run = map (\<lambda>(w, anc, t). t) arrivals
    \<and> zip (run_seq run) (send_ns run) = map (\<lambda>(w, anc, t). unpack_header w) arrivals
    \<and> set (zip (run_seq run) (send_ns run)) \<subseteq> set (ok_stamps 0 ticks)
    \<and> latency_ms run = map (\<lambda>(w, anc, t). f_div (f_of_int (t - snd (unpack_header w))) (Num 1000000)) arrivals
    \<and> run_tos run = (if la_record_tos (lo_args lops)
         then Some (map (\<lambda>x. case arrived (lo_args lops) x of (d, tos, ns, t) \<Rightarrow> the tos) arrivals) else None)
    \<and> dict_get (loss_summary np (run_seq run)) ''received'' = Some (f_of_int (int (length arrivals)))
    \<and> dict_get (loss_summary np (run_seq run)) ''lost''
        = Some (f_of_int (int (card ({0..Max (set (run_seq run))} - set (run_seq run)))))
    \<and> dict_get (loss_summary np (run_seq run)) ''duplicates'' = Some (f_of_int (int (length arrivals - card (set (run_seq run)))))"
proof -
  let ?a = "lo_args lops" and ?evs = "arrival_events n arrivals stop"
  obtain tiv where loop: "talker_loop (to_args tops) tiv start_mono start_wall talker_init 0 ticks = Some (Inr tst)"
    using talker_program_loop [OF talk(1)] .
  have wire: "unpack_header w \<in> set (ok_stamps 0 ticks)" "PKT_HEADER_SIZE \<le> length w" "length w \<le> 65535" "int64 t"
    if "(w, anc, t) \<in> set arrivals" for w anc t
    using net(2) that talker_wire [OF loop talk(2)] talk(3) by (auto simp: PKT_HEADER_SIZE_def)
  have fit: "length w \<le> 65535 \<and> snd (unpack_header w) < 2 ^ 63 \<and> int64 t" if wt: "(w, anc, t) \<in> set arrivals" for w anc t
    using wire [OF wt] stamps by (cases "unpack_header w") auto
  have long: "\<forall>(w, anc, t) \<in> set arrivals. PKT_HEADER_SIZE \<le> length w" using wire(2) by blast
  obtain lst where l: "listener_loop ?a iv listener_init ?evs = Some (Inr lst)"
      "ls_results lst = rows_of ?a iv None (map (arrived ?a) arrivals)"
    using listener_loop_arrivals [OF listen(3) long] listen(4) net(1) by blast
  then have ne: "ls_results lst \<noteq> []" using net(1) by (metis length_0_conv length_map length_rows_of)
  have evs: "list_all event_fits ?evs"
    using fit listen(4) by (auto simp: arrival_events_def list_all_iff unpack_header_def)
  have len: "int (length ?evs) \<le> 2 ^ 46" using net(3) by (simp add: arrival_events_def)
  obtain ltr rep csv run where run: "listener_program os pid lops ?evs = (ltr, Some (Inr (Some rep)))"
      "file_text (lo_output lops) ltr None = Some csv" "load_csv name csv = Inr run"
      "run_seq run = map row_seq (ls_results lst)" "send_ns run = map row_send_ns (ls_results lst)"
      "recv_ns run = map row_recv_ns (ls_results lst)" "latency_ms run = map row_latency_ms (ls_results lst)"
      "run_tos run = (if la_record_tos ?a then Some (map (\<lambda>r. the (row_tos r)) (ls_results lst)) else None)"
    by (rule listener_run_saved [of os lops iv ?evs lst name c k pid, OF listen(1,2) l(1) evs len listen(5,6) ne])
  note cols = run(4-8) [unfolded l(2) rows_of_columns arrived_columns]
  have zip: "zip (run_seq run) (send_ns run) = map (\<lambda>(w, anc, t). unpack_header w) arrivals"
    unfolding cols by (simp add: zip_map_map zip_same_conv_map split_def)
  have sub: "set (zip (run_seq run) (send_ns run)) \<subseteq> set (ok_stamps 0 ticks)" unfolding zip using wire(1) by auto
  have seqs: "run_seq run \<noteq> []" "list_all (\<lambda>s. 0 \<le> s) (run_seq run)" "length (run_seq run) = length arrivals"
    using net(1) unfolding cols by (auto simp: list_all_iff unpack_header_def be_int_range)
  have "int (length arrivals) - int (card (set (run_seq run))) = int (length arrivals - card (set (run_seq run)))"
    using card_set_le_length [of "run_seq run"] seqs(3) by simp
  note loss = loss_summary_values(2,4,5) [OF assms(1) seqs(1), folded missing_numbers_card [OF seqs(1,2)], unfolded seqs(3) this]
  have tos: "run_tos run = (if la_record_tos ?a
      then Some (map (\<lambda>x. case arrived ?a x of (d, tos, ns, t) \<Rightarrow> the tos) arrivals) else None)"
    using run(8) unfolding l(2) by (simp add: rows_of_columns comp_def split_def)
  show ?thesis
    by (rule exI [of _ ltr], rule exI [of _ rep], rule exI [of _ csv], rule exI [of _ run])
      (intro conjI run(1-3) cols(3,4) zip sub tos loss)
qed

lemma measurement_end_to_end_witness:
  "\<exists>ttr tst trep ltr rep csv run.
     talker_program (\<lambda>c. Inr ()) (\<lambda>n. Inr [''10.0.0.2''])
       \<lparr>to_args = \<lparr>ta_interval = Num 1, ta_count = 1, ta_size = 0, ta_quiet = True\<rparr>, to_target = ''sink'', to_port = 6000,
        to_so_priority = 6, to_log = []\<rparr> 5 100 [Tick [5] 101 True 0] 1000005 = (ttr, Some (Inr ((''10.0.0.2'', 6000), tst, trep)))
     \<and> listener_program (\<lambda>c. Inr ()) 7
         \<lparr>lo_args = \<lparr>la_interval = Num 1, la_record_tos = True, la_kernel_ts = True, la_little = True, la_quiet = True\<rparr>,
          lo_port = 6000, lo_timeout = Num 30, lo_output = ''d/results.csv'', lo_ready_file = ''r/ready''\<rparr>
         (arrival_events 2 [(last (tk_wire tst), [(IPPROTO_IP, IP_TOS, [184])], 500)] Listener.Timeout) = (ltr, Some (Inr (Some rep)))
     \<and> file_text ''d/results.csv'' ltr None = Some csv \<and> load_csv ''fifo_run1.csv'' csv = Inr run
     \<and> recv_ns run = [500] \<and> run_tos run = Some [184]"
proof -
  let ?tops = "\<lparr>to_args = \<lparr>ta_interval = Num 1, ta_count = 1, ta_size = 0, ta_quiet = True\<rparr>, to_target = ''sink'', to_port = 6000,
        to_so_priority = 6, to_log = []\<rparr>"
  let ?lops = "\<lparr>lo_args = \<lparr>la_interval = Num 1, la_record_tos = True, la_kernel_ts = True, la_little = True, la_quiet = True\<rparr>,
          lo_port = 6000, lo_timeout = Num 30, lo_output = ''d/results.csv'', lo_ready_file = ''r/ready''\<rparr>"
  let ?tp = "talker_program (\<lambda>c. Inr ()) (\<lambda>n. Inr [''10.0.0.2'']) ?tops 5 100 [Tick [5] 101 True 0] 1000005"
  have "map_option (map_sum id (\<lambda>st. length (tk_wire st))) (talker_loop (to_args ?tops) 1000000 5 100 talker_init 0 [Tick [5] 101 True 0])
      = Some (Inr 1)" by code_simp
  then obtain z where "talker_loop (to_args ?tops) 1000000 5 100 talker_init 0 [Tick [5] 101 True 0] = Some z"
      "map_sum id (\<lambda>st. length (tk_wire st)) z = Inr 1" by blast
  then obtain tst where loop: "talker_loop (to_args ?tops) 1000000 5 100 talker_init 0 [Tick [5] 101 True 0] = Some (Inr tst)" "length (tk_wire tst) = 1"
    by (cases z) simp_all
  have iv0: "interval_ns (to_args ?tops) = Inr 1000000" "\<not> f_eq (interval_s (to_args ?tops)) (Num 0)" by code_simp+
  have cnt: "0 \<le> ta_count (to_args ?tops)" "ta_count (to_args ?tops) \<le> 2 ^ 32" by simp_all
  have addr: "(\<lambda>n. Inr [''10.0.0.2'']) (to_target ?tops) = (Inr [''10.0.0.2''] :: string list res)" by simp
  obtain trep where "?tp = ((Resolve (to_target ?tops) # talker_calls ?tops) @ log_calls ?tops tst @ close_calls ?tops, Some (Inr ((''10.0.0.2'', to_port ?tops), tst, trep)))"
    by (rule talker_program_run [of "\<lambda>c. Inr ()" "\<lambda>n. Inr [''10.0.0.2'']" ?tops "''10.0.0.2''" "[]" 1000000 5 100 "[Tick [5] 101 True 0]" tst 1000005,
        OF refl addr iv0 cnt loop(1)])
  then have "\<exists>ttr. ?tp = (ttr, Some (Inr ((''10.0.0.2'', 6000), tst, trep)))" by simp
  then obtain ttr where t: "?tp = (ttr, Some (Inr ((''10.0.0.2'', 6000), tst, trep)))" ..
  from loop(2) have ne: "tk_wire tst \<noteq> []" by auto
  have name: "parse_name (path_stem ''fifo_run1.csv'') = Inr (''fifo'', Some 1)" by code_simp
  have iv: "int_of_f64 (f_mul (la_interval (lo_args ?lops)) (Num 1000000)) = Inr 1000000" by code_simp
  let ?arr = "[(last (tk_wire tst), [(IPPROTO_IP, IP_TOS, [184 :: byte])], 500 :: int)]"
  have pre: "0 \<le> ta_count (to_args ?tops)" "ta_size (to_args ?tops) \<le> 65535" "\<forall>(s, wall) \<in> set (ok_stamps 0 [Tick [5] 101 True 0]). wall < 2 ^ 63"
    "?arr \<noteq> []" "\<forall>(w, anc, t) \<in> set ?arr. w \<in> set (tk_wire tst) \<and> int64 t" "int (2 + length ?arr) < 2 ^ 46"
    using ne by (simp_all add: int64_def)
  have opt: "list_all (readable (lo_args ?lops)) ?arr" "lo_ready_file ?lops \<noteq> lo_output ?lops"
    by (simp_all add: readable_def recv_one_def)
  have tos: "map (\<lambda>x. case arrived (lo_args ?lops) x of (d, tos, ns, t) \<Rightarrow> the tos) ?arr = [184]"
    by (simp add: arrived_def recv_one_def)
  have stop: "Listener.Timeout = Listener.Timeout \<or> Listener.Timeout = Listener.Interrupt" by simp
  note run = measurement_end_to_end [of np_ref, OF np_ref.numpy_int_axioms t pre, of "\<lambda>c. Inr ()" ?lops 1000000 Listener.Timeout "''fifo_run1.csv''" "''fifo''" "Some 1" 7,
      OF refl iv opt(1) stop name opt(2), unfolded tos]
  then obtain ltr rep csv run where "listener_program (\<lambda>c. Inr ()) 7 ?lops (arrival_events 2 ?arr Listener.Timeout) = (ltr, Some (Inr (Some rep)))"
      "file_text (lo_output ?lops) ltr None = Some csv" "load_csv ''fifo_run1.csv'' csv = Inr run"
      "recv_ns run = map (\<lambda>(w, anc, t). t) ?arr" "run_tos run = (if la_record_tos (lo_args ?lops) then Some [184] else None)"
    by (elim exE conjE) (rule that)
  then show ?thesis using t by fastforce
qed

section \<open>The mark at the receiver\<close>

text \<open>The TOS byte with which a packet leaves the classifier.\<close>

definition sent_tos :: "bpf_helpers \<Rightarrow> bpf_maps \<Rightarrow> sk_buff \<Rightarrow> byte" where
  "sent_tos h maps skb = (case ts_classifier h maps skb of (rv, maps', skb') \<Rightarrow> sk_data skb' ! (ip_off (snd (verdict maps skb)) + 1))"

lemma sent_tos_dscp:
  assumes "bpf_skb_writable h" and "marks maps skb"
  shows "drop_bit 2 (uint (sent_tos h maps skb)) = uint (ts_dscp (active_config maps))"
proof -
  obtain rv maps' skb' where r: "ts_classifier h maps skb = (rv, maps', skb')" by (metis prod_cases3)
  have "drop_bit 2 (sent_tos h maps skb) = ts_dscp (active_config maps)"
    using marked_dscp [OF assms(1) r assms(2)] r by (simp add: sent_tos_def)
  moreover have "uint (drop_bit 2 w) = drop_bit 2 (uint w)" for w :: byte
    by (rule bit_eqI) (auto simp: bit_unsigned_iff bit_drop_bit_eq bit_simps dest: bit_imp_le_length)
  ultimately show ?thesis by metis
qed

text \<open>The histograms of a sample in which every packet carries the same DSCP.\<close>

lemma uniform_dscp:
  assumes np: "numpy_int np" and "ts \<noteq> []" and all: "\<forall>t \<in> set ts. 0 \<le> t \<and> drop_bit 2 t = k"
  shows "\<exists>d. dscp_distribution np (Some ts) = Some d \<and> dominant_dscp d = Some k \<and> dscp_hist d = [(k, length ts)] \<and> tos_missing d = 0"
proof -
  have valid: "filter (\<lambda>t. 0 \<le> t) ts = ts" using all by (simp add: filter_id_conv)
  have ks: "map (drop_bit 2) ts = replicate (length ts) k" using all by (simp add: map_replicate_const [symmetric])
  have "np_unique np (replicate (length ts) k) = [k]"
    using assms(2) by (simp add: numpy_int.unique_eq_sorted_list [OF np] set_replicate_conv_if)
  moreover have count_replicate: "count_list (replicate n k) k = n" for n by (induction n) simp_all
  ultimately have u: "np_unique_counts np (replicate (length ts) k) = ([k], [length ts])"
    by (simp add: numpy_int.unique_counts [OF np] count_replicate)
  have "np_argmax np [length ts] = 0" using numpy_int.argmax_less [OF np, of "[length ts]"] by simp
  then show ?thesis using assms(2) by (simp add: dscp_distribution_def valid ks u case_prod_unfold Let_def)
qed

text \<open>
  Property C5. The mark arrives: if each of a sequence of measurement packets is marked by the
  classifier and reaches the listener with the TOS byte it was sent with, then the listener records
  exactly those bytes, one row per packet, and the analysis reports the configured DSCP as the only
  and dominant one, with no value missing.
\<close>

theorem mark_observed:
  assumes "numpy_int np" and "bpf_skb_writable h" and "la_record_tos la" and "pkts \<noteq> []"
    and "\<forall>(maps, skb, d, t) \<in> set pkts. marks maps skb \<and> active_config maps = cfg \<and> PKT_HEADER_SIZE \<le> length d"
  shows "\<exists>lst dist. listener_loop la iv listener_init
      (map (\<lambda>(maps, skb, d, t). Listener.Datagram d [(IPPROTO_IP, IP_TOS, [sent_tos h maps skb])] t) pkts @ [Listener.Interrupt]) = Some (Inr lst)
    \<and> map row_tos (ls_results lst) = map (\<lambda>(maps, skb, d, t). Some (uint (sent_tos h maps skb))) pkts
    \<and> dscp_distribution np (Some (map (\<lambda>r. the (row_tos r)) (ls_results lst))) = Some dist
    \<and> dominant_dscp dist = Some (uint (ts_dscp cfg)) \<and> dscp_hist dist = [(uint (ts_dscp cfg), length pkts)] \<and> tos_missing dist = 0"
proof -
  let ?anc = "\<lambda>maps skb. [(IPPROTO_IP, IP_TOS, [sent_tos h maps skb])]"
  let ?xs = "map (\<lambda>(maps, skb, d, t). (d, ?anc maps skb, t)) pkts"
  let ?evs = "map (\<lambda>(maps, skb, d, t). Listener.Datagram d (?anc maps skb) t) pkts"
  let ?ps = "map (\<lambda>(maps, skb, d, t). (d, Some (uint (sent_tos h maps skb)), None :: int option, t)) pkts"
  have recv: "recv_one (la_little la) (la_record_tos la) (la_kernel_ts la) d (?anc maps skb) = Inr (d, Some (uint (sent_tos h maps skb)), None)" for d maps skb
    using assms(3) by (simp add: recv_one_def)
  have evs: "map (\<lambda>(d, anc, t). Listener.Datagram d anc t) ?xs = ?evs" by auto
  have acc: "accepted la ?evs = ?ps" using assms(5) by (induction pkts) (auto simp: recv)
  have "list_all (readable la) ?xs" by (auto simp: list_all_iff readable_def recv)
  then have "waits la [] ?evs" using waits_datagrams [of la ?xs "[]"] by (simp only: evs)
  from listener_loop_returns [OF this, of Listener.Interrupt iv "[]"] obtain lst where
    l: "listener_loop la iv listener_init (?evs @ [Listener.Interrupt]) = Some (Inr lst)" "ls_results lst = rows_of la iv None ?ps"
    by (auto simp: loop_stops_def acc)
  have tos: "map row_tos (ls_results lst) = map (\<lambda>(maps, skb, d, t). Some (uint (sent_tos h maps skb))) pkts"
    unfolding l(2) by (rule nth_equalityI) (use assms(3) in \<open>auto simp: rows_of_nth make_row_def split_def Let_def\<close>)
  let ?ts = "map (\<lambda>r. the (row_tos r)) (ls_results lst)"
  have "?ts = map the (map row_tos (ls_results lst))" by simp
  then have ts: "?ts = map (\<lambda>(maps, skb, d, t). uint (sent_tos h maps skb)) pkts" unfolding tos by (simp add: split_def)
  have "\<forall>t \<in> set ?ts. 0 \<le> t \<and> drop_bit 2 t = uint (ts_dscp cfg)"
    unfolding ts using assms(5) sent_tos_dscp [OF assms(2)] by fastforce
  then obtain dist where "dscp_distribution np (Some ?ts) = Some dist" "dominant_dscp dist = Some (uint (ts_dscp cfg))"
    "dscp_hist dist = [(uint (ts_dscp cfg), length ?ts)]" "tos_missing dist = 0"
    using uniform_dscp [OF assms(1), of ?ts "uint (ts_dscp cfg)"] ts assms(4) by auto
  moreover have "length ?ts = length pkts" by (simp add: ts)
  ultimately show ?thesis using l(1) tos by auto
qed

lemma mark_observed_witness:
  "\<exists>lst. listener_loop \<lparr>la_interval = Num 1, la_record_tos = True, la_kernel_ts = False, la_little = True, la_quiet = True\<rparr> 1000000 listener_init
      [Listener.Datagram (replicate 12 0) [(IPPROTO_IP, IP_TOS, [sent_tos bpf_ref sample_maps sample_skb])] 500, Listener.Interrupt] = Some (Inr lst)
     \<and> map row_tos (ls_results lst) = [Some (uint (sent_tos bpf_ref sample_maps sample_skb))]"
  using mark_observed [OF np_ref.numpy_int_axioms ref.bpf_skb_writable_axioms, of "\<lparr>la_interval = Num 1, la_record_tos = True, la_kernel_ts = False, la_little = True, la_quiet = True\<rparr>"
      "[(sample_maps, sample_skb, replicate 12 0, 500)]" "active_config sample_maps" 1000000] sample_marks
  by (auto simp: PKT_HEADER_SIZE_def)

end
