(* ===== verification/Frames.thy ===== *)
theory Frames
  imports Classifier
begin

text \<open>
  The classifier of \<open>ts_classifier.c\<close> against abstract frames, as the tests build them with
  the builders of \<open>bpf/tests/bpf_harness.py\<close>: for every frame and every IPv4 packet the
  verdict, the reason and the offset are those of the specification.
\<close>

unbundle bit_operations_syntax

section \<open>Abstract frames\<close>

text \<open>
  What the tests build: an Ethernet frame with a stack of VLAN tags, and an IPv4 packet with
  options.
\<close>

definition be16_bytes :: "u16 \<Rightarrow> bytes" where
  "be16_bytes w = [ucast (drop_bit 8 w), ucast w]"

record frame =
  fr_macs :: bytes
  fr_tags :: "(u16 \<times> u16) list"
  fr_type :: u16
  fr_payload :: bytes

definition frame_bytes :: "frame \<Rightarrow> bytes" where
  "frame_bytes f = fr_macs f @ concat (map (\<lambda>(tpid, tci). be16_bytes tpid @ be16_bytes tci) (fr_tags f))
     @ be16_bytes (fr_type f) @ fr_payload f"

text \<open>At most two tags with the VLAN types, and below two none hidden in the type field.\<close>

definition frame_wf :: "frame \<Rightarrow> bool" where
  "frame_wf f \<longleftrightarrow> length (fr_macs f) = 12 \<and> length (fr_tags f) \<le> 2 \<and> (\<forall>(tpid, tci) \<in> set (fr_tags f). is_vlan tpid)
     \<and> (length (fr_tags f) < 2 \<longrightarrow> \<not> is_vlan (fr_type f))"

record ip_packet =
  ip_options :: bytes
  ip_tos :: byte
  ip_len_id :: bytes
  ip_frag :: u16
  ip_ttl :: byte
  ip_proto :: byte
  ip_csum_addrs :: bytes
  ip_body :: bytes

definition ip_bytes :: "ip_packet \<Rightarrow> bytes" where
  "ip_bytes p = [word_of_nat (64 + 5 + length (ip_options p) div 4), ip_tos p] @ ip_len_id p @ be16_bytes (ip_frag p)
     @ [ip_ttl p, ip_proto p] @ ip_csum_addrs p @ ip_options p @ ip_body p"

definition ip_wf :: "ip_packet \<Rightarrow> bool" where
  "ip_wf p \<longleftrightarrow> length (ip_options p) \<le> 40 \<and> 4 dvd length (ip_options p) \<and> length (ip_len_id p) = 4 \<and> length (ip_csum_addrs p) = 10"

text \<open>
  The specification: the PCP that counts is the one the driver took off, or that of the
  outermost tag; a datagram is time-sensitive when it is whole and its port is configured.
\<close>

definition outer_pcp :: "sk_buff \<Rightarrow> frame \<Rightarrow> byte option" where
  "outer_pcp skb f = (if skb_vlan_present skb then Some (ucast (drop_bit 13 (skb_vlan_tci skb) AND 7))
     else case fr_tags f of [] \<Rightarrow> None | (tpid, tci) # _ \<Rightarrow> Some (ucast (drop_bit 13 tci AND 7)))"

definition high_pcp :: "sk_buff \<Rightarrow> frame \<Rightarrow> bool" where
  "high_pcp skb f = (case outer_pcp skb f of None \<Rightarrow> False | Some pcp \<Rightarrow> 5 \<le> pcp)"

definition whole_datagram :: "ip_packet \<Rightarrow> bool" where
  "whole_datagram p \<longleftrightarrow> ip_frag p AND 0x3fff = 0"

definition ts_port :: "(u16 \<rightharpoonup> byte) \<Rightarrow> ts_config \<Rightarrow> u16 \<Rightarrow> bool" where
  "ts_port ports cfg port \<longleftrightarrow> port = 6000 \<and> cfg_flags cfg AND 2 = 0 \<or> port \<in> dom ports"

definition ts_datagram :: "(u16 \<rightharpoonup> byte) \<Rightarrow> ts_config \<Rightarrow> ip_packet \<Rightarrow> bool" where
  "ts_datagram ports cfg p \<longleftrightarrow> whole_datagram p \<and> ip_proto p = 17 \<and> 8 \<le> length (ip_body p)
     \<and> ts_port ports cfg (be16_at (ip_body p) 2)"

section \<open>Reading encoded fields\<close>

lemma length_be16_bytes [simp]: "length (be16_bytes w) = 2"
  by (simp add: be16_bytes_def)

lemma be16_at_le16: "be16_at data i = le16 (data ! (i + 1)) (data ! i)"
  by (simp add: be16_at_def le16_def)

lemma be16_at_hd [simp]: "be16_at (be16_bytes w @ ys) 0 = w"
  using le16_split [of w] by (simp add: be16_at_le16 be16_bytes_def)

lemma be16_at_append: "length xs \<le> i \<Longrightarrow> be16_at (xs @ ys) i = be16_at ys (i - length xs)"
  by (simp add: be16_at_def nth_append Suc_diff_le)

lemma be16_at_Cons: "0 < i \<Longrightarrow> be16_at (x # xs) i = be16_at xs (i - 1)"
  using be16_at_append [of "[x]" i xs] by simp

lemma vlan_loop_frame:
  assumes "frame_wf f"
  shows "vlan_loop 2 (frame_bytes f) 14 (be16_at (frame_bytes f) 12) pcp hp =
    Some (14 + 4 * length (fr_tags f), fr_type f,
      if hp then pcp else case fr_tags f of [] \<Rightarrow> pcp | (tpid, tci) # _ \<Rightarrow> ucast (drop_bit 13 tci AND 7),
      hp \<or> fr_tags f \<noteq> [])"
proof -
  consider "fr_tags f = []" | a b where "fr_tags f = [(a, b)]" | a b c d where "fr_tags f = [(a, b), (c, d)]"
    using assms by (cases "fr_tags f"; cases "tl (fr_tags f)") (auto simp: frame_wf_def)
  then show ?thesis
    by cases (use assms in \<open>simp_all add: numeral_2_eq_2 frame_wf_def frame_bytes_def be16_at_append\<close>)
qed

lemma ip_bytes_first:
  assumes "ip_wf p"
  shows "drop_bit 4 (ip_bytes p ! 0) = 4" "unat (ip_bytes p ! 0 AND 15) * 4 = 20 + length (ip_options p)"
proof -
  obtain n where n: "length (ip_options p) = 4 * n" using assms by (auto simp: ip_wf_def)
  moreover from this have "n \<le> 10" using assms by (simp add: ip_wf_def)
  then have "n \<in> {0, 1, 2, 3, 4, 5, 6, 7, 8, 9, 10}" by (simp, presburger)
  ultimately show "drop_bit 4 (ip_bytes p ! 0) = 4" "unat (ip_bytes p ! 0 AND 15) * 4 = 20 + length (ip_options p)"
    unfolding ip_bytes_def n by auto
qed

lemma ip_bytes_fields:
  assumes "ip_wf p"
  shows "ip_bytes p ! 9 = ip_proto p" "be16_at (ip_bytes p) 6 = ip_frag p"
    "be16_at (ip_bytes p) (20 + length (ip_options p) + 2) = be16_at (ip_body p) 2"
    "length (ip_bytes p) = 20 + length (ip_options p) + length (ip_body p)"
  using assms by (simp_all add: ip_bytes_def ip_wf_def nth_append be16_at_append be16_at_Cons nth_Cons')

section \<open>Refinement of the specification\<close>

definition spec_classify :: "(u16 \<rightharpoonup> byte) \<Rightarrow> ts_config \<Rightarrow> sk_buff \<Rightarrow> frame \<Rightarrow> ip_packet \<Rightarrow> bool \<times> parse_result" where
  "spec_classify ports cfg skb f p =
     (let ip = (fr_type f = ETH_P_IP); udp = (ip \<and> ts_datagram ports cfg p)
      in (fr_type f = AVTP_ETHERTYPE \<or> high_pcp skb f \<or> udp,
          \<lparr>reason = (if fr_type f = AVTP_ETHERTYPE then CNT_TS_AVTP else if high_pcp skb f then CNT_TS_PCP
             else if udp then CNT_TS_UDP else CNT_NORMAL),
           ip_off = (if ip \<and> whole_datagram p then 14 + 4 * length (fr_tags f) else 0)\<rparr>))"

lemma frame_bytes_split:
  assumes "frame_wf f"
  obtains pre where "frame_bytes f = pre @ fr_payload f" "length pre = 14 + 4 * length (fr_tags f)"
proof -
  let ?tags = "concat (map (\<lambda>(tpid, tci). be16_bytes tpid @ be16_bytes tci) (fr_tags f))"
  have "length (concat (map (\<lambda>(tpid, tci). be16_bytes tpid @ be16_bytes tci) ts)) = 4 * length ts" for ts
    by (induction ts) auto
  then show thesis using that [of "fr_macs f @ ?tags @ be16_bytes (fr_type f)"] assms
    by (simp add: frame_bytes_def frame_wf_def)
qed

lemma classify_ip_packet:
  assumes "ip_wf p" and "ip_off pr = 0"
  shows "classify_ip ports cfg (pre @ ip_bytes p) (length pre) pr =
    (if \<not> whole_datagram p then classify_done pr
     else if ts_datagram ports cfg p then by_udp (pr\<lparr>ip_off := length pre\<rparr>)
     else classify_done (pr\<lparr>ip_off := length pre\<rparr>))"
proof -
  let ?d = "pre @ ip_bytes p" and ?n = "length pre" and ?hl = "20 + length (ip_options p)"
  note f = ip_bytes_fields [OF assms(1)] ip_bytes_first [OF assms(1)]
  have d0: "?d ! ?n = ip_bytes p ! 0" "?d ! (?n + 9) = ip_proto p" by (simp_all add: nth_append f)
  have b: "be16_at ?d (?n + i) = be16_at (ip_bytes p) i" for i by (simp add: be16_at_append)
  have d6: "be16_at ?d (?n + 6) = ip_frag p" "be16_at ?d (?n + ?hl + 2) = be16_at (ip_body p) 2"
    using f(2,3) b [of 6] b [of "?hl + 2"] by (simp_all only: add.assoc)
  show ?thesis
    using assms(2) unfolding classify_ip_def Let_def d0 d6 f
    by (auto simp: f whole_datagram_def ts_datagram_def ts_port_def TS_IP_MF_def TS_IP_OFFSET_def IPPROTO_UDP_def
        TS_CFG_DISABLE_UDP_DEFAULT_def TS_DEFAULT_UDP_PORT_def)
qed

text \<open>
  Property C1. The classifier implements the specification on every frame: time-sensitive are
  AVTP frames, frames whose outermost PCP (or the one the driver took off) is at least 5, and
  whole UDP datagrams to a configured port; fragments count as normal traffic; the reason
  prefers AVTP over PCP over port; and the offset of the IPv4 header is reported exactly for
  unfragmented IPv4, under no, one or two tags and with any options.
\<close>

theorem classify_refines_spec:
  assumes "frame_wf f" and "fr_type f = ETH_P_IP \<longrightarrow> fr_payload f = ip_bytes p \<and> ip_wf p"
    and "sk_data skb = frame_bytes f" and "length (frame_bytes f) \<le> sk_headlen skb"
  shows "classify ports cfg skb \<lparr>reason = 0, ip_off = 0\<rparr> = spec_classify ports cfg skb f p"
proof -
  have d: "take (sk_headlen skb) (sk_data skb) = frame_bytes f" using assms(3,4) by simp
  obtain pre where pre: "frame_bytes f = pre @ fr_payload f" "length pre = 14 + 4 * length (fr_tags f)"
    using frame_bytes_split [OF assms(1)] .
  then have len: "\<not> length (frame_bytes f) < 14" by simp
  note v = vlan_loop_frame [OF assms(1)]
  define pr where "pr = \<lparr>reason = (if high_pcp skb f then CNT_TS_PCP else 0), ip_off = 0\<rparr>"
  have c: "classify ports cfg skb \<lparr>reason = 0, ip_off = 0\<rparr> =
      (if fr_type f = AVTP_ETHERTYPE then (True, \<lparr>reason = CNT_TS_AVTP, ip_off = 0\<rparr>)
       else if fr_type f = ETH_P_IP then classify_ip ports cfg (frame_bytes f) (14 + 4 * length (fr_tags f)) pr
       else classify_done pr)"
    using len by (simp add: classify_def d v pr_def high_pcp_def outer_pcp_def TS_VLAN_PCP_MIN_def Let_def split: list.splits)
  have "classify_ip ports cfg (frame_bytes f) (14 + 4 * length (fr_tags f)) pr =
    (if \<not> whole_datagram p then classify_done pr
     else if ts_datagram ports cfg p then by_udp (pr\<lparr>ip_off := 14 + 4 * length (fr_tags f)\<rparr>)
     else classify_done (pr\<lparr>ip_off := 14 + 4 * length (fr_tags f)\<rparr>))" if "fr_type f = ETH_P_IP"
    using classify_ip_packet [of p pr ports cfg pre] assms(2) that pre by (simp add: pr_def)
  then show ?thesis unfolding c
    by (simp add: spec_classify_def Let_def pr_def classify_done_def by_udp_def ts_datagram_def)
      (simp add: proto_defs cnt_defs)
qed

lemma classify_refines_spec_witness:
  "classify Map.empty ts_config_zero \<lparr>sk_data = frame_bytes \<lparr>fr_macs = replicate 12 0, fr_tags = [(0x8100, 0xA064)],
       fr_type = 0x22F0, fr_payload = [1, 2, 3]\<rparr>, sk_headlen = 100, skb_vlan_present = False, skb_vlan_tci = 0, skb_priority = 0\<rparr>
     \<lparr>reason = 0, ip_off = 0\<rparr> = (True, \<lparr>reason = CNT_TS_AVTP, ip_off = 0\<rparr>)"
proof -
  let ?f = "\<lparr>fr_macs = replicate 12 0, fr_tags = [(0x8100, 0xA064)], fr_type = 0x22F0, fr_payload = [1, 2, 3]\<rparr> :: frame"
  have "frame_wf ?f" by (simp add: frame_wf_def is_vlan_def proto_defs)
  then show ?thesis
    using classify_refines_spec [of ?f] by (simp add: spec_classify_def proto_defs frame_bytes_def Let_def)
qed

end
