(* ===== verification/BpfMaps.thy ===== *)
theory BpfMaps
  imports PyJson Classifier
begin

text \<open>
  \<open>testbed/bpfmaps.py\<close>: reading and writing the programs' pinned maps through
  \<open>bpftool\<close>. What \<open>bpftool\<close> answers is a parameter, as the JSON value its output
  denotes or the failure of the process. The lemmas show that both layouts of a dump (with type
  information and raw bytes) give the sum over the CPUs, that the counters carry the names of the
  classifier's enumeration, and that a configuration written here is the one the classifier reads.
\<close>

section \<open>Definitions\<close>

definition CNT_NAMES :: "string list" where
  "CNT_NAMES = [''normal'', ''ts_avtp'', ''ts_pcp'', ''ts_udp'', ''dscp_marked'', ''parse_short'']"

text \<open>\<open>int(s, 16)\<close>: sign, an optional \<open>0x\<close> prefix, hexadecimal digits with single underscores.\<close>

fun hex_digits :: "bool \<Rightarrow> string \<Rightarrow> int \<Rightarrow> int option" where
  "hex_digits digit [] acc = (if digit then Some acc else None)"
| "hex_digits digit (c # s) acc =
     (if c = CHR ''_'' then (if digit then hex_digits False s acc else None)
      else case hex_val c of None \<Rightarrow> None | Some d \<Rightarrow> hex_digits True s (16 * acc + d))"

definition py_int_16 :: "string \<Rightarrow> int res" where
  "py_int_16 s =
     (let (neg, body) = split_sign (strip s);
          pre = take 2 body = ''0x'' \<or> take 2 body = ''0X'';
          digits = (if pre then (if take 1 (drop 2 body) = ''_'' then drop 3 body else drop 2 body) else body)
      in case hex_digits False digits 0 of
           None \<Rightarrow> Inl (ValueError ''invalid literal for int() with base 16'')
         | Some n \<Rightarrow> Inr (if neg then - n else n))"

text \<open>\<open>int(v)\<close> of a JSON value, and its truth value, items and iteration.\<close>

fun int_of_json :: "json \<Rightarrow> int res" where
  "int_of_json (JInt n) = Inr n"
| "int_of_json (JBool b) = Inr (if b then 1 else 0)"
| "int_of_json (JFloat x) = int_of_f64 x"
| "int_of_json (JStr s) = py_int s"
| "int_of_json _ = Inl (TypeError ''int() argument must be a string or a number'')"

fun truthy :: "json \<Rightarrow> bool" where
  "truthy JNull = False"
| "truthy (JBool b) = b"
| "truthy (JInt n) = (n \<noteq> 0)"
| "truthy (JFloat x) = (\<not> f_eq x (Num 0))"
| "truthy (JStr s) = (s \<noteq> [])"
| "truthy (JList vs) = (vs \<noteq> [])"
| "truthy (JObj kvs) = (kvs \<noteq> [])"

fun json_get :: "json \<Rightarrow> string \<Rightarrow> json option res" where
  "json_get (JObj kvs) k = Inr (dict_get kvs k)"
| "json_get _ k = Inl (AttributeError ''get'')"

fun json_item :: "json \<Rightarrow> string \<Rightarrow> json res" where
  "json_item (JObj kvs) k = (case dict_get kvs k of None \<Rightarrow> Inl (KeyError k) | Some v \<Rightarrow> Inr v)"
| "json_item _ k = Inl (TypeError ''indices must be integers or not subscriptable'')"

fun json_iter :: "json \<Rightarrow> json list res" where
  "json_iter (JList vs) = Inr vs"
| "json_iter (JObj kvs) = Inr (map (\<lambda>(k, v). JStr k) kvs)"
| "json_iter (JStr s) = Inr (map (\<lambda>c. JStr [c]) s)"
| "json_iter _ = Inl (TypeError ''object is not iterable'')"

fun int_16_of_json :: "json \<Rightarrow> int res" where
  "int_16_of_json (JStr s) = py_int_16 s"
| "int_16_of_json _ = Inl (TypeError ''int() can't convert non-string with explicit base'')"

definition byte_of_json :: "json \<Rightarrow> byte res" where
  "byte_of_json b = res_bind (int_16_of_json b) (\<lambda>n.
     if 0 \<le> n \<and> n < 256 then Inr (word_of_int n) else Inl (ValueError ''bytes must be in range(0, 256)''))"

fun json_to_int :: "json \<Rightarrow> int res" where
  "json_to_int (JInt n) = Inr n"
| "json_to_int (JBool b) = Inr (if b then 1 else 0)"
| "json_to_int (JList bs) = res_bind (res_mapM byte_of_json bs) (\<lambda>bytes. Inr (le_int bytes))"
| "json_to_int v = int_of_json v"

text \<open>\<open>obj.get("values") or [{"value": obj.get("value", 0)}]\<close>.\<close>

definition entry_values :: "json \<Rightarrow> json res" where
  "entry_values obj = res_bind (json_get obj ''values'') (\<lambda>vals.
     case vals of
       Some v \<Rightarrow> if truthy v then Inr v
                 else res_bind (json_get obj ''value'') (\<lambda>w. Inr (JList [JObj [(''value'', case w of None \<Rightarrow> JInt 0 | Some x \<Rightarrow> x)]]))
     | None \<Rightarrow> res_bind (json_get obj ''value'') (\<lambda>w. Inr (JList [JObj [(''value'', case w of None \<Rightarrow> JInt 0 | Some x \<Rightarrow> x)]])))"

definition dump_entry :: "json \<Rightarrow> (string \<times> int) res" where
  "dump_entry e = res_bind (json_get e ''formatted'') (\<lambda>fmt.
     res_bind (case fmt of
         Some f \<Rightarrow> (if f \<noteq> JNull
           then res_bind (json_item f ''key'') (\<lambda>k. res_bind (entry_values f) (\<lambda>vs. Inr (k, vs)))
           else res_bind (json_item e ''key'') (\<lambda>k. res_bind (json_to_int k) (\<lambda>n. res_bind (entry_values e) (\<lambda>vs. Inr (JInt n, vs)))))
       | None \<Rightarrow> res_bind (json_item e ''key'') (\<lambda>k. res_bind (json_to_int k) (\<lambda>n. res_bind (entry_values e) (\<lambda>vs. Inr (JInt n, vs)))))
       (\<lambda>(key, vals).
     res_bind (json_iter vals) (\<lambda>vs.
     res_bind (res_mapM (\<lambda>v. res_bind (json_item v ''value'') json_to_int) vs) (\<lambda>ns.
     res_bind (int_of_json key) (\<lambda>k. Inr (int_str k, sum_list ns))))))"

definition dump_percpu :: "json res \<Rightarrow> (string, int) dict res" where
  "dump_percpu out = res_bind out (\<lambda>doc. res_bind (json_iter doc) (\<lambda>es.
     res_bind (res_mapM dump_entry es) (\<lambda>kvs. Inr (foldl (\<lambda>d (k, v). dict_put d k v) [] kvs))))"

definition hex_byte :: "byte \<Rightarrow> string" where
  "hex_byte b = [hex_digit (unat b div 16), hex_digit (unat b mod 16)]"

definition set_ts_config :: "string \<Rightarrow> string \<Rightarrow> string \<Rightarrow> string \<Rightarrow> string list res" where
  "set_ts_config pinned prio dscp flags =
     res_bind (py_int prio) (\<lambda>p. res_bind (py_int dscp) (\<lambda>d. res_bind (py_int flags) (\<lambda>f.
     res_bind (res_mapM (pack_unsigned 4) [p, d, f, 0]) (\<lambda>ns.
     Inr ([''bpftool'', ''map'', ''update'', ''pinned'', pinned, ''key'', ''hex''] @ map hex_byte (le_bytes 4 0)
          @ [''value'', ''hex''] @ map hex_byte (concat (map (le_bytes 4) ns)))))))"

definition counters :: "(string, int) dict \<Rightarrow> (string, int) dict" where
  "counters raw = map (\<lambda>(i, name). (name, dict_get_or raw (nat_str i) 0)) (enumerate 0 CNT_NAMES)"

text \<open>What the program does: it prints a text, or runs a command, with its exit status.\<close>

datatype bpfmaps_effect = Print string | Run "string list" | Usage

definition argv_at :: "string list \<Rightarrow> nat \<Rightarrow> string res" where
  "argv_at argv i = (if i < length argv then Inr (argv ! i) else Inl (IndexError ''list index out of range''))"

definition json_of_counts :: "(string, int) dict \<Rightarrow> json" where
  "json_of_counts d = JObj (map (\<lambda>(k, v). (k, JInt v)) d)"

definition bpfmaps_main ::
  "(string \<Rightarrow> json res) \<Rightarrow> (string list \<Rightarrow> unit res) \<Rightarrow> string list \<Rightarrow> (int \<times> bpfmaps_effect) res" where
  "bpfmaps_main dump run argv =
     res_bind (argv_at argv 1) (\<lambda>cmd.
       if cmd = ''dump-percpu'' then
         res_bind (argv_at argv 2) (\<lambda>pinned. res_bind (dump_percpu (dump pinned)) (\<lambda>d.
         res_bind (json_dumps True None (json_of_counts d)) (\<lambda>t. Inr (0, Print t))))
       else if cmd = ''counters'' then
         res_bind (argv_at argv 2) (\<lambda>pinned. res_bind (dump_percpu (dump pinned)) (\<lambda>d.
         res_bind (json_dumps True None (json_of_counts (counters d))) (\<lambda>t. Inr (0, Print t))))
       else if cmd = ''set-ts-config'' then
         res_bind (argv_at argv 2) (\<lambda>pinned. res_bind (argv_at argv 3) (\<lambda>p. res_bind (argv_at argv 4) (\<lambda>d.
         res_bind (argv_at argv 5) (\<lambda>f. res_bind (set_ts_config pinned p d f) (\<lambda>c.
         res_bind (run c) (\<lambda>_. Inr (0, Run c)))))))
       else Inr (2, Usage))"

section \<open>Hexadecimal bytes\<close>

lemma hex_digits_byte: "hex_digits False (hex_byte b) 0 = Some (uint b)"
proof -
  have n: "unat b < 256" using unsigned_less [of b, where ?'a = nat] by simp
  have "16 * int (unat b div 16) + int (unat b mod 16) = int (unat b)"
    by (simp only: zdiv_int zmod_int of_nat_numeral mult_div_mod_eq)
  then show ?thesis using n hex_val_digit [of "unat b div 16"] hex_val_digit [of "unat b mod 16"]
    by (simp add: hex_byte_def)
qed

lemma py_int_16_hex: "py_int_16 (hex_byte b) = Inr (uint b)" "py_int_16 (''0x'' @ hex_byte b) = Inr (uint b)"
proof -
  have n: "unat b < 256" using unsigned_less [of b, where ?'a = nat] by simp
  obtain c d where h: "hex_byte b = [c, d]" and c: "\<not> is_space c" "c \<noteq> CHR ''-''" "c \<noteq> CHR ''+''" "c \<noteq> CHR ''_''"
    and d: "\<not> is_space d" "d \<noteq> CHR ''x''" "d \<noteq> CHR ''X''"
    using n hex_val_digit [of "unat b div 16"] hex_val_digit [of "unat b mod 16"] by (simp add: hex_byte_def)
  have "\<not> is_space (CHR ''0'')" "\<not> is_space (CHR ''x'')" by code_simp+
  then have "strip [c, d] = [c, d]" "strip (''0x'' @ [c, d]) = ''0x'' @ [c, d]"
    by (auto intro!: strip_no_space simp: c d)
  then show "py_int_16 (hex_byte b) = Inr (uint b)" "py_int_16 (''0x'' @ hex_byte b) = Inr (uint b)"
    using hex_digits_byte [of b] c d by (simp_all add: py_int_16_def h split_sign_def)
qed

section \<open>Dumps\<close>

text \<open>
  The two layouts of an entry of a per-CPU map: raw little-endian bytes, and next to them the
  value \<open>bpftool\<close> formats when it has type information.
\<close>

definition json_hex :: "bytes \<Rightarrow> json" where
  "json_hex bs = JList (map (\<lambda>b. JStr (''0x'' @ hex_byte b)) bs)"

definition cpu_values :: "(int \<Rightarrow> json) \<Rightarrow> int list \<Rightarrow> json" where
  "cpu_values f vs = JList (map (\<lambda>(cpu, v). JObj [(''cpu'', JInt (int cpu)), (''value'', f v)]) (enumerate 0 vs))"

definition dump_obj :: "bool \<Rightarrow> int \<Rightarrow> int list \<Rightarrow> json" where
  "dump_obj formatted k vs =
     JObj ([(''key'', json_hex (le_bytes 4 k)), (''values'', cpu_values (\<lambda>v. json_hex (le_bytes 8 v)) vs)]
       @ (if formatted then [(''formatted'', JObj [(''key'', JInt k), (''values'', cpu_values JInt vs)])] else []))"

lemma json_to_int_hex: "0 \<le> n \<Longrightarrow> n < 256 ^ k \<Longrightarrow> json_to_int (json_hex (le_bytes k n)) = Inr n"
proof -
  assume "0 \<le> n" "n < 256 ^ k"
  moreover have "res_mapM byte_of_json (map (\<lambda>b. JStr (''0x'' @ hex_byte b)) bs) = Inr (map (\<lambda>b. b) bs)" for bs
    by (rule res_mapM_map_map)
      (simp add: byte_of_json_def py_int_16_hex(2) [simplified])
  ultimately show ?thesis by (simp add: json_hex_def le_int_le_bytes)
qed

lemma cpu_values_sum:
  assumes "\<And>v. v \<in> set vs \<Longrightarrow> json_to_int (f v) = Inr v" and "cpu_values f vs = JList us"
  shows "res_mapM (\<lambda>v. res_bind (json_item v ''value'') json_to_int) us = Inr vs"
proof -
  have "us = map (\<lambda>(cpu, v). JObj [(''cpu'', JInt (int cpu)), (''value'', f v)]) (enumerate 0 vs)"
    using assms(2) by (simp add: cpu_values_def)
  moreover have "res_mapM (\<lambda>v. res_bind (json_item v ''value'') json_to_int)
      (map (\<lambda>(cpu, v). JObj [(''cpu'', JInt (int cpu)), (''value'', f v)]) (enumerate 0 vs)) = Inr (map snd (enumerate 0 vs))"
    by (rule res_mapM_map_map) (use assms(1) in \<open>auto simp: in_set_enumerate_eq\<close>)
  ultimately show ?thesis by simp
qed

lemma dump_entry_obj:
  assumes "0 \<le> k" "k < 2 ^ 32" "vs \<noteq> []" "\<forall>v \<in> set vs. 0 \<le> v \<and> v < 2 ^ 64"
  shows "dump_entry (dump_obj formatted k vs) = Inr (int_str k, sum_list vs)"
proof -
  let ?f = "\<lambda>v. json_hex (le_bytes 8 v)"
  have k: "json_to_int (json_hex (le_bytes 4 k)) = Inr k" using assms by (intro json_to_int_hex) simp_all
  have v: "json_to_int (?f v) = Inr v" if "v \<in> set vs" for v using assms that by (intro json_to_int_hex) simp_all
  obtain us where us: "cpu_values ?f vs = JList us" "us \<noteq> []" using assms(3) by (simp add: cpu_values_def enumerate_eq_zip)
  obtain ws where ws: "cpu_values JInt vs = JList ws" "ws \<noteq> []" using assms(3) by (simp add: cpu_values_def enumerate_eq_zip)
  have "res_mapM (\<lambda>v. res_bind (json_item v ''value'') json_to_int) us = Inr vs" using v us(1) by (rule cpu_values_sum)
  moreover have "res_mapM (\<lambda>v. res_bind (json_item v ''value'') json_to_int) ws = Inr vs"
    by (rule cpu_values_sum [OF _ ws(1)]) simp
  ultimately show ?thesis using k us ws by (cases formatted) (simp_all add: dump_entry_def dump_obj_def entry_values_def)
qed

lemma foldl_dict_put_distinct:
  "distinct (map fst kvs) \<Longrightarrow> set (dict_keys d) \<inter> set (map fst kvs) = {} \<Longrightarrow> foldl (\<lambda>d (k, v). dict_put d k v) d kvs = d @ kvs"
  by (induction kvs arbitrary: d) (auto simp: dict_put_new dict_keys_def)

lemma py_int_int_str_small: "\<bar>n\<bar> < 10 ^ 100 \<Longrightarrow> py_int (int_str n) = Inr n"
  by (rule py_int_int_str, rule below_digit_limit_int)

lemma int_str_inj: "int_str a = int_str b \<Longrightarrow> \<bar>a\<bar> < 10 ^ 100 \<Longrightarrow> \<bar>b\<bar> < 10 ^ 100 \<Longrightarrow> a = b"
proof -
  assume eq: "int_str a = int_str b" and a: "\<bar>a\<bar> < 10 ^ 100" and b: "\<bar>b\<bar> < 10 ^ 100"
  have "Inr a = (Inr b :: int res)"
    using py_int_int_str_small [OF a] py_int_int_str_small [OF b] unfolding eq by (rule trans [OF sym])
  then show ?thesis by simp
qed

text \<open>A dump of a map: each key with its per-CPU values, either layout per entry.\<close>

definition dump_ok :: "(bool \<times> int \<times> int list) list \<Rightarrow> bool" where
  "dump_ok es \<longleftrightarrow> distinct (map (\<lambda>(_, k, _). k) es)
     \<and> (\<forall>(_, k, vs) \<in> set es. 0 \<le> k \<and> k < 2 ^ 32 \<and> vs \<noteq> [] \<and> (\<forall>v \<in> set vs. 0 \<le> v \<and> v < 2 ^ 64))"

lemma small_key: "0 \<le> k \<Longrightarrow> k < 2 ^ 32 \<Longrightarrow> \<bar>k :: int\<bar> < 10 ^ 100"
  by (simp add: order.strict_trans1)

lemma dump_percpu_sums:
  assumes "dump_ok es"
  shows "dump_percpu (Inr (JList (map (\<lambda>(fm, k, vs). dump_obj fm k vs) es)))
    = Inr (map (\<lambda>(_, k, vs). (int_str k, sum_list vs)) es)"
proof -
  have "res_mapM dump_entry (map (\<lambda>(fm, k, vs). dump_obj fm k vs) es) = Inr (map (\<lambda>(_, k, vs). (int_str k, sum_list vs)) es)"
    by (rule res_mapM_map_map) (use assms in \<open>auto simp: dump_ok_def intro!: dump_entry_obj\<close>)
  moreover have "inj_on int_str ((\<lambda>(_, k, _). k) ` set es)"
    using assms by (intro inj_onI int_str_inj) (auto simp: dump_ok_def intro!: small_key)
  then have "distinct (map int_str (map (\<lambda>(_, k, _). k) es))"
    using assms by (subst distinct_map) (simp add: dump_ok_def)
  then have "distinct (map fst (map (\<lambda>(_, k, vs). (int_str k, sum_list vs)) es))" by (simp add: comp_def split_def)
  ultimately show ?thesis by (simp add: dump_percpu_def foldl_dict_put_distinct dict_keys_def)
qed

lemma dict_get_map_key:
  assumes "distinct (map f es)" and "e \<in> set es" and "inj_on g (f ` set es)"
  shows "dict_get (map (\<lambda>e. (g (f e), h e)) es) (g (f e)) = Some (h e)"
  using assms
proof (induction es)
  case (Cons a es)
  show ?case
  proof (cases "g (f e) = g (f a)")
    case True
    then have "f e = f a" using inj_onD [OF Cons.prems(3) True] Cons.prems(2) by auto
    moreover have "f a \<notin> f ` set es" using Cons.prems(1) by simp
    ultimately have "e = a" using Cons.prems(2) imageI [of e "set es" f] by auto
    then show ?thesis by simp
  next
    case False
    then show ?thesis using Cons by (auto simp: inj_on_insert)
  qed
qed simp

text \<open>The counters by name, and under the constants of the classifier.\<close>

lemma counters_values:
  "counters raw = [(''normal'', dict_get_or raw (int_str 0) 0), (''ts_avtp'', dict_get_or raw (int_str 1) 0),
     (''ts_pcp'', dict_get_or raw (int_str 2) 0), (''ts_udp'', dict_get_or raw (int_str 3) 0),
     (''dscp_marked'', dict_get_or raw (int_str 4) 0), (''parse_short'', dict_get_or raw (int_str 5) 0)]"
  by (simp add: counters_def CNT_NAMES_def int_str_def numeral_eq_Suc)

lemma counters_by_constant:
  assumes "(c, name) \<in> set [(CNT_NORMAL, ''normal''), (CNT_TS_AVTP, ''ts_avtp''), (CNT_TS_PCP, ''ts_pcp''),
    (CNT_TS_UDP, ''ts_udp''), (CNT_DSCP_MARKED, ''dscp_marked''), (CNT_PARSE_SHORT, ''parse_short'')]"
  shows "dict_get (counters raw) name = Some (dict_get_or raw (int_str (uint c)) 0)" and "0 \<le> uint c" and "uint c < 6"
proof -
  have "dict_get (counters raw) name = Some (dict_get_or raw (int_str (uint c)) 0) \<and> uint c < 6"
    using assms unfolding list.set insert_iff prod.inject empty_iff
    by (elim disjE conjE FalseE) (simp_all add: counters_values dict_get_def cnt_defs)
  then show "dict_get (counters raw) name = Some (dict_get_or raw (int_str (uint c)) 0)" "0 \<le> uint c" "uint c < 6" by simp_all
qed

text \<open>
  Property C30. Reading a map: whatever mixture of formatted and raw entries \<open>bpftool\<close>
  prints, the dump is the sum over the CPUs for every key in order, and \<open>counters\<close> lists
  exactly the six counters of the classifier, each under the name of the constant with which the
  classifier counts (\<open>CNT_NORMAL\<close> as \<open>normal\<close>, and so on), with the sum of the entry
  whose key is that constant, or 0 when there is none.
\<close>

theorem counters_sum_cpus:
  assumes "dump_ok es" and "dump pinned = Inr (JList (map (\<lambda>(fm, k, vs). dump_obj fm k vs) es))"
  shows "\<exists>raw. dump_percpu (dump pinned) = Inr raw \<and> raw = map (\<lambda>(_, k, vs). (int_str k, sum_list vs)) es
    \<and> dict_keys (counters raw) = [''normal'', ''ts_avtp'', ''ts_pcp'', ''ts_udp'', ''dscp_marked'', ''parse_short'']
    \<and> (\<forall>(c, name) \<in> set
        [(CNT_NORMAL, ''normal''), (CNT_TS_AVTP, ''ts_avtp''), (CNT_TS_PCP, ''ts_pcp''),
         (CNT_TS_UDP, ''ts_udp''), (CNT_DSCP_MARKED, ''dscp_marked''), (CNT_PARSE_SHORT, ''parse_short'')].
         (\<forall>fm vs. (fm, uint c, vs) \<in> set es \<longrightarrow> dict_get (counters raw) name = Some (sum_list vs))
         \<and> (uint c \<notin> (\<lambda>(_, k, _). k) ` set es \<longrightarrow> dict_get (counters raw) name = Some 0))"
proof -
  let ?raw = "map (\<lambda>(_, k, vs). (int_str k, sum_list vs)) es"
  let ?f = "\<lambda>e :: bool \<times> int \<times> int list. fst (snd e)"
  let ?tab = "[(CNT_NORMAL, ''normal''), (CNT_TS_AVTP, ''ts_avtp''), (CNT_TS_PCP, ''ts_pcp''),
         (CNT_TS_UDP, ''ts_udp''), (CNT_DSCP_MARKED, ''dscp_marked''), (CNT_PARSE_SHORT, ''parse_short'')]"
  have inj: "inj_on int_str (?f ` set es)"
    using assms(1) by (intro inj_onI int_str_inj) (auto simp: dump_ok_def intro!: small_key)
  have raw: "?raw = map (\<lambda>e. (int_str (?f e), sum_list (snd (snd e)))) es" by (simp add: split_def)
  note c = counters_by_constant(1) and k = counters_by_constant(2,3)
  have d: "distinct (map ?f es)" using assms(1) by (simp add: dump_ok_def split_def)
  have some: "dict_get ?raw (int_str (uint c)) = Some (sum_list vs)" if "(fm, uint c, vs) \<in> set es" for c :: u32 and fm vs
    using dict_get_map_key [OF d that inj, of "\<lambda>e. sum_list (snd (snd e))"] by (simp add: raw)
  have none: "dict_get ?raw (int_str (uint c)) = None"
    if "(c, name) \<in> set ?tab" "uint c \<notin> (\<lambda>(_, k, _). k) ` set es" for c name
  proof -
    have "int_str (uint c) \<noteq> int_str x" if "(fm, x, vs) \<in> set es" for fm x vs
      using int_str_inj [of "uint c" x] that k [OF \<open>(c, name) \<in> set ?tab\<close>] assms(1) small_key [of x] small_key [of "uint c"]
        \<open>uint c \<notin> _\<close> by (force simp: dump_ok_def)
    then show ?thesis unfolding dict_get_def map_of_eq_None_iff by force
  qed
  have "(\<forall>fm vs. (fm, uint c, vs) \<in> set es \<longrightarrow> dict_get (counters ?raw) name = Some (sum_list vs))
      \<and> (uint c \<notin> (\<lambda>(_, k, _). k) ` set es \<longrightarrow> dict_get (counters ?raw) name = Some 0)" if "(c, name) \<in> set ?tab" for c name
    unfolding c [OF that] dict_get_or_def using some none [OF that] by simp
  then have "\<forall>(c, name) \<in> set ?tab. (\<forall>fm vs. (fm, uint c, vs) \<in> set es \<longrightarrow> dict_get (counters ?raw) name = Some (sum_list vs))
      \<and> (uint c \<notin> (\<lambda>(_, k, _). k) ` set es \<longrightarrow> dict_get (counters ?raw) name = Some 0)" by blast
  moreover have "dict_keys (counters ?raw) = [''normal'', ''ts_avtp'', ''ts_pcp'', ''ts_udp'', ''dscp_marked'', ''parse_short'']"
    by (simp add: dict_keys_def counters_values)
  ultimately show ?thesis unfolding assms(2) by (intro exI [of _ ?raw] conjI dump_percpu_sums [OF assms(1)] refl)
qed

lemma counters_sum_cpus_witness:
  "\<exists>raw. dump_percpu (Inr (JList (map (\<lambda>(fm, k, vs). dump_obj fm k vs) [(True, 0, [5, 7]), (False, 3, [1, 2])]))) = Inr raw
     \<and> dict_get (counters raw) ''normal'' = Some 12 \<and> dict_get (counters raw) ''ts_udp'' = Some 3"
proof -
  let ?es = "[(True, 0, [5, 7]), (False, 3, [1, 2])] :: (bool \<times> int \<times> int list) list"
  have ok: "dump_ok ?es" by (simp add: dump_ok_def)
  have u: "uint CNT_NORMAL = 0" "uint CNT_TS_UDP = 3" by (simp_all add: cnt_defs)
  from counters_sum_cpus [of ?es "\<lambda>_. Inr (JList (map (\<lambda>(fm, k, vs). dump_obj fm k vs) ?es))", OF ok refl] obtain raw where
    r: "dump_percpu (Inr (JList (map (\<lambda>(fm, k, vs). dump_obj fm k vs) ?es))) = Inr raw"
    and all: "\<forall>(c, name) \<in> set [(CNT_NORMAL, ''normal''), (CNT_TS_AVTP, ''ts_avtp''), (CNT_TS_PCP, ''ts_pcp''),
    (CNT_TS_UDP, ''ts_udp''), (CNT_DSCP_MARKED, ''dscp_marked''), (CNT_PARSE_SHORT, ''parse_short'')].
      (\<forall>fm vs. (fm, uint c, vs) \<in> set ?es \<longrightarrow> dict_get (counters raw) name = Some (sum_list vs))
      \<and> (uint c \<notin> (\<lambda>(_, k, _). k) ` set ?es \<longrightarrow> dict_get (counters raw) name = Some 0)" by (elim exE conjE) (rule that)
  have "(CNT_NORMAL, ''normal'') \<in> set [(CNT_NORMAL, ''normal''), (CNT_TS_AVTP, ''ts_avtp''), (CNT_TS_PCP, ''ts_pcp''),
    (CNT_TS_UDP, ''ts_udp''), (CNT_DSCP_MARKED, ''dscp_marked''), (CNT_PARSE_SHORT, ''parse_short'')]"
    "(CNT_TS_UDP, ''ts_udp'') \<in> set [(CNT_NORMAL, ''normal''), (CNT_TS_AVTP, ''ts_avtp''), (CNT_TS_PCP, ''ts_pcp''),
    (CNT_TS_UDP, ''ts_udp''), (CNT_DSCP_MARKED, ''dscp_marked''), (CNT_PARSE_SHORT, ''parse_short'')]" by simp_all
  from this [THEN bspec [OF all]] have "\<And>fm vs. (fm, uint CNT_NORMAL, vs) \<in> set ?es \<Longrightarrow> dict_get (counters raw) ''normal'' = Some (sum_list vs)"
    "\<And>fm vs. (fm, uint CNT_TS_UDP, vs) \<in> set ?es \<Longrightarrow> dict_get (counters raw) ''ts_udp'' = Some (sum_list vs)" by blast+
  from this(1) [of True "[5, 7]"] this(2) [of False "[1, 2]"] r u show ?thesis by simp
qed

section \<open>Configuration\<close>

text \<open>The map's value as the classifier reads it: four 32-bit little-endian fields.\<close>

definition config_of_bytes :: "bytes \<Rightarrow> ts_config" where
  "config_of_bytes bs = \<lparr>cfg_priority = word_of_int (le_int (take 4 bs)), cfg_dscp = word_of_int (le_int (take 4 (drop 4 bs))),
     cfg_flags = word_of_int (le_int (take 4 (drop 8 bs))), cfg_reserved = word_of_int (le_int (take 4 (drop 12 bs)))\<rparr>"

text \<open>
  Property C31. Writing a configuration: for three numbers of 32 bits the command carries key 0
  and sixteen bytes in hexadecimal that denote exactly the configuration the classifier then
  reads; a number out of range is refused with \<open>struct.error\<close> before any command runs.
\<close>

theorem set_ts_config_roundtrip:
  assumes "\<bar>p\<bar> < 10 ^ 100" and "\<bar>d\<bar> < 10 ^ 100" and "\<bar>f\<bar> < 10 ^ 100"
  shows "(if {p, d, f} \<subseteq> {0..<2 ^ 32}
    then \<exists>bs. set_ts_config pinned (int_str p) (int_str d) (int_str f)
           = Inr ([''bpftool'', ''map'', ''update'', ''pinned'', pinned, ''key'', ''hex'', ''00'', ''00'', ''00'', ''00'', ''value'', ''hex'']
                  @ map hex_byte bs)
         \<and> config_of_bytes bs = \<lparr>cfg_priority = word_of_int p, cfg_dscp = word_of_int d, cfg_flags = word_of_int f, cfg_reserved = 0\<rparr>
         \<and> map (\<lambda>b. py_int_16 (hex_byte b)) bs = map (\<lambda>b. Inr (uint b)) bs \<and> length bs = 16
    else \<exists>msg. set_ts_config pinned (int_str p) (int_str d) (int_str f) = Inl (StructError msg))"
proof -
  note i = assms [THEN py_int_int_str_small]
  have z: "map hex_byte (le_bytes 4 0) = [''00'', ''00'', ''00'', ''00'']"
    by code_simp
  show ?thesis
  proof (cases "{p, d, f} \<subseteq> {0..<2 ^ 32}")
    case True
    let ?bs = "le_bytes 4 p @ le_bytes 4 d @ le_bytes 4 f @ le_bytes 4 0"
    have "config_of_bytes ?bs = \<lparr>cfg_priority = word_of_int p, cfg_dscp = word_of_int d, cfg_flags = word_of_int f, cfg_reserved = 0\<rparr>"
      using True by (simp add: config_of_bytes_def le_int_le_bytes)
    moreover have "set_ts_config pinned (int_str p) (int_str d) (int_str f)
      = Inr ([''bpftool'', ''map'', ''update'', ''pinned'', pinned, ''key'', ''hex'', ''00'', ''00'', ''00'', ''00'', ''value'', ''hex'']
                  @ map hex_byte ?bs)"
      using True z by (simp add: set_ts_config_def i pack_unsigned_def)
    ultimately show ?thesis using True by (simp add: py_int_16_hex exI [of _ ?bs])
  next
    case False
    then show ?thesis by (auto simp: set_ts_config_def i pack_unsigned_def)
  qed
qed

lemma set_ts_config_roundtrip_witness:
  "\<exists>msg. set_ts_config ''m'' (int_str 6) (int_str (-1)) (int_str 1) = Inl (StructError msg)"
  using set_ts_config_roundtrip [of 6 "-1" 1 "''m''"] by simp

end
