(* ===== verification/TcxAttach.thy ===== *)
theory TcxAttach
  imports Effects
begin

text \<open>
  \<open>bpf/tools/tcx_attach.c\<close>: the tool that attaches a BPF program at the head or the tail of
  a tcx chain, detaches it and lists a chain. libbpf, the interface table and the file system are not
  part of the repository: a record says what each call answers. A command is the trace of the
  calls it made and of its output lines (without the \<open>strerror\<close> text and the numbers of a
  query), and its exit status. The lemmas show when attaching succeeds, in which order the
  program is prepared and loaded, that no link survives a failed pin, and that listing a chain stays
  within its arrays.
\<close>

section \<open>Definitions\<close>

datatype bpf_attach_type = BPF_TCX_INGRESS | BPF_TCX_EGRESS

datatype tcx_flag = BPF_F_BEFORE | BPF_F_AFTER

text \<open>
  The answers: the index of an interface (0: none), whether an object file opens, the name of
  its first program, C status codes (0: success), the descriptor of a pinned link or of a program (negative:
  error), the name of a program. A query answers its status, the two arrays it filled and the count it stored.
\<close>

record libbpf =
  if_nametoindex :: "string \<Rightarrow> int"
  object_open_file :: "string \<Rightarrow> bool"
  next_program :: "string \<Rightarrow> string option"
  set_expected_attach_type :: "bpf_attach_type \<Rightarrow> int"
  object_load :: "string \<Rightarrow> int"
  attach_tcx :: "int \<Rightarrow> tcx_flag \<Rightarrow> bool"
  link_pin :: "string \<Rightarrow> int"
  obj_get :: "string \<Rightarrow> int"
  link_detach :: "int \<Rightarrow> int"
  unlink :: "string \<Rightarrow> int"
  prog_query :: "int \<Rightarrow> bpf_attach_type \<Rightarrow> int \<times> nat list \<times> nat list \<times> nat"
  prog_get_fd_by_id :: "nat \<Rightarrow> int"
  obj_get_info_by_fd :: "int \<Rightarrow> string option"

datatype tcx_call =
    ObjectOpen string
  | SetType
  | SetExpected bpf_attach_type
  | ObjectLoad string
  | AttachTcx int tcx_flag
  | LinkPin string
  | LinkDestroy
  | ObjGet string
  | LinkDetach int
  | Close int
  | Unlink string
  | GetFd nat int
  | Print string
  | Eprint string

text \<open>A run: its trace and its exit status.\<close>

type_synonym tcx_run = "tcx_call list \<times> int"

definition fail :: "tcx_call list \<Rightarrow> string \<Rightarrow> tcx_run" where
  "fail calls msg = (calls @ [Eprint msg], 1)"

text \<open>\<open>Inl\<close>: \<open>exit(2)\<close> after the message.\<close>

definition parse_dir :: "string option \<Rightarrow> tcx_run + bpf_attach_type" where
  "parse_dir s = (case s of
      None \<Rightarrow> Inr BPF_TCX_EGRESS
    | Some d \<Rightarrow>
        if d = ''egress'' then Inr BPF_TCX_EGRESS
        else if d = ''ingress'' then Inr BPF_TCX_INGRESS
        else Inl ([Eprint (''unknown direction: '' @ d)], 2))"

definition arg :: "string list \<Rightarrow> nat \<Rightarrow> string option" where
  "arg argv i = (if i < length argv then Some (argv ! i) else None)"

definition dir_name :: "bpf_attach_type \<Rightarrow> string" where
  "dir_name dir = (if dir = BPF_TCX_EGRESS then ''egress'' else ''ingress'')"

definition do_attach :: "libbpf \<Rightarrow> string list \<Rightarrow> tcx_run" where
  "do_attach lib argv =
     (let ifname = argv ! 2; objpath = argv ! 3; pin = argv ! 4
      in case parse_dir (arg argv 5) of
        Inl e \<Rightarrow> e
      | Inr dir \<Rightarrow>
          let before = (arg argv 6 \<noteq> Some ''after''); ifindex = if_nametoindex lib ifname;
              opened = [ObjectOpen objpath];
              typed = opened @ [SetType, SetExpected dir];
              loaded = typed @ [ObjectLoad objpath];
              attached = loaded @ [AttachTcx ifindex (if before then BPF_F_BEFORE else BPF_F_AFTER)];
              pinned = attached @ [LinkPin pin]
          in if ifindex = 0 then fail [] (''no such interface: '' @ ifname)
             else if \<not> object_open_file lib objpath then fail opened (''open '' @ objpath)
             else case next_program lib objpath of
               None \<Rightarrow> fail opened (''no program in '' @ objpath)
             | Some name \<Rightarrow>
                 if set_expected_attach_type lib dir \<noteq> 0 then fail typed ''set_expected_attach_type failed''
                 else if object_load lib objpath \<noteq> 0 then fail loaded (''load '' @ objpath @ '' failed (verifier?)'')
                 else if \<not> attach_tcx lib ifindex (if before then BPF_F_BEFORE else BPF_F_AFTER)
                 then fail attached (''attach_tcx('' @ ifname @ '', '' @ (if before then ''before'' else ''after'') @ '') failed'')
                 else if link_pin lib pin \<noteq> 0 then (pinned @ [Eprint (''pin '' @ pin @ '' failed''), LinkDestroy], 1)
                 else (pinned @ [Print (''attached '' @ name @ '' ('' @ objpath @ '') to '' @ ifname @ '' '' @ dir_name dir
                        @ '' at '' @ (if before then ''head'' else ''tail'') @ '' of chain, pinned at '' @ pin)], 0))"

definition do_detach :: "libbpf \<Rightarrow> string \<Rightarrow> tcx_run" where
  "do_detach lib pin =
     (let fd = obj_get lib pin
      in if fd < 0 then fail [ObjGet pin] (''open pin '' @ pin)
         else let calls = [ObjGet pin, LinkDetach fd]
                @ (if link_detach lib fd \<noteq> 0 then [Eprint ''bpf_link_detach''] else []) @ [Close fd, Unlink pin]
              in if unlink lib pin \<noteq> 0 then fail calls (''unlink '' @ pin)
                 else (calls @ [Print (''detached '' @ pin)], 0))"

text \<open>One entry of the listing; \<open>None\<close>: an array is read past its end.\<close>

definition query_entry :: "libbpf \<Rightarrow> nat list \<Rightarrow> nat list \<Rightarrow> nat \<Rightarrow> tcx_call list option" where
  "query_entry lib prog_ids link_ids i =
     (if i < length prog_ids
      then let fd = prog_get_fd_by_id lib (prog_ids ! i)
           in if fd < 0 then Some [GetFd (prog_ids ! i) fd, Print ''info unavailable'']
              else case obj_get_info_by_fd lib fd of
                None \<Rightarrow> Some [GetFd (prog_ids ! i) fd, Print ''info unavailable'']
              | Some name \<Rightarrow>
                  if i < length link_ids then Some [GetFd (prog_ids ! i) fd, Print name, Close fd] else None
      else None)"

fun query_entries :: "libbpf \<Rightarrow> nat list \<Rightarrow> nat list \<Rightarrow> nat list \<Rightarrow> tcx_call list option" where
  "query_entries lib prog_ids link_ids [] = Some []"
| "query_entries lib prog_ids link_ids (i # is) =
     (case query_entry lib prog_ids link_ids i of
        None \<Rightarrow> None
      | Some calls \<Rightarrow> map_option (\<lambda>rest. calls @ rest) (query_entries lib prog_ids link_ids is))"

definition do_query :: "libbpf \<Rightarrow> string list \<Rightarrow> tcx_run option" where
  "do_query lib argv =
     (let ifname = argv ! 2
      in case parse_dir (arg argv 3) of
        Inl e \<Rightarrow> Some e
      | Inr dir \<Rightarrow>
          let ifindex = if_nametoindex lib ifname
          in if ifindex = 0 then Some (fail [] (''no such interface: '' @ ifname))
             else case prog_query lib ifindex dir of (err, prog_ids, link_ids, prog_cnt) \<Rightarrow>
               if err \<noteq> 0 then Some (fail [] ''query failed'')
               else map_option (\<lambda>calls. (Print (ifname @ '' '' @ dir_name dir @ '' tcx chain'') # calls, 0))
                      (query_entries lib prog_ids link_ids [0..<prog_cnt]))"

definition tcx_main :: "libbpf \<Rightarrow> string list \<Rightarrow> tcx_run option" where
  "tcx_main lib argv =
     (if 5 \<le> length argv \<and> argv ! 1 = ''attach'' then Some (do_attach lib argv)
      else if length argv = 3 \<and> argv ! 1 = ''detach'' then Some (do_detach lib (argv ! 2))
      else if 3 \<le> length argv \<and> argv ! 1 = ''query'' then do_query lib argv
      else Some ([Eprint ''usage''], 2))"

section \<open>What a query may answer\<close>

text \<open>
  The caller passes two arrays of 64 entries. A successful query stores a count within them (a longer
  chain is reported as an error), and an interface that exists answers every query with arrays of the
  size passed.
\<close>

locale tcx_query =
  fixes lib :: libbpf
  assumes query_fits: "prog_query lib ifindex dir = (0, prog_ids, link_ids, prog_cnt) \<Longrightarrow> prog_cnt \<le> 64"
    and query_arrays: "prog_query lib ifindex dir = (err, prog_ids, link_ids, prog_cnt) \<Longrightarrow> length prog_ids = 64 \<and> length link_ids = 64"
begin

lemma query_entries_in_bounds:
  "\<forall>i \<in> set is. i < length prog_ids \<and> i < length link_ids \<Longrightarrow> \<exists>calls. query_entries lib prog_ids link_ids is = Some calls"
proof (induction "is")
  case (Cons i "is")
  have "\<exists>calls. query_entry lib prog_ids link_ids i = Some calls"
    using Cons.prems by (auto simp: query_entry_def Let_def split: option.split)
  then show ?case using Cons by auto
qed simp

lemma do_query_in_bounds: "\<exists>tr status. do_query lib argv = Some (tr, status)"
proof (cases "parse_dir (arg argv 3)")
  case (Inr dir)
  let ?ifindex = "if_nametoindex lib (argv ! 2)"
  obtain err prog_ids link_ids prog_cnt where q: "prog_query lib ?ifindex dir = (err, prog_ids, link_ids, prog_cnt)"
    using prod_cases4 by blast
  show ?thesis
  proof (cases "err = 0")
    case True
    then have "\<forall>i \<in> set [0..<prog_cnt]. i < length prog_ids \<and> i < length link_ids"
      using query_fits [of ?ifindex dir] query_arrays [OF q] q by auto
    from query_entries_in_bounds [OF this] show ?thesis using Inr q by (auto simp: do_query_def fail_def Let_def)
  qed (use Inr q in \<open>simp add: do_query_def fail_def Let_def\<close>)
qed (auto simp: do_query_def)

end

text \<open>A chain of two programs on one interface, the first of which has no readable name.\<close>

definition lib_ref :: libbpf where
  "lib_ref = \<lparr>if_nametoindex = (\<lambda>n. if n = ''eth0'' then 2 else 0), object_open_file = (\<lambda>p. p = ''ts.o''),
     next_program = (\<lambda>p. Some ''ts_classifier''), set_expected_attach_type = (\<lambda>d. 0), object_load = (\<lambda>p. 0),
     attach_tcx = (\<lambda>i f. True), link_pin = (\<lambda>p. if p = ''/sys/fs/bpf/ts'' then 0 else -1), obj_get = (\<lambda>p. 5), link_detach = (\<lambda>fd. 0),
     unlink = (\<lambda>p. 0), prog_query = (\<lambda>i d. (0, [11, 12] @ replicate 62 0, [21, 22] @ replicate 62 0, 2)),
     prog_get_fd_by_id = (\<lambda>i. int i), obj_get_info_by_fd = (\<lambda>fd. if fd = 12 then Some ''ts_classifier'' else None)\<rparr>"

interpretation lib_ref: tcx_query lib_ref
  by unfold_locales (auto simp: lib_ref_def)

section \<open>Attaching\<close>

definition attach_flag :: "string list \<Rightarrow> tcx_flag" where
  "attach_flag argv = (if arg argv 6 = Some ''after'' then BPF_F_AFTER else BPF_F_BEFORE)"

text \<open>The preparation of a program, as far as it went, is a prefix of the full sequence of calls.\<close>

definition attach_calls :: "libbpf \<Rightarrow> string list \<Rightarrow> bpf_attach_type \<Rightarrow> tcx_call list" where
  "attach_calls lib argv dir =
     [ObjectOpen (argv ! 3), SetType, SetExpected dir, ObjectLoad (argv ! 3),
      AttachTcx (if_nametoindex lib (argv ! 2)) (attach_flag argv), LinkPin (argv ! 4)]"

definition attach_ok :: "libbpf \<Rightarrow> string list \<Rightarrow> bpf_attach_type \<Rightarrow> bool" where
  "attach_ok lib argv dir \<longleftrightarrow> if_nametoindex lib (argv ! 2) \<noteq> 0 \<and> object_open_file lib (argv ! 3)
     \<and> next_program lib (argv ! 3) \<noteq> None \<and> set_expected_attach_type lib dir = 0 \<and> object_load lib (argv ! 3) = 0
     \<and> attach_tcx lib (if_nametoindex lib (argv ! 2)) (attach_flag argv)"

lemma do_attach_cases:
  assumes "parse_dir (arg argv 5) = Inr dir"
  obtains (ok) msg where "attach_ok lib argv dir" "link_pin lib (argv ! 4) = 0" "do_attach lib argv = (attach_calls lib argv dir @ [Print msg], 0)"
  | (unpinned) msg where "attach_ok lib argv dir" "link_pin lib (argv ! 4) \<noteq> 0"
      "do_attach lib argv = (attach_calls lib argv dir @ [Eprint msg, LinkDestroy], 1)"
  | (failed) n msg where "\<not> attach_ok lib argv dir" "n \<le> 5"
      "n = 5 \<longrightarrow> \<not> attach_tcx lib (if_nametoindex lib (argv ! 2)) (attach_flag argv)" "do_attach lib argv = (take n (attach_calls lib argv dir) @ [Eprint msg], 1)"
proof -
  note defs = do_attach_def fail_def assms Let_def attach_calls_def attach_ok_def attach_flag_def
  consider "attach_ok lib argv dir" "link_pin lib (argv ! 4) = 0" | "attach_ok lib argv dir" "link_pin lib (argv ! 4) \<noteq> 0"
    | "\<not> attach_ok lib argv dir" by blast
  then show ?thesis
  proof cases
    case 1
    then have "\<exists>msg. do_attach lib argv = (attach_calls lib argv dir @ [Print msg], 0)" by (auto simp: defs)
    with 1 that(1) show ?thesis by blast
  next
    case 2
    then have "\<exists>msg. do_attach lib argv = (attach_calls lib argv dir @ [Eprint msg, LinkDestroy], 1)" by (auto simp: defs)
    with 2 that(2) show ?thesis by blast
  next
    case 3
    let ?idx = "if_nametoindex lib (argv ! 2)" and ?obj = "argv ! 3"
    define n :: nat where "n = (if ?idx = 0 then 0 else if \<not> object_open_file lib ?obj \<or> next_program lib ?obj = None then 1
      else if set_expected_attach_type lib dir \<noteq> 0 then 3 else if object_load lib ?obj \<noteq> 0 then 4 else 5)"
    have "\<exists>msg. do_attach lib argv = (take n (attach_calls lib argv dir) @ [Eprint msg], 1)"
      using 3 by (cases "next_program lib ?obj") (auto simp: defs n_def)
    moreover have "n \<le> 5" "n = 5 \<longrightarrow> \<not> attach_tcx lib ?idx (attach_flag argv)"
      using 3 by (auto simp: n_def attach_ok_def split: if_splits)
    ultimately show ?thesis using 3 that(3) by blast
  qed
qed

lemma attach_calls_flag:
  "AttachTcx i f \<in> set (take n (attach_calls lib argv dir)) \<Longrightarrow> 5 \<le> n \<and> i = if_nametoindex lib (argv ! 2) \<and> f = attach_flag argv"
  by (auto simp: attach_calls_def take_Cons' split: if_splits)

lemma attach_flag_after: "attach_flag argv = BPF_F_AFTER \<longleftrightarrow> arg argv 6 = Some ''after''"
  by (simp add: attach_flag_def)

lemma attach_calls_order: "only_after [SetType, SetExpected dir] (\<lambda>c. \<exists>p. c = ObjectLoad p) (attach_calls lib argv dir)"
  by (simp add: attach_calls_def)

section \<open>Properties\<close>

text \<open>
  Property C36. The outcome of \<open>tcx_attach attach\<close>: the exit status is 0 exactly when the
  direction is known and every call up to the pin succeeds; the program's type and attach type are
  set before it is loaded; it is attached to the named interface, at the tail when
  \<open>after\<close> is given and at the head otherwise; and a link that was created is pinned when the
  status is 0 and destroyed, as the last call, when it is not.
\<close>

theorem tcx_attach_outcome:
  assumes "5 \<le> length argv" and "argv ! 1 = ''attach''"
  shows "\<exists>tr status. tcx_main lib argv = Some (tr, status)
    \<and> (status = 0 \<longleftrightarrow> (\<exists>dir. parse_dir (arg argv 5) = Inr dir \<and> attach_ok lib argv dir \<and> link_pin lib (argv ! 4) = 0))
    \<and> (\<forall>dir. parse_dir (arg argv 5) = Inr dir \<longrightarrow> only_after [SetType, SetExpected dir] (\<lambda>c. \<exists>p. c = ObjectLoad p) tr)
    \<and> (\<forall>i f. AttachTcx i f \<in> set tr \<longrightarrow>
         i = if_nametoindex lib (argv ! 2) \<and> (f = BPF_F_AFTER \<longleftrightarrow> arg argv 6 = Some ''after'')
         \<and> (attach_tcx lib i f \<longrightarrow>
              (if status = 0 then LinkPin (argv ! 4) \<in> set tr \<and> LinkDestroy \<notin> set tr else last tr = LinkDestroy)))"
proof -
  have run: "tcx_main lib argv = Some (do_attach lib argv)" using assms by (simp add: tcx_main_def)
  show ?thesis
  proof (cases "parse_dir (arg argv 5)")
    case (Inl e)
    then have "e = ([Eprint (''unknown direction: '' @ the (arg argv 5))], 2)"
      by (auto simp: parse_dir_def split: option.splits if_splits)
    then show ?thesis using run Inl by (auto simp: do_attach_def)
  next
    case (Inr dir)
    from Inr show ?thesis
    proof (cases rule: do_attach_cases [where lib = lib])
      case (ok msg)
      then show ?thesis using run Inr attach_calls_order [of dir lib argv] by (auto simp: attach_calls_def attach_flag_def)
    next
      case (unpinned msg)
      then show ?thesis using run Inr attach_calls_order [of dir lib argv] by (auto simp: attach_calls_def attach_flag_def)
    next
      case (failed n msg)
      have "only_after [SetType, SetExpected dir] (\<lambda>c. \<exists>p. c = ObjectLoad p) (take n (attach_calls lib argv dir) @ [Eprint msg])"
        using only_after_take [OF attach_calls_order] by (simp add: only_after_never)
      moreover have "i = if_nametoindex lib (argv ! 2) \<and> (f = BPF_F_AFTER \<longleftrightarrow> arg argv 6 = Some ''after'') \<and> \<not> attach_tcx lib i f"
        if "AttachTcx i f \<in> set (take n (attach_calls lib argv dir) @ [Eprint msg])" for i f
        using that attach_calls_flag [of i f n lib argv dir] failed(2,3) attach_flag_after [of argv] by auto
      ultimately show ?thesis using run Inr failed(1,4) by auto
    qed
  qed
qed

lemma tcx_attach_outcome_witness:
  "\<exists>tr. tcx_main lib_ref [''tcx_attach'', ''attach'', ''eth0'', ''ts.o'', ''/tmp/x'', ''egress'', ''after''] = Some (tr, 1)
     \<and> last tr = LinkDestroy"
proof -
  let ?argv = "[''tcx_attach'', ''attach'', ''eth0'', ''ts.o'', ''/tmp/x'', ''egress'', ''after'']"
  have "\<exists>tr. tcx_main lib_ref ?argv = Some (tr, 1) \<and> AttachTcx 2 BPF_F_AFTER \<in> set tr \<and> attach_tcx lib_ref 2 BPF_F_AFTER"
    by (simp add: tcx_main_def do_attach_def fail_def parse_dir_def arg_def lib_ref_def Let_def)
  then show ?thesis using tcx_attach_outcome [of ?argv lib_ref] by auto
qed

text \<open>
  Detaching succeeds exactly when the pinned link opens and its pin is removed, whether or not the
  link could be detached first; the descriptor is closed on every path that opened it.
\<close>

lemma do_detach_outcome:
  assumes "do_detach lib pin = (tr, status)"
  shows "status = 0 \<longleftrightarrow> 0 \<le> obj_get lib pin \<and> unlink lib pin = 0"
    and "0 \<le> obj_get lib pin \<Longrightarrow> Close (obj_get lib pin) \<in> set tr"
  using assms by (auto simp: do_detach_def fail_def Let_def split: if_splits)

text \<open>A program whose information cannot be read is listed, but its descriptor is not closed.\<close>

lemma query_entry_leaks:
  assumes "i < length prog_ids" and "prog_get_fd_by_id lib (prog_ids ! i) = fd" and "0 \<le> fd" and "obj_get_info_by_fd lib fd = None"
  shows "\<exists>tr. query_entry lib prog_ids link_ids i = Some tr \<and> Close fd \<notin> set tr"
  using assms by (simp add: query_entry_def)

text \<open>Every command of the tool ends with status 0, 1 or 2 and no array is read past its end.\<close>

lemma tcx_main_returns:
  assumes "tcx_query lib"
  shows "\<exists>tr status. tcx_main lib argv = Some (tr, status)"
  using tcx_query.do_query_in_bounds [OF assms] by (auto simp: tcx_main_def intro: prod.exhaust)

end
