(* ===== verification/Dataset.thy ===== *)
theory Dataset
  imports Loader Metrics "HOL-Library.Product_Lexorder"
begin

text \<open>
  \<open>analysis/tsn_analysis/dataset.py\<close>: runs grouped into one cell per condition. The
  property shows the table order: the testbed's conditions in their fixed order, then every other
  condition alphabetically, with no condition lost or repeated.
\<close>

section \<open>Definitions\<close>

definition CONDITION_ORDER :: "string list" where
  "CONDITION_ORDER = [''fifo'', ''fq_codel'', ''pfifo_fast_noclsf'', ''pfifo_fast_clsf'', ''prio_clsf'']"

record Cell =
  cell_condition :: string
  cell_runs :: "run list"

text \<open>\<open>np.concatenate\<close> of one-dimensional arrays refuses an empty sequence of arrays.\<close>

definition np_concatenate :: "'a list list \<Rightarrow> 'a list res" where
  "np_concatenate xss = (if xss = [] then Inl (ValueError ''need at least one array to concatenate'')
     else Inr (concat xss))"

definition cell_latency_ms :: "Cell \<Rightarrow> f64 list res" where
  "cell_latency_ms c = np_concatenate (map latency_ms (cell_runs c))"

definition cell_jitter_us :: "Cell \<Rightarrow> f64 list res" where
  "cell_jitter_us c = np_concatenate (map (\<lambda>r. jitter_values (jitter_us r)) (cell_runs c))"

definition n_runs :: "Cell \<Rightarrow> nat" where
  "n_runs c = length (cell_runs c)"

definition order_key :: "string \<Rightarrow> nat \<times> string" where
  "order_key condition =
     (if condition \<in> set CONDITION_ORDER then (list_index CONDITION_ORDER condition, '''')
      else (length CONDITION_ORDER, condition))"

definition build_dataset :: "(string \<times> string) list \<Rightarrow> (string, Cell) dict res" where
  "build_dataset files = res_bind (discover files) (\<lambda>groups.
     Inr (map (\<lambda>c. (c, \<lparr>cell_condition = c, cell_runs = dict_get_or groups c []\<rparr>))
           (sort_key order_key (dict_keys groups))))"

section \<open>The order of conditions\<close>

lemma order_key_inj: "inj_on order_key A"
  by (rule inj_onI) (auto simp: order_key_def split: if_splits dest: list_index_less list_index_inj)

lemma list_index_sorted: "distinct xs \<Longrightarrow> sorted (map (list_index xs) xs)"
proof (induction xs)
  case (Cons x xs)
  then have "map (list_index (x # xs)) xs = map Suc (map (list_index xs) xs)" by auto
  with Cons show ?case by (simp only: list.map) (auto simp: sorted_map sorted_wrt_map)
qed simp

text \<open>The order in which a table lists the conditions \<open>A\<close>.\<close>

definition table_order :: "string set \<Rightarrow> string list" where
  "table_order A = filter (\<lambda>c. c \<in> A) CONDITION_ORDER @ sorted_list_of_set (A - set CONDITION_ORDER)"

lemma table_order_sorted:
  assumes "finite A"
  shows "sorted (map order_key (table_order A))"
proof -
  let ?k = "filter (\<lambda>c. c \<in> A) CONDITION_ORDER" and ?o = "sorted_list_of_set (A - set CONDITION_ORDER)"
  have o: "set ?o = A - set CONDITION_ORDER" using assms by simp
  have "sorted (map (list_index CONDITION_ORDER) CONDITION_ORDER)"
    by (rule list_index_sorted) (simp add: CONDITION_ORDER_def)
  then have "sorted (map (list_index CONDITION_ORDER) ?k)" by (rule sorted_filter)
  then have "sorted (map order_key ?k)"
    by (auto simp: sorted_map order_key_def intro: sorted_wrt_mono_rel [rotated])
  moreover have "sorted (map order_key ?o)"
    unfolding sorted_map
    by (rule sorted_wrt_mono_rel [OF _ sorted_sorted_list_of_set]) (use o in \<open>auto simp: order_key_def\<close>)
  moreover have "order_key a \<le> order_key b" if "a \<in> set ?k" "b \<in> set ?o" for a b
    using that o list_index_less [of a CONDITION_ORDER] by (auto simp: order_key_def)
  ultimately show ?thesis by (auto simp: table_order_def sorted_append)
qed

lemma sort_key_table_order:
  assumes "distinct ks"
  shows "sort_key order_key ks = table_order (set ks)"
proof (rule map_sorted_distinct_set_unique [of order_key])
  show "distinct (map order_key (sort_key order_key ks))" using assms by (simp add: distinct_map order_key_inj)
  have "distinct (table_order (set ks))" by (auto simp: table_order_def CONDITION_ORDER_def)
  then show "distinct (map order_key (table_order (set ks)))" by (simp add: distinct_map order_key_inj)
  show "sorted (map order_key (table_order (set ks)))" by (rule table_order_sorted) simp
  show "set (sort_key order_key ks) = set (table_order (set ks))" by (auto simp: table_order_def)
qed (simp_all add: order_key_inj)

section \<open>Properties\<close>

text \<open>The cells of the runs that were loaded.\<close>

lemma build_dataset_runs:
  assumes r: "res_mapM (\<lambda>(name, text). load_csv name text) (csv_files files) = Inr runs"
  shows "\<exists>d. build_dataset files = Inr d \<and> dict_keys d = table_order (run_condition ` set runs)
    \<and> (\<forall>(c, x) \<in> set d. cell_condition x = c
            \<and> cell_runs x = sort_key run_sort_key (filter (\<lambda>r. run_condition r = c) runs) \<and> 0 < n_runs x
            \<and> cell_latency_ms x = Inr (concat (map latency_ms (cell_runs x)))
            \<and> cell_jitter_us x = Inr (concat (map (\<lambda>r. map f_abs (drop 1 (jitter_us r))) (cell_runs x))))"
proof -
  let ?g = "map (\<lambda>(c, rs). (c, sort_key run_sort_key rs)) (foldl add_to_group [] runs)"
  let ?cell = "\<lambda>c. \<lparr>cell_condition = c, cell_runs = dict_get_or ?g c []\<rparr>"
  let ?d = "map (\<lambda>c. (c, ?cell c)) (table_order (run_condition ` set runs))"
  let ?P = "\<lambda>(c, x). cell_condition x = c
    \<and> cell_runs x = sort_key run_sort_key (filter (\<lambda>r. run_condition r = c) runs) \<and> 0 < n_runs x
    \<and> cell_latency_ms x = Inr (concat (map latency_ms (cell_runs x)))
    \<and> cell_jitter_us x = Inr (concat (map (\<lambda>r. map f_abs (drop 1 (jitter_us r))) (cell_runs x)))"
  have "build_dataset files = Inr ?d"
    by (simp add: build_dataset_def discover_csv_files r sort_key_table_order dict_keys_map_values dict_keys_groups)
  moreover have "dict_keys ?d = table_order (run_condition ` set runs)" by (simp add: dict_keys_def comp_def)
  moreover have "?P (c, ?cell c)" if "c \<in> run_condition ` set runs" for c
  proof -
    from that have ne: "filter (\<lambda>r. run_condition r = c) runs \<noteq> []" by (auto simp: filter_empty_conv)
    then have eq: "cell_runs (?cell c) = sort_key run_sort_key (filter (\<lambda>r. run_condition r = c) runs)"
      by (auto simp: dict_get_or_def dict_get_map_values dict_get_groups split: list.splits)
    then have "cell_runs (?cell c) \<noteq> []" using ne by (metis set_empty set_sort)
    with eq show ?thesis
      by (simp add: n_runs_def cell_latency_ms_def cell_jitter_us_def np_concatenate_def jitter_values_def [abs_def])
  qed
  moreover have "set (table_order (run_condition ` set runs)) = run_condition ` set runs"
    by (auto simp: table_order_def)
  ultimately show ?thesis
    by (intro exI [of _ ?d] conjI ballI) (simp_all only: set_map, blast)
qed

lemma distinct_table_order: "finite A \<Longrightarrow> distinct (table_order A)"
  by (auto simp: table_order_def CONDITION_ORDER_def)

lemma build_dataset_wf:
  assumes "build_dataset files = Inr d"
  shows "distinct (dict_keys d) \<and> (\<forall>(c, x) \<in> set d. cell_condition x = c \<and> cell_runs x \<noteq> [])"
proof -
  obtain runs where r: "res_mapM (\<lambda>(name, text). load_csv name text) (csv_files files) = Inr runs"
    using assms by (auto simp: build_dataset_def discover_csv_files res_bind_Inr_conv)
  from build_dataset_runs [OF r] assms show ?thesis
    by (auto simp: distinct_table_order n_runs_def)
qed

text \<open>
  Property C14. The dataset of a results directory: when every CSV file loads, there is one cell
  per condition that occurs, listed in table order; each cell carries its own condition and all
  its runs in index order, at least one, so that its pooled samples are defined and hold every
  sample of every run. The only way to fail is that \<open>discover\<close> fails.
\<close>

theorem build_dataset_cells:
  "(\<forall>runs. res_mapM (\<lambda>(name, text). load_csv name text) (csv_files files) = Inr runs \<longrightarrow>
     (\<exists>d. build_dataset files = Inr d \<and> dict_keys d = table_order (run_condition ` set runs)
       \<and> (\<forall>(c, x) \<in> set d. cell_condition x = c
            \<and> cell_runs x = sort_key run_sort_key (filter (\<lambda>r. run_condition r = c) runs) \<and> 0 < n_runs x
            \<and> cell_latency_ms x = Inr (concat (map latency_ms (cell_runs x)))
            \<and> cell_jitter_us x = Inr (concat (map (\<lambda>r. map f_abs (drop 1 (jitter_us r))) (cell_runs x))))))
   \<and> (\<forall>e. build_dataset files = Inl e \<longleftrightarrow> discover files = Inl e)"
  using build_dataset_runs by (auto simp: build_dataset_def res_bind_Inl_conv)

lemma build_dataset_cells_witness:
  "\<exists>d. build_dataset [(''zz_run1.csv'', csv_write [REQUIRED_COLUMNS, [''7'', ''1'', ''2'', ''0.5'', ''0'', ''128'']]),
                (''fifo_run1.csv'', csv_write [REQUIRED_COLUMNS, [''0'', ''1'', ''2'', ''0.5'', ''0'', ''128'']])] = Inr d
     \<and> dict_keys d = table_order {''fifo'', ''zz''}"
proof -
  let ?fs = "[(''zz_run1.csv'', csv_write [REQUIRED_COLUMNS, [''7'', ''1'', ''2'', ''0.5'', ''0'', ''128'']]),
    (''fifo_run1.csv'', csv_write [REQUIRED_COLUMNS, [''0'', ''1'', ''2'', ''0.5'', ''0'', ''128'']])]"
  let ?r = "\<lambda>n c i s. \<lparr>run_name = n, run_condition = c, run_index = Some i, run_seq = [s],
    send_ns = [1], recv_ns = [2], latency_ms = [Num (1/2)], jitter_us = [Num 0], pkt_size = [128],
    run_tos = None, run_path = n @ ''.csv''\<rparr>"
  have "res_mapM (\<lambda>(name, text). load_csv name text) (csv_files ?fs)
      = Inr [?r ''fifo_run1'' ''fifo'' 1 0, ?r ''zz_run1'' ''zz'' 1 7]" by code_simp
  then obtain d where "build_dataset ?fs = Inr d"
      "dict_keys d = table_order (run_condition ` set [?r ''fifo_run1'' ''fifo'' 1 0, ?r ''zz_run1'' ''zz'' 1 7])"
    using build_dataset_cells [of ?fs] by blast
  then show ?thesis by (intro exI [of _ d]) simp
qed

end
