(* ===== verification/Stats.thy ===== *)
theory Stats
  imports Metrics
begin

text \<open>
  \<open>analysis/tsn_analysis/stats.py\<close>: comparing two conditions. A statistic maps a matrix
  to one value per row (\<open>axis=1\<close>). The bootstrap's chunk loop is a partial function, so
  that a loop that never ends has the value \<open>None\<close>. The lemmas show that the loop
  terminates with exactly the requested number of resamples, that the interval stays within the
  sample's range, that Cliff's delta by sorting equals the count over all pairs, and what a
  comparison reports.
\<close>

section \<open>Definitions\<close>

type_synonym statistic = "f64 list list \<Rightarrow> f64 list res"

text \<open>A statistic argument: a name, or a callable with its \<open>__name__\<close> (if it has one).\<close>

datatype stat_arg = StatName string | StatFun "string option" statistic

record BootstrapCI =
  ci_point :: f64
  ci_low :: f64
  ci_high :: f64
  ci_level :: f64
  ci_n_boot :: int

definition as_dict :: "BootstrapCI \<Rightarrow> (string, f64) dict res" where
  "as_dict b = res_bind (float_of_int (ci_n_boot b)) (\<lambda>n.
     Inr [(''point'', ci_point b), (''low'', ci_low b), (''high'', ci_high b), (''ci'', ci_level b), (''n_boot'', n)])"

definition percentile_statistic :: "numpy \<Rightarrow> f64 \<Rightarrow> string \<Rightarrow> statistic" where
  "percentile_statistic np q method = res_mapM (\<lambda>row. np_percentile np row q method)"

text \<open>\<open>np.max\<close> and \<open>np.min\<close> along an axis of length zero raise.\<close>

definition extremum :: "(f64 list \<Rightarrow> f64) \<Rightarrow> f64 list \<Rightarrow> f64 res" where
  "extremum f row = (if row = [] then Inl (ValueError ''zero-size array to reduction operation'') else Inr (f row))"

definition statistic_table :: "numpy \<Rightarrow> scipy \<Rightarrow> string \<Rightarrow> (string, statistic) dict" where
  "statistic_table np sp method =
     [(''mean'', \<lambda>x. Inr (map (np_mean sp) x)),
      (''median'', percentile_statistic np (Num 50) method),
      (''max'', res_mapM (extremum (np_fmax np))),
      (''min'', res_mapM (extremum (np_fmin np))),
      (''std'', \<lambda>x. Inr (map (np_std1 sp) x))]"

definition resolve_statistic :: "numpy \<Rightarrow> scipy \<Rightarrow> stat_arg \<Rightarrow> string \<Rightarrow> statistic res" where
  "resolve_statistic np sp stat method = (case stat of
      StatFun _ f \<Rightarrow> Inr f
    | StatName s \<Rightarrow>
        let name = lower s in
        if take 1 name = ''p''
        then res_bind (py_float (drop 1 name)) (\<lambda>q. Inr (percentile_statistic np q method))
        else case dict_get (statistic_table np sp method) name of
            None \<Rightarrow> Inl (ValueError ''unknown statistic'')
          | Some f \<Rightarrow> Inr f)"

text \<open>\<open>stat(v[None, :], 1)[0]\<close>: the statistic of one sample.\<close>

definition stat1 :: "statistic \<Rightarrow> f64 list \<Rightarrow> f64 res" where
  "stat1 f v = res_bind (f [v]) (\<lambda>out. case out of [] \<Rightarrow> Inl (IndexError ''index 0 is out of bounds'') | y # _ \<Rightarrow> Inr y)"

text \<open>
  One pass of the loop fills \<open>boots[done : done + k]\<close>: the right-hand side must have
  \<open>k\<close> elements, or one that is repeated. \<open>boots\<close> is its filled part.
\<close>

definition assign_chunk :: "nat \<Rightarrow> f64 list \<Rightarrow> f64 list res" where
  "assign_chunk k vals = (if length vals = k then Inr vals
     else if length vals = 1 then Inr (replicate k (hd vals))
     else Inl (ValueError ''could not broadcast input array''))"

definition bootstrap_chunk ::
  "'g np_random \<Rightarrow> statistic \<Rightarrow> f64 list \<Rightarrow> int \<Rightarrow> 'g \<Rightarrow> (f64 list \<times> 'g) res" where
  "bootstrap_chunk rn stat x k rng =
     (if k < 0 then Inl (ValueError ''negative dimensions are not allowed'')
      else let (idx, rng') = rng_integers rn rng (length x) (nat k) (length x)
           in res_bind (stat (map (map ((!) x)) idx)) (\<lambda>vals.
              res_bind (assign_chunk (nat k) vals) (\<lambda>vs. Inr (vs, rng'))))"

partial_function (option) bootstrap_loop ::
  "'g np_random \<Rightarrow> statistic \<Rightarrow> f64 list \<Rightarrow> int \<Rightarrow> int \<Rightarrow> f64 list \<Rightarrow> 'g \<Rightarrow> f64 list res option" where
  "bootstrap_loop rn stat x n_boot chunk boots rng =
     (if int (length boots) < n_boot
      then (case bootstrap_chunk rn stat x (min chunk (n_boot - int (length boots))) rng of
              Inl e \<Rightarrow> Some (Inl e)
            | Inr (vs, rng') \<Rightarrow> bootstrap_loop rn stat x n_boot chunk (boots @ vs) rng')
      else Some (Inr boots))"

definition ci_alpha :: "f64 \<Rightarrow> f64" where
  "ci_alpha ci = f_div (f_sub (Num 1) ci) (Num 2)"

definition ci_bounds :: "numpy \<Rightarrow> f64 \<Rightarrow> f64 list \<Rightarrow> (f64 \<times> f64) res" where
  "ci_bounds np ci boots =
     res_bind (np_percentile np boots (f_mul (Num 100) (ci_alpha ci)) ''linear'') (\<lambda>low.
     res_bind (np_percentile np boots (f_mul (Num 100) (f_sub (Num 1) (ci_alpha ci))) ''linear'') (\<lambda>high.
     Inr (low, high)))"

definition bootstrap_ci ::
  "'g np_random \<Rightarrow> numpy \<Rightarrow> scipy \<Rightarrow> f64 list \<Rightarrow> stat_arg \<Rightarrow> int \<Rightarrow> f64 \<Rightarrow> int \<Rightarrow> int \<Rightarrow> string \<Rightarrow>
     BootstrapCI res option" where
  "bootstrap_ci rn np sp x stat n_boot ci seed chunk method =
     (let result = \<lambda>p l h. \<lparr>ci_point = p, ci_low = l, ci_high = h, ci_level = ci, ci_n_boot = n_boot\<rparr> in
      if x = [] then Some (Inr (result NaN NaN NaN))
      else case resolve_statistic np sp stat method of
          Inl e \<Rightarrow> Some (Inl e)
        | Inr f \<Rightarrow> (case stat1 f x of
            Inl e \<Rightarrow> Some (Inl e)
          | Inr point \<Rightarrow>
              if length x = 1 \<or> n_boot \<le> 0 then Some (Inr (result point point point))
              else (case default_rng rn seed of
                  Inl e \<Rightarrow> Some (Inl e)
                | Inr rng \<Rightarrow> map_option (\<lambda>boots. res_bind boots (\<lambda>bs.
                      res_bind (ci_bounds np ci bs) (\<lambda>(low, high). Inr (result point low high))))
                    (bootstrap_loop rn f x n_boot chunk [] rng))))"

definition mann_whitney :: "scipy \<Rightarrow> f64 list \<Rightarrow> f64 list \<Rightarrow> f64 \<times> f64" where
  "mann_whitney sp a b = (if a = [] \<or> b = [] then (NaN, NaN) else sps_mannwhitneyu sp a b)"

text \<open>
  The sums are \<open>int64\<close> scalars; NumPy's true division of integers converts both operands
  to binary64.
\<close>

definition cliffs_delta :: "numpy \<Rightarrow> f64 list \<Rightarrow> f64 list \<Rightarrow> f64" where
  "cliffs_delta np a b0 =
     (let b = np_sort np b0 in
      if a = [] \<or> b = [] then NaN
      else let less = map (\<lambda>v. int (np_searchsorted_left np b v)) a;
               greater = map (\<lambda>v. int (length b) - int (np_searchsorted_right np b v)) a
           in f_div (f_of_int (np_isum np less - np_isum np greater)) (f_of_int (int (length a * length b))))"

definition describe_delta :: "f64 \<Rightarrow> string" where
  "describe_delta delta =
     (let d = f_abs delta in
      if is_nan d then ''n/a''
      else if f_lt d (f_lit (147 / 1000)) then ''negligible''
      else if f_lt d (f_lit (33 / 100)) then ''small''
      else if f_lt d (f_lit (474 / 1000)) then ''medium''
      else ''large'')"

record comparison =
  cmp_stat :: string
  cmp_percentile_method :: string
  cmp_baseline :: "(string, f64) dict"
  cmp_proposed :: "(string, f64) dict"
  improvement_pct :: f64
  mann_whitney_u :: f64
  p_value :: f64
  cmp_cliffs_delta :: f64
  cmp_effect :: string
  n_baseline :: nat
  n_proposed :: nat

definition stat_name :: "stat_arg \<Rightarrow> string" where
  "stat_name stat = (case stat of StatName s \<Rightarrow> s | StatFun n _ \<Rightarrow> (case n of None \<Rightarrow> ''custom'' | Some s \<Rightarrow> s))"

definition improvement :: "f64 \<Rightarrow> f64 \<Rightarrow> f64" where
  "improvement b p =
     (if \<not> f_eq b (Num 0) \<and> \<not> is_nan b
      then f_mul (f_div (f_sub b p) (f_abs b)) (Num 100) else NaN)"

definition DEFAULT_CHUNK :: int where
  "DEFAULT_CHUNK = 200"

definition compare ::
  "'g np_random \<Rightarrow> numpy \<Rightarrow> scipy \<Rightarrow> f64 list \<Rightarrow> f64 list \<Rightarrow> stat_arg \<Rightarrow> int \<Rightarrow> f64 \<Rightarrow> int \<Rightarrow> string \<Rightarrow>
     comparison res option" where
  "compare rn np sp base prop stat n_boot ci seed method =
     (case bootstrap_ci rn np sp base stat n_boot ci seed DEFAULT_CHUNK method of
        None \<Rightarrow> None
      | Some (Inl e) \<Rightarrow> Some (Inl e)
      | Some (Inr b) \<Rightarrow>
          (case bootstrap_ci rn np sp prop stat n_boot ci (seed + 1) DEFAULT_CHUNK method of
             None \<Rightarrow> None
           | Some (Inl e) \<Rightarrow> Some (Inl e)
           | Some (Inr p) \<Rightarrow>
               (let (u, pval) = mann_whitney sp base prop; delta = cliffs_delta np base prop
                in Some (res_bind (as_dict b) (\<lambda>bd. res_bind (as_dict p) (\<lambda>pd.
                     Inr \<lparr>cmp_stat = stat_name stat, cmp_percentile_method = method,
                          cmp_baseline = bd, cmp_proposed = pd,
                          improvement_pct = improvement (ci_point b) (ci_point p),
                          mann_whitney_u = u, p_value = pval, cmp_cliffs_delta = delta,
                          cmp_effect = describe_delta delta,
                          n_baseline = length base, n_proposed = length prop\<rparr>))))))"

record run_aggregate =
  agg_stat :: string
  agg_n_runs :: nat
  agg_per_run :: "f64 list"
  agg_mean :: f64
  agg_std :: f64
  agg_ci_low :: f64
  agg_ci_high :: f64
  agg_ci :: f64

definition per_run_aggregate ::
  "numpy \<Rightarrow> scipy \<Rightarrow> f64 list list \<Rightarrow> stat_arg \<Rightarrow> f64 \<Rightarrow> string \<Rightarrow> run_aggregate res" where
  "per_run_aggregate np sp runs_values stat ci method =
     res_bind (resolve_statistic np sp stat method) (\<lambda>f.
     res_bind (res_mapM (stat1 f) runs_values) (\<lambda>per_run.
       let n = length per_run;
           out = \<lparr>agg_stat = (case stat of StatName s \<Rightarrow> s | StatFun _ _ \<Rightarrow> ''custom''), agg_n_runs = n,
                  agg_per_run = per_run,
                  agg_mean = (if n \<noteq> 0 then np_mean sp per_run else NaN),
                  agg_std = (if 1 < n then np_std1 sp per_run else NaN),
                  agg_ci_low = NaN, agg_ci_high = NaN, agg_ci = ci\<rparr>
       in if 3 \<le> n
          then let half = f_div (f_mul (sps_t_ppf sp (f_add (f_lit (1 / 2)) (f_div ci (Num 2))) (n - 1))
                                   (np_std1 sp per_run)) (np_sqrt sp (f_of_int (int n)))
               in Inr (out\<lparr>agg_ci_low := f_sub (np_mean sp per_run) half,
                           agg_ci_high := f_add (np_mean sp per_run) half\<rparr>)
          else Inr out))"

section \<open>The bootstrap loop\<close>

lemma assign_chunk_length: "assign_chunk k vals = Inr vs \<Longrightarrow> length vs = k"
  by (auto simp: assign_chunk_def split: if_splits)

lemma bootstrap_chunk_InrE:
  assumes "bootstrap_chunk rn stat x k rng = Inr (vs, rng')"
  obtains vals where "0 \<le> k" and "int (length vs) = k"
    and "stat (map (map ((!) x)) (fst (rng_integers rn rng (length x) (nat k) (length x)))) = Inr vals"
    and "assign_chunk (nat k) vals = Inr vs"
  using assms assign_chunk_length [of "nat k"]
  by (auto simp: bootstrap_chunk_def case_prod_unfold Let_def res_bind_Inr_conv split: if_splits)

text \<open>Each pass adds at least one resample, so the loop ends, with neither too few nor too many.\<close>

lemma bootstrap_loop_total:
  assumes "chunk \<noteq> 0" and "int (length boots) \<le> n_boot"
  shows "\<exists>r. bootstrap_loop rn stat x n_boot chunk boots rng = Some r
    \<and> (\<forall>bs. r = Inr bs \<longrightarrow> int (length bs) = n_boot)"
  using assms(2)
proof (induction "nat (n_boot - int (length boots))" arbitrary: boots rng rule: less_induct)
  case less
  let ?k = "min chunk (n_boot - int (length boots))"
  show ?case
  proof (cases "int (length boots) < n_boot")
    case False
    then show ?thesis using less.prems by (subst bootstrap_loop.simps) simp
  next
    case True
    show ?thesis
    proof (cases "bootstrap_chunk rn stat x ?k rng")
      case (Inl e)
      then show ?thesis using True by (subst bootstrap_loop.simps) simp
    next
      case (Inr p)
      obtain vs rng' where p: "p = (vs, rng')" by force
      with Inr have k: "0 \<le> ?k" "int (length vs) = ?k" by (auto elim: bootstrap_chunk_InrE)
      from k(1) assms(1) True have "0 < ?k" by linarith
      with k(2) True have "nat (n_boot - int (length (boots @ vs))) < nat (n_boot - int (length boots))"
        "int (length (boots @ vs)) \<le> n_boot" by auto
      from less.hyps [OF this, of rng'] show ?thesis
        using True Inr p by (subst bootstrap_loop.simps) simp
    qed
  qed
qed

lemmas bootstrap_loop_induct =
  bootstrap_loop.raw_induct [of _ "((((((rn, stat), x), n_boot), chunk), boots), rng)", unfolded prod.case, rotated]
  for rn stat x n_boot chunk boots rng

text \<open>A chunk of zero resamples makes no progress.\<close>

lemma bootstrap_loop_zero:
  assumes "np_generator rn" and "0 < length x" and "stat [] = Inr []" and "0 < n_boot"
  shows "bootstrap_loop rn stat x n_boot 0 [] rng = None"
proof -
  have step: "\<exists>g. bootstrap_chunk rn stat x 0 rng = Inr ([], g)" for rng
    using np_generator.integers_rows [OF assms(1,2), of rng 0] assms(3)
    by (simp add: bootstrap_chunk_def case_prod_unfold Let_def assign_chunk_def)
  let ?P = "\<lambda>rn' stat' x' n c bs rng (r :: f64 list res). \<not> (rn' = rn \<and> stat' = stat \<and> x' = x \<and> n = n_boot \<and> c = (0 :: int) \<and> bs = ([] :: f64 list))"
  have "?P rn stat x n_boot 0 [] rng r" if "bootstrap_loop rn stat x n_boot 0 [] rng = Some r" for r
    using that
  proof (rule bootstrap_loop_induct [where P = ?P])
    fix loop rn' stat' x' n chunk boots rng r
    assume IH: "\<And>rn' stat' x' n c bs rng r. loop rn' stat' x' n c bs rng = Some r \<Longrightarrow> ?P rn' stat' x' n c bs rng r"
      and body: "(if int (length boots) < n
        then case bootstrap_chunk rn' stat' x' (min chunk (n - int (length boots))) rng of
               Inl e \<Rightarrow> Some (Inl e) | Inr (vs, rng') \<Rightarrow> loop rn' stat' x' n chunk (boots @ vs) rng'
        else Some (Inr boots)) = Some r"
    from step obtain g where g: "bootstrap_chunk rn stat x 0 rng = Inr ([], g)" by blast
    show "?P rn' stat' x' n chunk boots rng r"
    proof
      assume a: "rn' = rn \<and> stat' = stat \<and> x' = x \<and> n = n_boot \<and> chunk = 0 \<and> boots = []"
      then have "loop rn stat x n_boot 0 [] g = Some r" using body g assms(4) by simp
      from IH [OF this] show False by simp
    qed
  qed
  then show ?thesis by (metis not_Some_eq)
qed

text \<open>An invariant of the filled part that every chunk keeps holds of the resamples.\<close>

lemma bootstrap_loop_invariant:
  assumes chunk: "0 < chunk" and len: "int (length boots) \<le> n_boot"
    and ok: "\<And>k rng. 0 \<le> k \<Longrightarrow> \<exists>vs rng'. bootstrap_chunk rn stat x k rng = Inr (vs, rng') \<and> list_all P vs"
    and inv: "list_all P boots"
  shows "\<exists>bs. bootstrap_loop rn stat x n_boot chunk boots rng = Some (Inr bs) \<and> list_all P bs
    \<and> int (length bs) = n_boot"
  using len inv
proof (induction "nat (n_boot - int (length boots))" arbitrary: boots rng rule: less_induct)
  case less
  let ?k = "min chunk (n_boot - int (length boots))"
  show ?case
  proof (cases "int (length boots) < n_boot")
    case False
    then show ?thesis using less.prems by (subst bootstrap_loop.simps) simp
  next
    case True
    then have k: "0 < ?k" using chunk by simp
    obtain vs rng' where c: "bootstrap_chunk rn stat x ?k rng = Inr (vs, rng')" "list_all P vs"
      using ok [of ?k rng] k by auto
    then have "int (length vs) = ?k" by (auto elim: bootstrap_chunk_InrE)
    with k have "nat (n_boot - int (length (boots @ vs))) < nat (n_boot - int (length boots))"
      "int (length (boots @ vs)) \<le> n_boot" by auto
    from less.hyps [OF this, of rng'] show ?thesis
      using True c less.prems(2) by (subst bootstrap_loop.simps) simp
  qed
qed

section \<open>Range of the interval\<close>

lemma ci_quantiles:
  assumes "f_le (Num 0) ci" and "f_le ci (Num 1)"
  shows "f_le (Num 0) (f_mul (Num 100) (ci_alpha ci)) \<and> f_le (f_mul (Num 100) (ci_alpha ci)) (Num 100)"
    and "f_le (Num 0) (f_mul (Num 100) (f_sub (Num 1) (ci_alpha ci)))
       \<and> f_le (f_mul (Num 100) (f_sub (Num 1) (ci_alpha ci))) (Num 100)"
proof -
  have ci: "is_finite ci" "0 \<le> fval ci" "fval ci \<le> 1"
    using assms by (cases ci; auto simp: f_le_def f_lt_def split: if_splits)+
  note sub = f_ops_int_bounds(1) [where a = 0 and b = 1 and x = "Num 1", simplified]
  note mul = f_ops_int_bounds(2) [where a = 0 and b = 100 and x = "Num 100", simplified]
  have d: "is_finite (f_sub (Num 1) ci)" "0 \<le> fval (f_sub (Num 1) ci)" "fval (f_sub (Num 1) ci) \<le> 1"
    using sub [of ci] ci by simp_all
  have al: "is_finite (ci_alpha ci)" "0 \<le> fval (ci_alpha ci)" "fval (ci_alpha ci) \<le> 1"
    unfolding ci_alpha_def using d f_ops_int_bounds(3) [where a = 0 and b = 1 and y = "Num 2", OF d(1)] by simp_all
  have b: "is_finite (f_sub (Num 1) (ci_alpha ci))" "0 \<le> fval (f_sub (Num 1) (ci_alpha ci))"
    "fval (f_sub (Num 1) (ci_alpha ci)) \<le> 1" using sub [of "ci_alpha ci"] al by simp_all
  show "f_le (Num 0) (f_mul (Num 100) (ci_alpha ci)) \<and> f_le (f_mul (Num 100) (ci_alpha ci)) (Num 100)"
    using mul [OF al(1)] al by simp
  show "f_le (Num 0) (f_mul (Num 100) (f_sub (Num 1) (ci_alpha ci)))
       \<and> f_le (f_mul (Num 100) (f_sub (Num 1) (ci_alpha ci))) (Num 100)"
    using mul [OF b(1)] b by simp
qed

text \<open>
  Statistics whose value on a row lies between the row's minimum and maximum, and the names that
  denote one: percentiles, the median, the maximum and the minimum.
\<close>

definition range_statistic :: "numpy \<Rightarrow> statistic \<Rightarrow> bool" where
  "range_statistic np f = (\<forall>rows. (\<forall>r \<in> set rows. r \<noteq> [] \<and> moderate r) \<longrightarrow> (\<exists>vs. f rows = Inr vs
     \<and> list_all2 (\<lambda>r v. f64_wf v \<and> f_le (np_fmin np r) v \<and> f_le v (np_fmax np r)) rows vs))"

definition range_stat_name :: "string \<Rightarrow> bool" where
  "range_stat_name s = (let name = lower s in
     if take 1 name = ''p'' then (case py_float (drop 1 name) of
         Inr q \<Rightarrow> f_le (Num 0) q \<and> f_le q (Num 100) | Inl _ \<Rightarrow> False)
     else name \<in> {''median'', ''max'', ''min''})"

lemma range_statistic_mapM:
  assumes "\<And>r. r \<noteq> [] \<Longrightarrow> moderate r \<Longrightarrow> \<exists>v. g r = Inr v \<and> f64_wf v \<and> f_le (np_fmin np r) v \<and> f_le v (np_fmax np r)"
  shows "range_statistic np (res_mapM g)"
  unfolding range_statistic_def
proof (intro allI impI)
  fix rows :: "f64 list list"
  assume r: "\<forall>r \<in> set rows. r \<noteq> [] \<and> moderate r"
  let ?Q = "\<lambda>r v. g r = Inr v \<and> f64_wf v \<and> f_le (np_fmin np r) v \<and> f_le v (np_fmax np r)"
  have "\<exists>h. \<forall>r \<in> set rows. ?Q r (h r)" using assms r by (intro bchoice) blast
  then obtain h where h: "\<forall>r \<in> set rows. ?Q r (h r)" by blast
  then have "res_mapM g rows = Inr (map h rows)" by (simp add: res_mapM_map)
  moreover have "list_all2 (\<lambda>r v. f64_wf v \<and> f_le (np_fmin np r) v \<and> f_le v (np_fmax np r)) rows (map h rows)"
    using h by (simp add: list_all2_map2 list_all2_same)
  ultimately show "\<exists>vs. res_mapM g rows = Inr vs
     \<and> list_all2 (\<lambda>r v. f64_wf v \<and> f_le (np_fmin np r) v \<and> f_le v (np_fmax np r)) rows vs" by blast
qed

context numpy_float
begin

lemma percentile_statistic_range:
  assumes "f_le (Num 0) q" and "f_le q (Num 100)" and "method \<in> set percentile_methods"
  shows "range_statistic np (percentile_statistic np q method)"
  unfolding percentile_statistic_def
  by (rule range_statistic_mapM) (use percentile_range assms in blast)

lemma extremum_range:
  "range_statistic np (res_mapM (extremum (np_fmax np)))" "range_statistic np (res_mapM (extremum (np_fmin np)))"
proof -
  have m: "f64_wf x" if "moderate r" "x \<in> set r" for x r using that by (simp add: moderate_def list_all_iff)
  have e: "np_fmin np r \<in> set r" "np_fmax np r \<in> set r" "f_le (np_fmin np r) x" "f_le x (np_fmax np r)"
    if "r \<noteq> []" "moderate r" "x \<in> set r" for x r
    using fmin_least [of r] fmax_greatest [of r] that moderate_no_nan [of r] by blast+
  show "range_statistic np (res_mapM (extremum (np_fmax np)))"
    by (rule range_statistic_mapM) (metis e m extremum_def list.set_sel(1))
  show "range_statistic np (res_mapM (extremum (np_fmin np)))"
    by (rule range_statistic_mapM) (metis e m extremum_def list.set_sel(1))
qed

lemma resolve_range_statistic:
  assumes "range_stat_name s" and "method \<in> set percentile_methods"
  shows "\<exists>f. resolve_statistic np sp (StatName s) method = Inr f \<and> range_statistic np f"
proof (cases "take 1 (lower s) = ''p''")
  case True
  with assms(1) obtain q where "py_float (drop 1 (lower s)) = Inr q" "f_le (Num 0) q" "f_le q (Num 100)"
    by (auto simp: range_stat_name_def Let_def split: sum.splits)
  then show ?thesis using True percentile_statistic_range assms(2)
    by (simp add: resolve_statistic_def Let_def)
next
  case False
  then have "lower s \<in> {''median'', ''max'', ''min''}" using assms(1) by (simp add: range_stat_name_def Let_def)
  moreover have "range_statistic np (percentile_statistic np (Num 50) method)"
    using assms(2) by (intro percentile_statistic_range) simp_all
  ultimately show ?thesis using extremum_range
    by (auto simp: resolve_statistic_def Let_def statistic_table_def)
qed

text \<open>A resample draws from the sample, so it is moderate and its range lies inside the sample's.\<close>

lemma resample_range:
  assumes "moderate x" and "r \<noteq> []" and "set r \<subseteq> set x"
  shows "moderate r" and "f_le (np_fmin np x) (np_fmin np r)" and "f_le (np_fmax np r) (np_fmax np x)"
proof -
  show m: "moderate r" using assms by (auto simp: moderate_def list_all_iff)
  have "x \<noteq> []" using assms(2,3) by auto
  then show "f_le (np_fmin np x) (np_fmin np r)" "f_le (np_fmax np r) (np_fmax np x)"
    using fmin_least [of r] fmin_least [of x] fmax_greatest [of r] fmax_greatest [of x]
      moderate_no_nan [OF m] moderate_no_nan [OF assms(1)] assms(2,3) by blast+
qed

lemma between_moderate:
  assumes "moderate x" and "x \<noteq> []" and "f64_wf v" and "f_le (np_fmin np x) v" and "f_le v (np_fmax np x)"
  shows "moderate [v]"
proof -
  let ?a = "np_fmin np x" and ?b = "np_fmax np x"
  have "?a \<in> set x" "?b \<in> set x"
    using fmin_least [of x] fmax_greatest [of x] moderate_no_nan [OF assms(1)] assms(2) by blast+
  then have ab: "is_finite ?a" "is_finite ?b" "\<bar>fval ?a\<bar> \<le> 2 ^ 1000" "\<bar>fval ?b\<bar> \<le> 2 ^ 1000"
    using assms(1) unfolding moderate_def list_all_iff by blast+
  then have v: "is_finite v" using assms(4,5)
    by (cases v; cases ?a; cases ?b) (auto simp: f_le_def f_lt_def split: if_splits)
  have "fval ?a \<le> fval v" "fval v \<le> fval ?b" using assms(4,5) ab v by simp_all
  then have "\<bar>fval v\<bar> \<le> 2 ^ 1000" using ab(3,4) by linarith
  then show ?thesis using v assms(3) by (simp add: moderate_def)
qed

end

lemma bootstrap_chunk_range:
  assumes np: "numpy_float np" and rn: "np_generator rn" and f: "range_statistic np f"
    and x: "moderate x" "x \<noteq> []" and k: "0 \<le> k"
  shows "\<exists>vs rng'. bootstrap_chunk rn f x k rng = Inr (vs, rng')
    \<and> list_all (\<lambda>v. moderate [v] \<and> f_le (np_fmin np x) v \<and> f_le v (np_fmax np x)) vs"
proof -
  let ?m = "fst (rng_integers rn rng (length x) (nat k) (length x))" and ?g = "snd (rng_integers rn rng (length x) (nat k) (length x))"
  let ?rows = "map (map ((!) x)) ?m"
  have len: "0 < length x" using x(2) by simp
  have rows: "r \<noteq> [] \<and> set r \<subseteq> set x" if "r \<in> set ?rows" for r
    using that np_generator.integers_row [OF rn len, of _ rng "nat k" "length x"] x(2) by fastforce
  note rr = numpy_float.resample_range [OF np x(1)]
  have "\<forall>r \<in> set ?rows. r \<noteq> [] \<and> moderate r" using rows rr(1) by blast
  then obtain vs where vs: "f ?rows = Inr vs"
      "list_all2 (\<lambda>r v. f64_wf v \<and> f_le (np_fmin np r) v \<and> f_le v (np_fmax np r)) ?rows vs"
    using f unfolding range_statistic_def by blast
  from list_all2_lengthD [OF this(2)] have "length vs = nat k"
    using np_generator.integers_rows [OF rn len, of rng "nat k" "length x"] by simp
  then have "bootstrap_chunk rn f x k rng = Inr (vs, ?g)"
    using k vs(1) by (simp add: bootstrap_chunk_def case_prod_unfold Let_def assign_chunk_def)
  moreover have "moderate [v] \<and> f_le (np_fmin np x) v \<and> f_le v (np_fmax np x)" if "v \<in> set vs" for v
  proof -
    from that obtain i where i: "i < length vs" "v = vs ! i" by (auto simp: in_set_conv_nth)
    with list_all2_lengthD [OF vs(2)] have il: "i < length ?rows" by simp
    define r where "r = ?rows ! i"
    have r: "r \<in> set ?rows" "f64_wf v" "f_le (np_fmin np r) v" "f_le v (np_fmax np r)"
      using nth_mem [OF il] list_all2_nthD [OF vs(2) il] unfolding i(2) r_def by blast+
    have rx: "r \<noteq> []" "set r \<subseteq> set x" using rows [OF r(1)] by blast+
    have "f_le (np_fmin np x) v" using rr(2) [OF rx] r(3) by (rule f_le_trans)
    moreover have "f_le v (np_fmax np x)" using r(4) rr(3) [OF rx] by (rule f_le_trans)
    ultimately show ?thesis using numpy_float.between_moderate [OF np x r(2)] by blast
  qed
  ultimately show ?thesis by (auto simp: list_all_iff)
qed

lemma ci_bounds_range:
  assumes np: "numpy_float np" and ne: "bs \<noteq> []"
    and bs: "list_all (\<lambda>v. moderate [v] \<and> f_le lo v \<and> f_le v hi) bs"
    and ci: "f_le (Num 0) ci" "f_le ci (Num 1)"
  shows "\<exists>l h. ci_bounds np ci bs = Inr (l, h) \<and> f_le lo l \<and> f_le l hi \<and> f_le lo h \<and> f_le h hi"
proof -
  have m: "moderate bs" using bs by (simp add: moderate_def list_all_iff)
  have e: "f_le lo (np_fmin np bs)" "f_le (np_fmax np bs) hi"
    using numpy_float.fmin_least [OF np moderate_no_nan [OF m] ne]
      numpy_float.fmax_greatest [OF np moderate_no_nan [OF m] ne] bs by (simp_all add: list_all_iff)
  have "\<exists>p. np_percentile np bs q ''linear'' = Inr p \<and> f_le lo p \<and> f_le p hi"
    if "f_le (Num 0) q \<and> f_le q (Num 100)" for q
    using numpy_float.percentile_range [OF np m ne, of q "''linear''"] that e
    by (auto simp: percentile_methods_def intro: f_le_trans)
  from this [OF ci_quantiles(1) [OF ci]] this [OF ci_quantiles(2) [OF ci]]
  show ?thesis by (auto simp: ci_bounds_def)
qed

section \<open>Cliff's delta\<close>

text \<open>The reference: one comparison per pair, ties counting zero.\<close>

definition pair_sign :: "f64 \<Rightarrow> f64 \<Rightarrow> int" where
  "pair_sign u v = (if f_lt v u then 1 else if f_lt u v then -1 else 0)"

definition pair_sum :: "f64 list \<Rightarrow> f64 list \<Rightarrow> int" where
  "pair_sum a b = sum_list (map (\<lambda>u. sum_list (map (pair_sign u) b)) a)"

lemma sum_pair_sign:
  assumes "\<not> is_nan u" and "no_nan b"
  shows "sum_list (map (pair_sign u) b)
    = int (length (filter (\<lambda>v. f_lt v u) b)) - (int (length b) - int (length (filter (\<lambda>v. f_le v u) b)))"
  using assms(2) by (induction b) (auto simp: pair_sign_def f_le_def no_nan_def assms(1) dest: f_lt_asym)

lemma sum_pair_sign_bounds: "\<bar>sum_list (map (pair_sign u) b)\<bar> \<le> int (length b)"
  by (induction b) (auto simp: pair_sign_def)

lemma sum_list_abs_bound:
  "(\<And>x. x \<in> set xs \<Longrightarrow> \<bar>f x\<bar> \<le> c) \<Longrightarrow> \<bar>sum_list (map f xs) :: int\<bar> \<le> int (length xs) * c"
  by (induction xs) (fastforce simp: algebra_simps)+

lemma pair_sum_bounds: "\<bar>pair_sum a b\<bar> \<le> int (length a * length b)"
  unfolding pair_sum_def using sum_list_abs_bound [of a "\<lambda>u. sum_list (map (pair_sign u) b)" "int (length b)"]
  by (simp add: sum_pair_sign_bounds)

lemma pair_sum_Cons2: "pair_sum a (v # b) = sum_list (map (\<lambda>u. pair_sign u v) a) + pair_sum a b"
  by (induction a) (simp_all add: pair_sum_def)

lemma pair_sum_swap: "pair_sum b a = - pair_sum a b"
proof (induction b)
  case Nil
  then show ?case by (simp add: pair_sum_def sum_list_0)
next
  case (Cons v b)
  have "sum_list (map (pair_sign v) a) = - sum_list (map (\<lambda>u. pair_sign u v) a)"
    by (induction a) (auto simp: pair_sign_def dest: f_lt_asym)
  then show ?case using Cons by (simp add: pair_sum_Cons2) (simp add: pair_sum_def)
qed

lemma pair_sum_max:
  assumes "pair_sum a b = int (length a * length b)" and "u \<in> set a" and "v \<in> set b"
  shows "f_lt v u"
proof (rule ccontr)
  assume n: "\<not> f_lt v u"
  have rest: "sum_list (map (pair_sign u) xs) \<le> int (length xs)" for u xs using sum_pair_sign_bounds [of u xs] by linarith
  from assms(3) obtain b1 b2 where b: "b = b1 @ v # b2" by (meson split_list)
  have "sum_list (map (pair_sign u) b) < int (length b)"
    unfolding b using n rest [of u b1] rest [of u b2] by (simp add: pair_sign_def)
  moreover from assms(2) obtain a1 a2 where a: "a = a1 @ u # a2" by (meson split_list)
  ultimately have "pair_sum a b < int (length a * length b)"
    using pair_sum_bounds [of a1 b] pair_sum_bounds [of a2 b] by (simp add: a pair_sum_def algebra_simps)
  with assms(1) show False by simp
qed

lemma pair_sum_all:
  assumes "\<And>u v. u \<in> set a \<Longrightarrow> v \<in> set b \<Longrightarrow> f_lt v u"
  shows "pair_sum a b = int (length a * length b)"
proof -
  have "sum_list (map (pair_sign u) b) = int (length b)" if "u \<in> set a" for u
  proof -
    have "map (pair_sign u) b = map (\<lambda>_. 1) b" using assms that by (simp add: pair_sign_def)
    then show ?thesis by (simp only: sum_list_triv map_replicate_const) (simp add: sum_list_replicate)
  qed
  then have "map (\<lambda>u. sum_list (map (pair_sign u) b)) a = map (\<lambda>_. int (length b)) a" by simp
  then show ?thesis unfolding pair_sum_def by (simp add: map_replicate_const sum_list_replicate)
qed

context numpy_float
begin

lemma cliffs_delta_pair_sum:
  assumes "no_nan a" and "no_nan b" and "a \<noteq> []" and "b \<noteq> []" and "int (length a * length b) < 2 ^ 63"
  shows "cliffs_delta np a b = f_div (f_of_int (pair_sum a b)) (f_of_int (int (length a * length b)))"
proof -
  let ?l = "map (\<lambda>v. int (np_searchsorted_left np (np_sort np b) v)) a"
  let ?g = "map (\<lambda>v. int (length b) - int (np_searchsorted_right np (np_sort np b) v)) a"
  have v: "\<not> is_nan v" if "v \<in> set a" for v using assms(1) that by (simp add: no_nan_def list_all_iff)
  have nz: "np_sort np b \<noteq> []" using sort_length [OF assms(2)] assms(4) by auto
  have l: "?l = map (\<lambda>u. int (length (filter (\<lambda>y. f_lt y u) b))) a"
    and g: "?g = map (\<lambda>u. int (length b) - int (length (filter (\<lambda>y. f_le y u) b))) a"
    using v by (simp_all add: searchsorted_left_sort searchsorted_right_sort assms(2))
  have "\<bar>sum_list ?l\<bar> \<le> int (length a) * int (length b)" "\<bar>sum_list ?g\<bar> \<le> int (length a) * int (length b)"
    unfolding l g by (rule sum_list_abs_bound; simp add: length_filter_le)+
  then have "int64 (sum_list ?l)" "int64 (sum_list ?g)"
    using assms(5) unfolding int64_def of_nat_mult by linarith+
  then have s: "np_isum np ?l = sum_list ?l" "np_isum np ?g = sum_list ?g" by (simp_all only: isum)
  have "sum_list ?l - sum_list ?g = pair_sum a b"
    unfolding l g pair_sum_def using v
    by (simp add: sum_pair_sign assms(2) sum_list_subtractf [symmetric] cong: map_cong)
  then show ?thesis
    using nz assms(3) s sort_length [OF assms(2)] by (simp add: cliffs_delta_def Let_def)
qed

end

section \<open>Properties\<close>

lemma bootstrap_ci_returns:
  assumes "chunk \<noteq> 0"
  shows "\<exists>r. bootstrap_ci rn np sp x stat n_boot ci seed chunk method = Some r"
proof -
  have "\<exists>r. bootstrap_loop rn f x n_boot chunk [] rng = Some r" if "\<not> n_boot \<le> 0" for f rng
    using bootstrap_loop_total [OF assms, of "[]" n_boot rn f x rng] that by auto
  then show ?thesis by (simp add: bootstrap_ci_def Let_def split: sum.splits)
qed

lemma compare_returns: "\<exists>r. compare rn np sp base prop stat n_boot ci seed method = Some r"
proof -
  have "DEFAULT_CHUNK \<noteq> 0" by (simp add: DEFAULT_CHUNK_def)
  from bootstrap_ci_returns [OF this, of rn np sp "base" stat n_boot ci seed "method"]
    bootstrap_ci_returns [OF this, of rn np sp "prop" stat n_boot ci "seed + 1" "method"]
  show ?thesis by (auto simp: compare_def Let_def case_prod_unfold split: option.splits sum.splits)
qed

text \<open>With \<open>chunk=0\<close> the loop makes no progress.\<close>

lemma bootstrap_ci_zero_chunk:
  assumes "np_generator rn" and "1 < length x" and "0 < n_boot"
    and "resolve_statistic np sp stat method = Inr f" and "f [] = Inr []"
    and "stat1 f x = Inr point" and "default_rng rn seed = Inr rng"
  shows "bootstrap_ci rn np sp x stat n_boot ci seed 0 method = None"
proof -
  have x: "0 < length x" "x \<noteq> []" using assms(2) by auto
  have "bootstrap_loop rn f x n_boot 0 [] rng = None"
    using assms(1) x(1) assms(5,3) by (rule bootstrap_loop_zero)
  moreover note x
  ultimately show ?thesis using assms by (simp add: bootstrap_ci_def Let_def)
qed

text \<open>
  Property C15. The bootstrap returns, with a result or an exception, for every chunk size but
  zero; in particular \<open>compare\<close>, which uses the default of 200, always returns. With
  \<open>chunk=0\<close> its loop makes no progress: on a sample of two or more values, with
  resamples requested, the call never returns.
\<close>

theorem bootstrap_ci_terminates:
  "(chunk \<noteq> 0 \<longrightarrow> (\<exists>r. bootstrap_ci rn np sp x stat n_boot ci seed chunk method = Some r))
   \<and> (\<exists>r. compare rn np sp base prop stat n_boot ci seed method = Some r)
   \<and> (np_generator rn \<and> 1 < length x \<and> 0 < n_boot \<and> resolve_statistic np sp stat method = Inr f \<and> f [] = Inr []
       \<and> stat1 f x = Inr point \<and> default_rng rn seed = Inr rng
      \<longrightarrow> bootstrap_ci rn np sp x stat n_boot ci seed 0 method = None)"
  by (intro conjI impI bootstrap_ci_returns compare_returns) (auto intro: bootstrap_ci_zero_chunk)

lemma bootstrap_ci_terminates_witness:
  "\<forall>sp. (\<exists>r. bootstrap_ci rn_ref np_ref sp [Num 1, Num 2] (StatName ''max'') 1 (f_lit (95 / 100)) 0 1 ''linear'' = Some r)
    \<and> bootstrap_ci rn_ref np_ref sp [Num 1, Num 2] (StatName ''max'') 1 (f_lit (95 / 100)) 0 0 ''linear'' = None"
proof
  fix sp
  let ?f = "res_mapM (extremum (np_fmax np_ref))"
  have l: "lower ''max'' = ''max''" by code_simp
  have "resolve_statistic np_ref sp (StatName ''max'') ''linear'' = Inr ?f"
    by (simp add: resolve_statistic_def l statistic_table_def)
  moreover have "stat1 ?f [Num 1, Num 2] = Inr (np_fmax np_ref [Num 1, Num 2])"
    by (simp add: stat1_def extremum_def)
  moreover have "default_rng rn_ref 0 = Inr 0" by (simp add: rn_ref_def)
  ultimately show "(\<exists>r. bootstrap_ci rn_ref np_ref sp [Num 1, Num 2] (StatName ''max'') 1 (f_lit (95 / 100)) 0 1 ''linear'' = Some r)
    \<and> bootstrap_ci rn_ref np_ref sp [Num 1, Num 2] (StatName ''max'') 1 (f_lit (95 / 100)) 0 0 ''linear'' = None"
    using bootstrap_ci_terminates [of 1 rn_ref np_ref sp "[Num 1, Num 2]" "StatName ''max''" 1 "f_lit (95 / 100)" 0 "''linear''"
      "[]" "[]" ?f "np_fmax np_ref [Num 1, Num 2]" 0] rn_ref.np_generator_axioms by simp
qed

text \<open>
  Property C16. For the statistics whose value cannot leave the sample's range (a percentile, the
  median, the maximum or the minimum; not \<open>mean\<close>, whose rounding is the library's, nor \<open>std\<close>,
  which is no value of that range), a confidence level in \<open>[0, 1]\<close>, a positive chunk size
  and a non-empty sample of finite, moderate values, the bootstrap returns an interval, and point
  estimate and both bounds lie between the smallest and the greatest value of the sample.
\<close>

theorem bootstrap_ci_within_sample:
  assumes "numpy_float np" and "np_generator rn" and "x \<noteq> []" and "moderate x"
    and "range_stat_name s" and "method \<in> set percentile_methods"
    and "f_le (Num 0) ci" and "f_le ci (Num 1)" and "0 < chunk" and "default_rng rn seed = Inr rng"
  shows "\<exists>b. bootstrap_ci rn np sp x (StatName s) n_boot ci seed chunk method = Some (Inr b)
    \<and> ci_level b = ci \<and> ci_n_boot b = n_boot
    \<and> (\<forall>v \<in> {ci_point b, ci_low b, ci_high b}. f_le (np_fmin np x) v \<and> f_le v (np_fmax np x))"
proof -
  note np = assms(1)
  let ?in = "\<lambda>v. f_le (np_fmin np x) v \<and> f_le v (np_fmax np x)"
  obtain f where f: "resolve_statistic np sp (StatName s) method = Inr f" "range_statistic np f"
    using numpy_float.resolve_range_statistic [OF np assms(5,6)] by blast
  obtain p where p: "stat1 f x = Inr p" "?in p"
    using f(2) [unfolded range_statistic_def, rule_format, of "[x]"] assms(3,4)
    by (auto simp: stat1_def list_all2_Cons1)
  show ?thesis
  proof (cases "length x = 1 \<or> n_boot \<le> 0")
    case True
    then show ?thesis using assms(3) f(1) p by (simp add: bootstrap_ci_def Let_def)
  next
    case False
    obtain bs where bs: "bootstrap_loop rn f x n_boot chunk [] rng = Some (Inr bs)"
        "list_all (\<lambda>v. moderate [v] \<and> ?in v) bs" "int (length bs) = n_boot"
      using bootstrap_loop_invariant [where P = "\<lambda>v. moderate [v] \<and> ?in v", OF assms(9), of "[]" n_boot rn f x rng]
        bootstrap_chunk_range [OF np assms(2) f(2) assms(4,3)] False by auto
    obtain l h where lh: "ci_bounds np ci bs = Inr (l, h)" "?in l" "?in h"
      using ci_bounds_range [OF np _ bs(2) assms(7,8)] bs(3) False by fastforce
    then show ?thesis using False assms(3,10) f(1) p bs(1) by (simp add: bootstrap_ci_def Let_def)
  qed
qed

lemma bootstrap_ci_within_sample_witness:
  "\<forall>sp. \<exists>b. bootstrap_ci rn_ref np_ref sp [Num 1, Num 2] (StatName ''p99'') 3 (Num (1 / 2)) 0 200 ''linear'' = Some (Inr b)
     \<and> f_le (np_fmin np_ref [Num 1, Num 2]) (ci_low b)"
proof
  fix sp
  have "moderate [Num 1, Num 2]" using moderate_of_ints [of "[1, 2]"] by simp
  moreover have "range_stat_name ''p99''" by code_simp
  moreover have "''linear'' \<in> set percentile_methods" by (simp add: percentile_methods_def)
  moreover have "default_rng rn_ref 0 = Inr 0" by (simp add: rn_ref_def)
  ultimately show "\<exists>b. bootstrap_ci rn_ref np_ref sp [Num 1, Num 2] (StatName ''p99'') 3 (Num (1 / 2)) 0 200 ''linear'' = Some (Inr b)
     \<and> f_le (np_fmin np_ref [Num 1, Num 2]) (ci_low b)"
    using bootstrap_ci_within_sample [OF np_ref.numpy_float_axioms rn_ref.np_generator_axioms,
        of "[Num 1, Num 2]" "''p99''" "''linear''" "Num (1 / 2)" 200 0 0 sp 3] by simp blast
qed

text \<open>
  Property C17. Cliff's delta by sorting and binary search equals the count over all pairs:
  for samples without NaN and at most $2^{53}$ pairs it is (pairs with \<open>a\<close> greater minus
  pairs with \<open>a\<close> smaller) over all pairs, rounded once; it lies in \<open>[-1, 1]\<close>, is 1
  exactly when every \<open>a\<close> exceeds every \<open>b\<close>, and changes sign when the samples are
  swapped. An empty sample gives NaN.
\<close>

theorem cliffs_delta_counts_pairs:
  assumes "numpy_float np" and "no_nan a" and "no_nan b" and "a \<noteq> []" and "b \<noteq> []"
    and "int (length a * length b) \<le> 2 ^ 53"
  shows "is_finite (cliffs_delta np a b)
    \<and> fval (cliffs_delta np a b) = rnd (of_int (pair_sum a b) / of_int (int (length a * length b)))
    \<and> -1 \<le> fval (cliffs_delta np a b) \<and> fval (cliffs_delta np a b) \<le> 1
    \<and> fval (cliffs_delta np b a) = - fval (cliffs_delta np a b)
    \<and> ((\<forall>u \<in> set a. \<forall>v \<in> set b. f_lt v u) \<longleftrightarrow> fval (cliffs_delta np a b) = 1)
    \<and> is_nan (cliffs_delta np [] b)"
proof -
  let ?n = "int (length a * length b)" and ?d = "pair_sum a b"
  have n: "0 < ?n" "?n < 2 ^ 63" using assms(4,5,6) by simp_all
  have eq: "cliffs_delta np a b = fpack (?d < 0) (of_int ?d / of_int ?n)"
    using numpy_float.cliffs_delta_pair_sum [OF assms(1-5) n(2)] n(1) assms(6) pair_sum_bounds [of a b]
    by (simp only: f_div_of_int)
  have n': "int (length b * length a) < 2 ^ 63" using n(2) by (simp add: mult.commute)
  have eq': "cliffs_delta np b a = fpack (0 < ?d) (- (of_int ?d / of_int ?n))"
    using numpy_float.cliffs_delta_pair_sum [OF assms(1,3,2,5,4) n'] n(1) assms(6) pair_sum_bounds [of b a]
    by (simp add: pair_sum_swap [of b a] mult.commute f_div_of_int)
  have q: "of_int (-1) \<le> of_int ?d / (of_int ?n :: rat)" "of_int ?d / (of_int ?n :: rat) \<le> of_int 1"
  proof -
    have "- ?n \<le> ?d" "?d \<le> ?n" using pair_sum_bounds [of a b] by linarith+
    then have "- of_int ?n \<le> (of_int ?d :: rat)" "(of_int ?d :: rat) \<le> of_int ?n"
      by (metis of_int_le_iff of_int_minus)+
    then show "of_int (-1) \<le> of_int ?d / (of_int ?n :: rat)" "of_int ?d / (of_int ?n :: rat) \<le> of_int 1"
      using n(1) by (simp_all only: le_divide_eq divide_le_eq of_int_0_less_iff of_int_1 of_int_minus if_True mult_1 mult_minus_left)
  qed
  have b: "is_finite (cliffs_delta np a b)" "-1 \<le> fval (cliffs_delta np a b)" "fval (cliffs_delta np a b) \<le> 1"
    and v: "fval (cliffs_delta np a b) = rnd (of_int ?d / of_int ?n)"
    unfolding eq using fpack_bounded_int [OF q, of "?d < 0"] by simp_all
  have q': "of_int (-1) \<le> - (of_int ?d / (of_int ?n :: rat))" "- (of_int ?d / (of_int ?n :: rat)) \<le> of_int 1"
    using q by linarith+
  have v': "fval (cliffs_delta np b a) = - rnd (of_int ?d / of_int ?n)"
    unfolding eq' using fpack_bounded_int(4) [OF q', of "0 < ?d"] by (simp add: rnd_uminus)
  have "fval (cliffs_delta np a b) = 1" if "\<forall>u \<in> set a. \<forall>v \<in> set b. f_lt v u"
    using pair_sum_all [of a b] that assms(4,5) rnd_of_int_exact [of 1] unfolding v by simp
  moreover have "\<forall>u \<in> set a. \<forall>v \<in> set b. f_lt v u" if "fval (cliffs_delta np a b) = 1"
  proof -
    have "?d = ?n" using that rnd_proper_fraction [of ?d ?n, OF _ assms(6) n(1)] pair_sum_bounds [of a b] unfolding v by linarith
    then show ?thesis using pair_sum_max [of a b] by blast
  qed
  moreover have "is_nan (cliffs_delta np [] b)" by (simp add: cliffs_delta_def Let_def)
  ultimately show ?thesis using b v v' [folded v] by blast
qed

lemma cliffs_delta_counts_pairs_witness:
  "fval (cliffs_delta np_ref [Num 2, Num 3] [Num 1]) = 1 \<and> fval (cliffs_delta np_ref [Num 1] [Num 2, Num 3]) = -1"
  using cliffs_delta_counts_pairs [OF np_ref.numpy_float_axioms, of "[Num 2, Num 3]" "[Num 1]"]
  by (simp add: no_nan_def)

text \<open>The effect labels in their order.\<close>

definition effect_rank :: "string \<Rightarrow> nat" where
  "effect_rank e = list_index [''negligible'', ''small'', ''medium'', ''large'', ''n/a''] e"

text \<open>
  The verbal label of a delta is \<open>n/a\<close> exactly for NaN, one of four labels
  otherwise, does not depend on the sign, and grows with the absolute value.
\<close>

theorem describe_delta_monotone:
  "(describe_delta d = ''n/a'' \<longleftrightarrow> is_nan d)
   \<and> describe_delta (f_neg d) = describe_delta d
   \<and> (f_le (f_abs d) (f_abs e) \<longrightarrow> effect_rank (describe_delta d) \<le> effect_rank (describe_delta e)
        \<and> describe_delta e \<in> {''negligible'', ''small'', ''medium'', ''large''})"
proof -
  have abs: "is_nan (f_abs d) \<longleftrightarrow> is_nan d" "f_abs (f_neg d) = f_abs d" for d by (cases d; simp)+
  have "effect_rank (describe_delta d) \<le> effect_rank (describe_delta e)" if "f_le (f_abs d) (f_abs e)"
    using that f_le_less_trans [OF that]
    by (auto simp: describe_delta_def Let_def effect_rank_def f_le_def)
  moreover have "describe_delta e \<in> {''negligible'', ''small'', ''medium'', ''large''}" if "f_le (f_abs d) (f_abs e)"
    using that by (auto simp: describe_delta_def Let_def is_nan_def)
  ultimately show ?thesis by (auto simp: describe_delta_def Let_def abs)
qed

lemma describe_delta_monotone_witness:
  "effect_rank (describe_delta (Num (1 / 8))) \<le> effect_rank (describe_delta (Num (-1 / 2)))"
  using describe_delta_monotone [of "Num (1 / 8)" "Num (-1 / 2)"] by simp

text \<open>
  What the sign of \<open>improvement_pct\<close> means: it is NaN when the baseline's
  point estimate is zero or NaN, not negative when the proposed estimate is at most the
  baseline's, and not positive when it is at least the baseline's, whatever the sign of the
  baseline.
\<close>

theorem improvement_sign:
  "((f_eq b (Num 0) \<or> is_nan b) \<longrightarrow> improvement b p = NaN)
   \<and> (is_finite b \<and> is_finite p \<and> fval b \<noteq> 0 \<longrightarrow>
        (fval p \<le> fval b \<longrightarrow> f_le (Num 0) (improvement b p))
      \<and> (fval b \<le> fval p \<longrightarrow> f_le (improvement b p) (Num 0))
      \<and> (fval p = fval b \<longrightarrow> fval (improvement b p) = 0))"
proof -
  let ?d = "f_div (f_sub b p) (f_abs b)"
  have nan: "improvement b p = NaN" if "f_eq b (Num 0) \<or> is_nan b" using that by (auto simp: improvement_def)
  moreover have "(fval p \<le> fval b \<longrightarrow> f_le (Num 0) (improvement b p))
      \<and> (fval b \<le> fval p \<longrightarrow> f_le (improvement b p) (Num 0)) \<and> (fval p = fval b \<longrightarrow> fval (improvement b p) = 0)"
    if f: "is_finite b" "is_finite p" "fval b \<noteq> 0"
  proof -
    have ab: "is_finite (f_abs b)" "0 < fval (f_abs b)" using f by (cases b; simp)+
    have imp: "improvement b p = f_mul ?d (Num 100)" using f by (auto simp: improvement_def f_eq_def is_nan_def is_finite_def)
    obtain s where s: "f_sub b p = fpack s (fval b - fval p)" using f_ops_finite(2) [OF f(1,2)] by blast
    have "f_le (Num 0) (improvement b p)" if "fval p \<le> fval b"
      unfolding imp s using that ab by (intro f_sign_nonneg fpack_sign) simp_all
    moreover have "f_le (improvement b p) (Num 0)" if "fval b \<le> fval p"
      unfolding imp s using that ab by (intro f_sign_nonpos fpack_sign) simp_all
    ultimately show ?thesis by (auto simp: f_le_zero_antisym)
  qed
  ultimately show ?thesis by blast
qed

lemma improvement_sign_witness:
  "f_le (Num 0) (improvement (Num 4) (Num 3)) \<and> f_le (Num 0) (improvement (Num (-3)) (Num (-4)))"
  using improvement_sign [of "Num 4" "Num 3"] improvement_sign [of "Num (-3)" "Num (-4)"] by simp

text \<open>
  The per-run aggregate has one entry per run, each the statistic of that run; its
  interval is undefined below three runs and symmetric around the mean, computed by the
  Student-t formula, from three runs on.
\<close>

theorem per_run_aggregate_interval:
  assumes "resolve_statistic np sp stat method = Inr f" and "list_all2 (\<lambda>v y. stat1 f v = Inr y) runs ys"
  shows "\<exists>g. per_run_aggregate np sp runs stat ci method = Inr g
    \<and> agg_n_runs g = length runs \<and> agg_per_run g = ys \<and> agg_ci g = ci
    \<and> (length runs < 3 \<longrightarrow> is_nan (agg_ci_low g) \<and> is_nan (agg_ci_high g))
    \<and> (length runs = 0 \<longrightarrow> is_nan (agg_mean g)) \<and> (length runs < 2 \<longrightarrow> is_nan (agg_std g))
    \<and> (3 \<le> length runs \<longrightarrow> (\<exists>half. agg_ci_low g = f_sub (agg_mean g) half \<and> agg_ci_high g = f_add (agg_mean g) half
         \<and> half = f_div (f_mul (sps_t_ppf sp (f_add (Num (1 / 2)) (f_div ci (Num 2))) (length runs - 1)) (agg_std g))
                     (np_sqrt sp (f_of_int (int (length runs))))))"
proof -
  have "res_mapM (stat1 f) runs = Inr ys" using assms(2) by (simp add: res_mapM_Inr_iff)
  moreover have "length ys = length runs" using list_all2_lengthD [OF assms(2)] by simp
  moreover have "f_lit (1 / 2) = Num (1 / 2)" by code_simp
  ultimately show ?thesis using assms(1) by (auto simp: per_run_aggregate_def Let_def)
qed

lemma per_run_aggregate_interval_witness:
  "\<forall>sp. \<exists>g. per_run_aggregate np_ref sp [[Num 1, Num 2], [Num 4]] (StatName ''max'') (Num (1 / 2)) ''linear'' = Inr g
     \<and> is_nan (agg_ci_low g) \<and> agg_per_run g = [Num 2, Num 4]"
proof
  fix sp
  let ?f = "res_mapM (extremum (np_fmax np_ref))"
  have l: "lower ''max'' = ''max''" by code_simp
  have "np_fmax np_ref [Num 1, Num 2] = Num 2" "np_fmax np_ref [Num 4] = Num 4" by code_simp+
  then have "list_all2 (\<lambda>v y. stat1 ?f v = Inr y) [[Num 1, Num 2], [Num 4]] [Num 2, Num 4]"
    by (simp add: stat1_def extremum_def)
  moreover have "resolve_statistic np_ref sp (StatName ''max'') ''linear'' = Inr ?f"
    by (simp add: resolve_statistic_def l statistic_table_def)
  ultimately show "\<exists>g. per_run_aggregate np_ref sp [[Num 1, Num 2], [Num 4]] (StatName ''max'') (Num (1 / 2)) ''linear'' = Inr g
     \<and> is_nan (agg_ci_low g) \<and> agg_per_run g = [Num 2, Num 4]"
    using per_run_aggregate_interval [of np_ref sp "StatName ''max''" "''linear''" ?f "[[Num 1, Num 2], [Num 4]]" "[Num 2, Num 4]" "Num (1 / 2)"]
    by auto
qed

end
