(* ===== verification/Report.thy ===== *)
theory Report
  imports Dataset Stats PyJson
begin

text \<open>
  \<open>analysis/tsn_analysis/report.py\<close>: the summary of a results directory, its Markdown tables
  and its JSON form. The summary's nested dictionaries are records; where a key is looked up in a
  dictionary a missing one raises. The lemmas show what a summary contains, that pooled loss and
  DSCP counts add up the runs, that the Markdown tables are rectangular and never fail to render,
  and that the JSON form is free of NaN and infinities and loses nothing else.
\<close>

section \<open>Computations that may not end\<close>

text \<open>\<open>None\<close> is a computation that does not return, \<open>Some (Inl e)\<close> one that raises.\<close>

definition lres_bind :: "'a res option \<Rightarrow> ('a \<Rightarrow> 'b res option) \<Rightarrow> 'b res option" where
  "lres_bind m f = (case m of None \<Rightarrow> None | Some (Inl e) \<Rightarrow> Some (Inl e) | Some (Inr x) \<Rightarrow> f x)"

fun lres_mapM :: "('a \<Rightarrow> 'b res option) \<Rightarrow> 'a list \<Rightarrow> 'b list res option" where
  "lres_mapM f [] = Some (Inr [])"
| "lres_mapM f (x # xs) = lres_bind (f x) (\<lambda>y. lres_bind (lres_mapM f xs) (\<lambda>ys. Some (Inr (y # ys))))"

definition dict_item :: "(string, 'v) dict \<Rightarrow> string \<Rightarrow> 'v res" where
  "dict_item d k = (case dict_get d k of None \<Rightarrow> Inl (KeyError k) | Some v \<Rightarrow> Inr v)"

section \<open>The summary\<close>

definition COMPARISON_METRICS :: "(string \<times> string \<times> string) list" where
  "COMPARISON_METRICS =
     [(''latency_p50_ms'', ''latency_ms'', ''p50''),
      (''latency_p99_ms'', ''latency_ms'', ''p99''),
      (''jitter_p99_us'', ''jitter_us'', ''p99'')]"

definition choose_baseline :: "string list \<Rightarrow> string option \<Rightarrow> string res" where
  "choose_baseline conditions requested = (case requested of
      Some r \<Rightarrow> if r \<notin> set conditions then Inl (ValueError ''baseline not among conditions'') else Inr r
    | None \<Rightarrow> (case conditions of [] \<Rightarrow> Inl (ValueError ''no conditions found'') | c # _ \<Rightarrow> Inr c))"

text \<open>
  \<open>float(sum(...))\<close> over the runs. The summands are whole numbers; below $2^{53}$ the
  compensated summation of newer interpreters gives the same value as adding in order.
\<close>

definition aggregate_loss :: "numpy \<Rightarrow> Cell \<Rightarrow> (string, f64) dict res" where
  "aggregate_loss np c =
     (let per_run = map (\<lambda>r. loss_summary np (run_seq r)) (cell_runs c)
      in res_bind (res_mapM (\<lambda>k. res_bind (res_mapM (\<lambda>d. dict_item d k) per_run) (\<lambda>vs. Inr (k, foldl f_add (Num 0) vs)))
           [''expected'', ''received'', ''unique'', ''lost'', ''duplicates'', ''reorders'']) (\<lambda>total.
         res_bind (dict_item total ''lost'') (\<lambda>lost.
         res_bind (dict_item total ''expected'') (\<lambda>expected.
         Inr (dict_put total ''loss_pct''
           (if \<not> f_eq expected (Num 0) then f_div (f_mul (Num 100) lost) expected else NaN))))))"

definition merge_hist :: "(int, nat) dict \<Rightarrow> (int, nat) dict \<Rightarrow> (int, nat) dict" where
  "merge_hist merged d = foldl (\<lambda>m (k, v). dict_put m k (dict_get_or m k 0 + v)) merged d"

definition merge_dscp :: "dscp_dist \<Rightarrow> dscp_dist \<Rightarrow> dscp_dist" where
  "merge_dscp m d =
     m\<lparr>dscp_hist := merge_hist (dscp_hist m) (dscp_hist d), ecn_hist := merge_hist (ecn_hist m) (ecn_hist d),
       tos_hist := merge_hist (tos_hist m) (tos_hist d), tos_missing := tos_missing m + tos_missing d\<rparr>"

text \<open>\<open>max(d, key=d.get)\<close>: the first of the keys with the greatest value.\<close>

fun max_key :: "(int, nat) dict \<Rightarrow> int option" where
  "max_key [] = None"
| "max_key ((k, v) # d) = Some (fst (foldl (\<lambda>(bk, bv) (k, v). if bv < v then (k, v) else (bk, bv)) (k, v) d))"

definition aggregate_dscp :: "numpy \<Rightarrow> Cell \<Rightarrow> dscp_dist option" where
  "aggregate_dscp np c =
     (let per_run = List.map_filter (\<lambda>r. dscp_distribution np (run_tos r)) (cell_runs c)
      in if per_run = [] then None
         else let merged = foldl merge_dscp \<lparr>dscp_hist = [], ecn_hist = [], tos_hist = [], tos_missing = 0, dominant_dscp = None\<rparr> per_run
              in Some (merged\<lparr>dominant_dscp := max_key (dscp_hist merged)\<rparr>))"

record cell_report =
  cr_condition :: string
  cr_runs :: "string list"
  cr_n_runs :: nat
  cr_n_packets :: nat
  cr_latency_ms :: "(string, f64) dict"
  cr_jitter_us :: "(string, f64) dict"
  cr_loss :: "(string, f64) dict"
  cr_dscp :: "dscp_dist option"
  cr_per_run :: "(string, run_aggregate) dict option"

definition cell_summary :: "numpy \<Rightarrow> scipy \<Rightarrow> Cell \<Rightarrow> string \<Rightarrow> f64 \<Rightarrow> cell_report res" where
  "cell_summary np sp c method ci =
     res_bind (cell_latency_ms c) (\<lambda>lat.
     res_bind (latency_summary np sp lat method) (\<lambda>ls.
     res_bind (cell_jitter_us c) (\<lambda>jit.
     res_bind (distribution_summary np sp jit LATENCY_PERCENTILES method) (\<lambda>js.
     res_bind (aggregate_loss np c) (\<lambda>loss.
       let out = \<lparr>cr_condition = cell_condition c, cr_runs = map run_name (cell_runs c), cr_n_runs = n_runs c,
                  cr_n_packets = length lat, cr_latency_ms = ls, cr_jitter_us = js, cr_loss = loss,
                  cr_dscp = aggregate_dscp np c, cr_per_run = None\<rparr>
       in if 1 < n_runs c
          then res_bind (per_run_aggregate np sp (map latency_ms (cell_runs c)) (StatName ''p99'') ci method) (\<lambda>a.
               res_bind (per_run_aggregate np sp (map (\<lambda>r. jitter_values (jitter_us r)) (cell_runs c)) (StatName ''p99'') ci method) (\<lambda>b.
               Inr (out\<lparr>cr_per_run := Some [(''latency_p99_ms'', a), (''jitter_p99_us'', b)]\<rparr>)))
          else Inr out)))))"

definition cell_attr :: "Cell \<Rightarrow> string \<Rightarrow> f64 list res" where
  "cell_attr c attr =
     (if attr = ''latency_ms'' then cell_latency_ms c
      else if attr = ''jitter_us'' then cell_jitter_us c
      else Inl (AttributeError attr))"

definition compare_cells ::
  "'g np_random \<Rightarrow> numpy \<Rightarrow> scipy \<Rightarrow> Cell \<Rightarrow> Cell \<Rightarrow> int \<Rightarrow> f64 \<Rightarrow> int \<Rightarrow> string \<Rightarrow> (string, comparison) dict res option" where
  "compare_cells rn np sp base other n_boot ci seed method =
     lres_mapM (\<lambda>(label, attr, stat).
       lres_bind (Some (cell_attr base attr)) (\<lambda>b.
       lres_bind (Some (cell_attr other attr)) (\<lambda>o1.
       lres_bind (compare rn np sp b o1 (StatName stat) n_boot ci seed method) (\<lambda>r. Some (Inr (label, r))))))
     COMPARISON_METRICS"

record cmp_entry =
  ce_condition :: string
  ce_baseline :: string
  ce_metrics :: "(string, comparison) dict"

record summary =
  sm_results_dir :: string
  sm_percentile_method :: string
  sm_baseline :: string
  sm_conditions :: "string list"
  sm_n_boot :: int
  sm_ci :: f64
  sm_seed :: int
  sm_cells :: "cell_report list"
  sm_comparisons :: "cmp_entry list"

definition cell_of :: "(string, Cell) dict \<Rightarrow> string \<Rightarrow> Cell res" where
  "cell_of = dict_item"

definition build_summary ::
  "'g np_random \<Rightarrow> numpy \<Rightarrow> scipy \<Rightarrow> string \<Rightarrow> (string \<times> string) list \<Rightarrow> string option \<Rightarrow> int \<Rightarrow> f64 \<Rightarrow> int \<Rightarrow> string \<Rightarrow>
     summary res option" where
  "build_summary rn np sp results_dir files baseline n_boot ci seed method =
     lres_bind (Some (build_dataset files)) (\<lambda>cells.
     let names = dict_keys cells in
     lres_bind (Some (choose_baseline names baseline)) (\<lambda>base.
     lres_bind (Some (res_mapM (\<lambda>c. res_bind (cell_of cells c) (\<lambda>cell. cell_summary np sp cell method ci)) names)) (\<lambda>reports.
     lres_bind (lres_mapM (\<lambda>c.
         lres_bind (Some (cell_of cells base)) (\<lambda>b.
         lres_bind (Some (cell_of cells c)) (\<lambda>other.
         lres_bind (compare_cells rn np sp b other n_boot ci seed method) (\<lambda>ms.
         Some (Inr \<lparr>ce_condition = c, ce_baseline = base, ce_metrics = ms\<rparr>)))))
       (filter (\<lambda>c. c \<noteq> base) names)) (\<lambda>cmps.
     Some (Inr \<lparr>sm_results_dir = results_dir, sm_percentile_method = method, sm_baseline = base, sm_conditions = names,
       sm_n_boot = n_boot, sm_ci = ci, sm_seed = seed, sm_cells = reports, sm_comparisons = cmps\<rparr>)))))"

section \<open>Markdown\<close>

text \<open>\<open>_fmt\<close> is used on floats, on a DSCP value and on \<open>None\<close>.\<close>

datatype fmt_value = FmtNone | FmtFloat f64 | FmtInt int

fun fmt :: "fmt_value \<Rightarrow> nat \<Rightarrow> string" where
  "fmt FmtNone digits = ''-''"
| "fmt (FmtFloat x) digits = (if is_nan x \<or> is_inf x then ''nan'' else fmt_fixed digits x)"
| "fmt (FmtInt n) digits = int_str n"

abbreviation fmt2 :: "f64 \<Rightarrow> string" where
  "fmt2 x \<equiv> fmt (FmtFloat x) 2"

definition fmt_signed :: "f64 \<Rightarrow> string" where
  "fmt_signed x = (if is_nan x then ''nan'' else fmt_fixed_signed 2 x)"

definition fmt_p :: "f64 \<Rightarrow> string" where
  "fmt_p p = (if is_nan p then ''nan''
     else if f_lt p (f_lit (1 / 10 ^ 300)) then ''<1e-300''
     else if f_lt p (f_lit (1 / 100)) then fmt_e 2 p else fmt_fixed 2 p)"

definition table_line :: "string list \<Rightarrow> string" where
  "table_line cells = ''| '' @ join '' | '' cells @ '' |''"

definition table :: "string list \<Rightarrow> string list list \<Rightarrow> string list" where
  "table headers rows =
     [table_line headers, ''|'' @ join ''|'' (map (\<lambda>_. ''---'') headers) @ ''|''] @ map table_line rows @ ['''']"

definition table_cols :: "string list" where
  "table_cols = [''p50'', ''p90'', ''p99'', ''p99.9'', ''max'', ''mean'', ''std'']"

definition fmt_cols :: "(string, f64) dict \<Rightarrow> string list res" where
  "fmt_cols d = res_mapM (\<lambda>k. res_bind (dict_item d k) (\<lambda>x. Inr (fmt2 x))) table_cols"

definition latency_row :: "cell_report \<Rightarrow> string list res" where
  "latency_row c = res_bind (fmt_cols (cr_latency_ms c)) (\<lambda>xs.
     Inr ([cr_condition c, nat_str (cr_n_runs c), nat_str (cr_n_packets c)] @ xs))"

definition jitter_row :: "cell_report \<Rightarrow> string list res" where
  "jitter_row c = res_bind (fmt_cols (cr_jitter_us c)) (\<lambda>xs. Inr (cr_condition c # xs))"

definition loss_row :: "cell_report \<Rightarrow> string list res" where
  "loss_row c = res_bind (res_mapM (\<lambda>(k, digits). res_bind (dict_item (cr_loss c) k) (\<lambda>x. Inr (fmt (FmtFloat x) digits)))
      [(''expected'', 0), (''received'', 0), (''lost'', 0), (''loss_pct'', 2), (''duplicates'', 0), (''reorders'', 0)]) (\<lambda>xs.
     Inr (cr_condition c # xs @ [case cr_dscp c of
         None \<Rightarrow> ''-''
       | Some d \<Rightarrow> fmt (case dominant_dscp d of None \<Rightarrow> FmtNone | Some n \<Rightarrow> FmtInt n) 2]))"

definition per_run_rows :: "cell_report \<Rightarrow> string list list" where
  "per_run_rows c = map (\<lambda>(label, agg).
      [cr_condition c, label, nat_str (agg_n_runs agg), fmt2 (agg_mean agg), fmt2 (agg_std agg),
       ''['' @ fmt2 (agg_ci_low agg) @ '', '' @ fmt2 (agg_ci_high agg) @ '']''])
    (case cr_per_run c of None \<Rightarrow> [] | Some d \<Rightarrow> d)"

definition fmt_interval :: "(string, f64) dict \<Rightarrow> string res" where
  "fmt_interval b = res_bind (dict_item b ''point'') (\<lambda>p. res_bind (dict_item b ''low'') (\<lambda>l. res_bind (dict_item b ''high'') (\<lambda>h.
     Inr (fmt2 p @ '' ['' @ fmt2 l @ '', '' @ fmt2 h @ '']''))))"

definition cmp_rows :: "cmp_entry \<Rightarrow> string list list res" where
  "cmp_rows e = res_mapM (\<lambda>(label, r).
      res_bind (fmt_interval (cmp_baseline r)) (\<lambda>b. res_bind (fmt_interval (cmp_proposed r)) (\<lambda>p.
      Inr [ce_condition e, label, b, p, fmt_signed (improvement_pct r) @ ''%'', fmt_p (p_value r),
           fmt_signed (cmp_cliffs_delta r) @ '' ('' @ cmp_effect r @ '')'']))) (ce_metrics e)"

definition markdown_head :: "summary \<Rightarrow> string list" where
  "markdown_head s =
     [''# TSN measurement summary'', '''',
      ''- results dir: `'' @ sm_results_dir s @ ''`'',
      ''- baseline: `'' @ sm_baseline s @ ''`'',
      ''- conditions: '' @ join '', '' (sm_conditions s),
      ''- percentiles: numpy `'' @ sm_percentile_method s @ ''`; CIs: '' @ fmt_fixed 0 (f_mul (sm_ci s) (Num 100)) @ ''% ''
        @ ''percentile bootstrap, n_boot='' @ int_str (sm_n_boot s) @ '', seed='' @ int_str (sm_seed s),
      '''']"

definition markdown_lines :: "summary \<Rightarrow> string list res" where
  "markdown_lines s =
     res_bind (res_mapM latency_row (sm_cells s)) (\<lambda>lat.
     res_bind (res_mapM jitter_row (sm_cells s)) (\<lambda>jit.
     res_bind (res_mapM loss_row (sm_cells s)) (\<lambda>loss.
       let per_run = concat (map per_run_rows (sm_cells s))
       in res_bind (res_mapM cmp_rows (sm_comparisons s)) (\<lambda>cmps.
     Inr (markdown_head s
       @ [''## Latency (ms)'', ''''] @ table ([''condition'', ''runs'', ''n''] @ table_cols) lat
       @ [''## Jitter |dt| (us)'', ''''] @ table (''condition'' # table_cols) jit
       @ [''## Loss and DSCP'', '''']
       @ table [''condition'', ''expected'', ''received'', ''lost'', ''loss %'', ''dup'', ''reorder'', ''DSCP''] loss
       @ (if per_run \<noteq> []
          then [''## Per-run p99 (mean over runs, t-interval)'', '''']
               @ table [''condition'', ''metric'', ''runs'', ''mean'', ''std'', ''CI''] per_run else [])
       @ [''## Comparisons vs `'' @ sm_baseline s @ ''`'', '''',
          ''improvement = (baseline - condition) / baseline. p: two-sided Mann-Whitney U; ''
          @ ''delta: Cliff'' @ [CHR 0x27] @ ''s delta, + when the baseline is slower. Both compare whole ''
          @ ''distributions, so they repeat across the latency rows.'', '''']
       @ table [''condition'', ''metric'', ''baseline [CI]'', ''condition [CI]'', ''improvement'', ''p-value'', ''delta''] (concat cmps))))))"

definition render_markdown :: "summary \<Rightarrow> string res" where
  "render_markdown s = res_bind (markdown_lines s) (\<lambda>ls. Inr (join [CHR 0x0A] ls))"

section \<open>JSON\<close>

text \<open>
  The values \<open>sanitize_json\<close> meets: Python's own, and NumPy's scalars (which convert to
  them) and arrays; dictionary keys are texts and integers.
\<close>

datatype pkey = KStr string | KInt int

datatype pyobj =
    PNone
  | PBool bool
  | PInt int
  | PFloat f64
  | PStr string
  | PPath string
  | PList "pyobj list"
  | PTuple "pyobj list"
  | PArray "pyobj list"
  | PDict "(pkey \<times> pyobj) list"

fun key_str :: "pkey \<Rightarrow> string" where
  "key_str (KStr s) = s"
| "key_str (KInt n) = int_str n"

fun sanitize_json :: "pyobj \<Rightarrow> json" where
  "sanitize_json (PDict kvs) = JObj (foldl (\<lambda>d (k, v). dict_put d (key_str k) v) [] (map (\<lambda>(k, v). (k, sanitize_json v)) kvs))"
| "sanitize_json (PList vs) = JList (map sanitize_json vs)"
| "sanitize_json (PTuple vs) = JList (map sanitize_json vs)"
| "sanitize_json (PArray vs) = JList (map sanitize_json vs)"
| "sanitize_json (PBool b) = JBool b"
| "sanitize_json (PInt n) = JInt n"
| "sanitize_json (PFloat f) = (if is_nan f \<or> is_inf f then JNull else JFloat f)"
| "sanitize_json (PPath p) = JStr p"
| "sanitize_json (PStr s) = JStr s"
| "sanitize_json PNone = JNull"

text \<open>The records of the summary as the dictionaries they stand for.\<close>

definition floats_obj :: "(string, f64) dict \<Rightarrow> pyobj" where
  "floats_obj d = PDict (map (\<lambda>(k, v). (KStr k, PFloat v)) d)"

definition hist_obj :: "(int, nat) dict \<Rightarrow> pyobj" where
  "hist_obj d = PDict (map (\<lambda>(k, v). (KInt k, PInt (int v))) d)"

definition dscp_obj :: "dscp_dist option \<Rightarrow> pyobj" where
  "dscp_obj x = (case x of
      None \<Rightarrow> PNone
    | Some d \<Rightarrow> PDict [(KStr ''dscp'', hist_obj (dscp_hist d)), (KStr ''ecn'', hist_obj (ecn_hist d)), (KStr ''tos'', hist_obj (tos_hist d)),
        (KStr ''missing'', PInt (int (tos_missing d))),
        (KStr ''dominant_dscp'', case dominant_dscp d of None \<Rightarrow> PNone | Some n \<Rightarrow> PInt n)])"

definition aggregate_obj :: "run_aggregate \<Rightarrow> pyobj" where
  "aggregate_obj a = PDict [(KStr ''stat'', PStr (agg_stat a)), (KStr ''n_runs'', PInt (int (agg_n_runs a))),
     (KStr ''per_run'', PList (map PFloat (agg_per_run a))), (KStr ''mean'', PFloat (agg_mean a)), (KStr ''std'', PFloat (agg_std a)),
     (KStr ''ci_low'', PFloat (agg_ci_low a)), (KStr ''ci_high'', PFloat (agg_ci_high a)), (KStr ''ci'', PFloat (agg_ci a))]"

definition cell_obj :: "cell_report \<Rightarrow> pyobj" where
  "cell_obj c = PDict ([(KStr ''condition'', PStr (cr_condition c)), (KStr ''runs'', PList (map PStr (cr_runs c))),
     (KStr ''n_runs'', PInt (int (cr_n_runs c))), (KStr ''n_packets'', PInt (int (cr_n_packets c))),
     (KStr ''latency_ms'', floats_obj (cr_latency_ms c)), (KStr ''jitter_us'', floats_obj (cr_jitter_us c)),
     (KStr ''loss'', floats_obj (cr_loss c)), (KStr ''dscp'', dscp_obj (cr_dscp c))]
     @ (case cr_per_run c of None \<Rightarrow> [] | Some d \<Rightarrow> [(KStr ''per_run'', PDict (map (\<lambda>(k, a). (KStr k, aggregate_obj a)) d))]))"

definition comparison_obj :: "comparison \<Rightarrow> pyobj" where
  "comparison_obj r = PDict [(KStr ''stat'', PStr (cmp_stat r)), (KStr ''percentile_method'', PStr (cmp_percentile_method r)),
     (KStr ''baseline'', floats_obj (cmp_baseline r)), (KStr ''proposed'', floats_obj (cmp_proposed r)),
     (KStr ''improvement_pct'', PFloat (improvement_pct r)), (KStr ''mann_whitney_u'', PFloat (mann_whitney_u r)),
     (KStr ''p_value'', PFloat (p_value r)), (KStr ''cliffs_delta'', PFloat (cmp_cliffs_delta r)), (KStr ''effect'', PStr (cmp_effect r)),
     (KStr ''n_baseline'', PInt (int (n_baseline r))), (KStr ''n_proposed'', PInt (int (n_proposed r)))]"

definition summary_obj :: "summary \<Rightarrow> pyobj" where
  "summary_obj s = PDict [(KStr ''results_dir'', PStr (sm_results_dir s)), (KStr ''percentile_method'', PStr (sm_percentile_method s)),
     (KStr ''baseline'', PStr (sm_baseline s)), (KStr ''conditions'', PList (map PStr (sm_conditions s))),
     (KStr ''bootstrap'', PDict [(KStr ''n_boot'', PInt (sm_n_boot s)), (KStr ''ci'', PFloat (sm_ci s)), (KStr ''seed'', PInt (sm_seed s))]),
     (KStr ''cells'', PList (map cell_obj (sm_cells s))),
     (KStr ''comparisons'', PList (map (\<lambda>e. PDict [(KStr ''condition'', PStr (ce_condition e)), (KStr ''baseline'', PStr (ce_baseline e)),
        (KStr ''metrics'', PDict (map (\<lambda>(k, r). (KStr k, comparison_obj r)) (ce_metrics e)))]) (sm_comparisons s)))]"

definition to_json :: "summary \<Rightarrow> string res" where
  "to_json s = json_dumps False (Some 2) (sanitize_json (summary_obj s))"

text \<open>
  \<open>write_json\<close>: the file written, or nothing when the text cannot be produced. That it
  creates the file's directory is among the effects of the command line.
\<close>

definition write_json :: "summary \<Rightarrow> string \<Rightarrow> (string \<times> string) res" where
  "write_json s path = res_bind (to_json s) (\<lambda>t. Inr (path, t))"

section \<open>Lemmas\<close>

lemma lres_bind_simps [simp]:
  "lres_bind None f = None" "lres_bind (Some (Inl e)) f = Some (Inl e)" "lres_bind (Some (Inr x)) f = f x"
  by (simp_all add: lres_bind_def)

lemma lres_bind_Inr: "lres_bind m f = Some (Inr y) \<longleftrightarrow> (\<exists>x. m = Some (Inr x) \<and> f x = Some (Inr y))"
  by (auto simp: lres_bind_def split: option.splits sum.splits)

lemma lres_bind_returns: "m \<noteq> None \<Longrightarrow> (\<And>x. m = Some (Inr x) \<Longrightarrow> f x \<noteq> None) \<Longrightarrow> lres_bind m f \<noteq> None"
  by (auto simp: lres_bind_def split: option.splits sum.splits)

lemma lres_mapM_Inr: "lres_mapM f xs = Some (Inr ys) \<longleftrightarrow> list_all2 (\<lambda>x y. f x = Some (Inr y)) xs ys"
  by (induction xs arbitrary: ys) (auto simp: lres_bind_Inr list_all2_Cons1)

lemma lres_mapM_returns: "(\<And>x. x \<in> set xs \<Longrightarrow> f x \<noteq> None) \<Longrightarrow> lres_mapM f xs \<noteq> None"
proof (induction xs)
  case (Cons x xs)
  then have "f x \<noteq> None" "lres_mapM f xs \<noteq> None" by simp_all
  then show ?case unfolding lres_mapM.simps by (intro lres_bind_returns) simp_all
qed simp

lemma compare_cells_returns: "compare_cells rn np sp a b n_boot ci seed method \<noteq> None"
  unfolding compare_cells_def
proof (rule lres_mapM_returns)
  fix x :: "string \<times> string \<times> string"
  obtain label attr stat where x: "x = (label, attr, stat)" by (metis prod_cases3)
  have "compare rn np sp u v (StatName stat) n_boot ci seed method \<noteq> None" for u v
    using compare_returns by (metis option.distinct(1))
  then show "(case x of (label, attr, stat) \<Rightarrow> lres_bind (Some (cell_attr a attr)) (\<lambda>u. lres_bind (Some (cell_attr b attr)) (\<lambda>v.
      lres_bind (compare rn np sp u v (StatName stat) n_boot ci seed method) (\<lambda>r. Some (Inr (label, r)))))) \<noteq> None"
    unfolding x prod.case by (intro lres_bind_returns) simp_all
qed

lemma build_summary_returns: "build_summary rn np sp dir files baseline n_boot ci seed method \<noteq> None"
  unfolding build_summary_def Let_def
  by (intro lres_bind_returns lres_mapM_returns compare_cells_returns) simp_all

lemma choose_baseline_in: "choose_baseline cs r = Inr b \<Longrightarrow> b \<in> set cs"
  by (auto simp: choose_baseline_def split: option.splits if_splits list.splits)

text \<open>Values whose numbers are Python's: binary64 floats, integers within the digit limit.\<close>

fun obj_ok :: "pyobj \<Rightarrow> bool" where
  "obj_ok (PFloat x) = f64_wf x"
| "obj_ok (PInt n) = (\<bar>n\<bar> < 10 ^ int_max_str_digits)"
| "obj_ok (PList vs) = list_all obj_ok vs"
| "obj_ok (PTuple vs) = list_all obj_ok vs"
| "obj_ok (PArray vs) = list_all obj_ok vs"
| "obj_ok (PDict kvs) = list_all (\<lambda>(k, v). obj_ok v) kvs"
| "obj_ok _ = True"

lemma set_dict_put: "set (dict_put d k v) \<subseteq> insert (k, v) (set d)"
  by (induction d) (auto simp: dict_put_def)

lemma foldl_dict_put_all:
  assumes "list_all (\<lambda>(k, v). P v) d" and "list_all (\<lambda>(k, v). P v) kvs"
  shows "list_all (\<lambda>(k, v). P v) (foldl (\<lambda>d (k, v). dict_put d (g k) v) d kvs)"
  using assms
proof (induction kvs arbitrary: d)
  case (Cons kv kvs)
  obtain k v where kv: "kv = (k, v)" by (cases kv)
  have "list_all (\<lambda>(k, v). P v) (dict_put d (g k) v)"
    using Cons.prems set_dict_put [of d "g k" v] kv by (fastforce simp: list_all_iff)
  then show ?case using Cons kv by simp
qed simp

lemma sanitize_json_ok: "obj_ok x \<Longrightarrow> json_ok (sanitize_json x)"
proof (induction x rule: sanitize_json.induct)
  case (1 kvs)
  have "list_all (\<lambda>(k, v). json_ok v) (map (\<lambda>(k, v). (k, sanitize_json v)) kvs)"
    using 1 by (fastforce simp: list_all_iff)
  then show ?case using foldl_dict_put_all [of json_ok "[]"] by simp
next
  case (7 f)
  then show ?case by (cases f) (auto simp: is_finite_def)
qed (auto simp: list_all_iff)

section \<open>Pooled counts\<close>

lemma merge_hist_get: "dict_get (merge_hist m d) k
    = (if k \<in> set (map fst d) \<or> dict_get m k \<noteq> None
       then Some (dict_get_or m k 0 + sum_list (map snd (filter (\<lambda>x. fst x = k) d))) else None)"
  using td.fold_tally [of fst snd m d k]
  by (simp add: merge_hist_def dict_get_or_def split_def image_iff cong: option.case_cong)

lemma foldl_merge_field:
  assumes "\<And>m d. f (merge_dscp m d) = merge_hist (f m) (g d)"
  shows "dict_get_or (f (foldl merge_dscp m ds)) k 0 = dict_get_or (f m) k 0 + (\<Sum>d\<leftarrow>ds. sum_list (map snd (filter (\<lambda>x. fst x = k) (g d))))"
proof (induction ds arbitrary: m)
  case (Cons d ds)
  have "dict_get_or (merge_hist (f m) (g d)) k 0 = dict_get_or (f m) k 0 + sum_list (map snd (filter (\<lambda>x. fst x = k) (g d)))"
  proof (cases "k \<in> set (map fst (g d))")
    case False
    then have "filter (\<lambda>x. fst x = k) (g d) = []" by (auto simp: filter_empty_conv)
    then show ?thesis using False by (auto simp: dict_get_or_def merge_hist_get split: option.splits)
  qed (simp add: dict_get_or_def merge_hist_get)
  then show ?case using Cons [of "merge_dscp m d"] assms [of m d] by simp
qed simp

text \<open>The TOS values of all packets of a condition that has them.\<close>

definition pooled_tos :: "Cell \<Rightarrow> int list" where
  "pooled_tos c = concat (List.map_filter run_tos (cell_runs c))"

lemma sum_hist:
  assumes "distinct us"
  shows "sum_list (map snd (filter (\<lambda>x. fst x = k) (map (\<lambda>u. (u, f u)) us))) = (if k \<in> set us then f k else (0 :: nat))"
  using assms by (induction us) (auto simp: filter_empty_conv)

lemma sum_hist_counts:
  assumes "numpy_int np"
  shows "sum_list (map snd (filter (\<lambda>x. fst x = k) (zip (fst (np_unique_counts np xs)) (snd (np_unique_counts np xs))))) = count_list xs k"
  using numpy_int.unique_distinct [OF assms, of xs]
  by (simp add: numpy_int.unique_counts_zip [OF assms] sum_hist numpy_int.unique_set [OF assms] count_list_0_iff)

lemma map_filter_option: "List.map_filter (\<lambda>r. map_option f (g r)) rs = map f (List.map_filter g rs)"
  by (induction rs) (auto simp: List.map_filter_simps split: option.splits)

definition dist_of :: "numpy \<Rightarrow> int list \<Rightarrow> dscp_dist" where
  "dist_of np arr = the (dscp_distribution np (Some arr))"

lemma dscp_distribution_map: "dscp_distribution np t = map_option (dist_of np) t"
  by (cases t) (simp_all add: dist_of_def dscp_distribution_def Let_def split_def)

lemma dist_of_sums:
  assumes "numpy_int np"
  defines "valid \<equiv> filter (\<lambda>t. 0 \<le> (t :: int))"
  shows "sum_list (map snd (filter (\<lambda>x. fst x = k) (dscp_hist (dist_of np arr)))) = count_list (map (drop_bit 2) (valid arr)) k"
    and "sum_list (map snd (filter (\<lambda>x. fst x = k) (ecn_hist (dist_of np arr)))) = count_list (map (\<lambda>t. t AND 3) (valid arr)) k"
    and "sum_list (map snd (filter (\<lambda>x. fst x = k) (tos_hist (dist_of np arr)))) = count_list (valid arr) k"
    and "tos_missing (dist_of np arr) = length arr - length (valid arr)"
  by (simp_all add: dist_of_def dscp_distribution_def Let_def split_def sum_hist_counts [OF assms(1)] valid_def)

lemma count_list_concat: "count_list (concat xss) k = (\<Sum>xs\<leftarrow>xss. count_list xs k)"
  by (induction xss) simp_all

lemma foldl_merge_missing: "tos_missing (foldl merge_dscp m ds) = tos_missing m + (\<Sum>d\<leftarrow>ds. tos_missing d)"
  by (induction ds arbitrary: m) (simp_all add: merge_dscp_def)

lemma distinct_merge_hist: "distinct (dict_keys m) \<Longrightarrow> distinct (dict_keys (merge_hist m d))"
  using od.keys_fold_put [of m fst "\<lambda>m x. dict_get_or m (fst x) 0 + snd x" d] by (simp add: merge_hist_def split_def)

lemma distinct_foldl_merge: "distinct (dict_keys (dscp_hist m)) \<Longrightarrow> distinct (dict_keys (dscp_hist (foldl merge_dscp m ds)))"
  by (induction ds arbitrary: m) (simp_all add: merge_dscp_def distinct_merge_hist)

text \<open>The first key with the greatest value.\<close>

lemma max_key_greatest:
  assumes "distinct (dict_keys d)" and "max_key d = Some k"
  shows "k \<in> set (dict_keys d) \<and> (\<forall>k'. dict_get_or d k' 0 \<le> dict_get_or d k 0)"
proof -
  let ?step = "\<lambda>(bk, bv) (k, v). if bv < v then (k, v) else (bk, bv :: nat)"
  have fold: "foldl ?step b ds \<in> insert b (set ds) \<and> (\<forall>x \<in> insert b (set ds). snd x \<le> snd (foldl ?step b ds))"
    for b :: "int \<times> nat" and ds
  proof (induction ds arbitrary: b)
    case (Cons x ds)
    define b' where "b' = ?step b x"
    have "b' \<in> {b, x}" "snd b \<le> snd b'" "snd x \<le> snd b'" by (cases b; cases x; simp add: b'_def)+
    moreover have "foldl ?step b (x # ds) = foldl ?step b' ds" by (simp add: b'_def)
    moreover have "foldl ?step b' ds \<in> insert b' (set ds) \<and> (\<forall>y \<in> insert b' (set ds). snd y \<le> snd (foldl ?step b' ds))"
      by (rule Cons.IH)
    ultimately show ?case by (simp only:) (auto intro: order_trans)
  qed simp
  obtain b ds where d: "d = b # ds" and k: "fst (foldl ?step b ds) = k" using assms(2) by (cases d) auto
  let ?r = "foldl ?step b ds"
  have get: "dict_get d (fst x) = Some (snd x)" if "x \<in> set d" for x
    using that assms(1) by (simp add: dict_get_def dict_keys_def map_of_eq_Some_iff)
  have r: "?r \<in> set d" "\<And>x. x \<in> set d \<Longrightarrow> snd x \<le> snd ?r" using fold [of b ds] d by auto
  have "dict_get_or d k' 0 \<le> dict_get_or d k 0" for k'
  proof (cases "dict_get d k'")
    case (Some v)
    then have "(k', v) \<in> set d" by (simp add: dict_get_def map_of_SomeD)
    then show ?thesis using r(2) get [OF r(1)] Some k by (auto simp: dict_get_or_def)
  qed (simp add: dict_get_or_def)
  then show ?thesis using r(1) k by (force simp: dict_keys_def)
qed

section \<open>Pooled loss\<close>

lemma f_add_of_int:
  assumes "\<bar>a\<bar> \<le> 2 ^ 53" "\<bar>b\<bar> \<le> 2 ^ 53"
  shows "f_add (f_of_int a) (f_of_int b) = f_of_int (a + b)"
  using assms by (simp add: f_of_int_exact [OF assms(1)] f_of_int_exact [OF assms(2)] f_add_def) (simp add: f_of_int_def)

lemma foldl_f_add:
  assumes "\<forall>x \<in> set xs. 0 \<le> x" and "0 \<le> a" and "a + sum_list xs \<le> 2 ^ 53"
  shows "foldl f_add (f_of_int a) (map f_of_int xs) = f_of_int (a + sum_list xs)"
  using assms
proof (induction xs arbitrary: a)
  case (Cons x xs)
  have s: "0 \<le> sum_list xs" using Cons.prems(1) by (intro sum_list_nonneg) simp
  then have "f_add (f_of_int a) (f_of_int x) = f_of_int (a + x)" using Cons.prems by (intro f_add_of_int) simp_all
  then show ?case using Cons s by (simp add: add.assoc)
qed simp

text \<open>The loss figures of one run as integers.\<close>

definition loss_figures :: "(string \<times> (int list \<Rightarrow> int)) list" where
  "loss_figures = [(''expected'', \<lambda>arr. Max (set arr) + 1), (''received'', \<lambda>arr. int (length arr)),
     (''unique'', \<lambda>arr. int (card (set arr))), (''lost'', \<lambda>arr. int (card ({0..Max (set arr)} - set arr))),
     (''duplicates'', \<lambda>arr. int (length arr - card (set arr))), (''reorders'', \<lambda>arr. int (late_arrivals arr))]"

lemma loss_figures_values:
  assumes "numpy_int np" and "arr \<noteq> []" and "list_all (\<lambda>s. 0 \<le> s) arr" and "(k, f) \<in> set loss_figures"
  shows "dict_item (loss_summary np arr) k = Inr (f_of_int (f arr)) \<and> 0 \<le> f arr \<and> f arr \<le> max (Max (set arr) + 1) (int (length arr))"
proof -
  note v = loss_summary_values [OF assms(1,2)] and m = missing_numbers_card [OF assms(2,3)]
  have "Max (set arr) \<in> set arr" using assms(2) by simp
  then have "0 \<le> Max (set arr)" using assms(3) by (simp add: list_all_iff)
  moreover have "late_arrivals arr \<le> length arr"
    unfolding late_arrivals_def by (rule order_trans [OF card_mono [of "{..<length arr}"]]) auto
  moreover have "int (length arr) - int (card (set arr)) = int (length arr - card (set arr))"
    using card_set_le_length [of arr] by simp
  ultimately show ?thesis using assms(4) v m card_set_le_length [of arr]
    by (auto simp: loss_figures_def dict_item_def)
qed

definition loss_figure :: "(int list \<Rightarrow> int) \<Rightarrow> int list \<Rightarrow> int" where
  "loss_figure f arr = (if arr = [] then 0 else f arr)"

lemma loss_figures_keys: "map fst loss_figures = [''expected'', ''received'', ''unique'', ''lost'', ''duplicates'', ''reorders'']"
  by (simp add: loss_figures_def)

lemma distinct_loss_figures:
  assumes "(k, f) \<in> set loss_figures"
  shows "map_of loss_figures k = Some f"
proof (rule map_of_is_SomeI [OF _ assms])
  show "distinct (map fst loss_figures)" by (simp add: loss_figures_keys)
qed

lemma loss_figure_values:
  assumes "numpy_int np" and "list_all (\<lambda>s. 0 \<le> s) arr" and "(k, f) \<in> set loss_figures"
  shows "dict_item (loss_summary np arr) k = Inr (f_of_int (loss_figure f arr)) \<and> 0 \<le> loss_figure f arr
    \<and> loss_figure f arr \<le> loss_figure (\<lambda>arr. max (Max (set arr) + 1) (int (length arr))) arr"
proof (cases "arr = []")
  case True
  have "k \<in> set (map fst loss_figures)" using assms(3) by force
  then show ?thesis unfolding loss_figures_keys True
    by (auto simp: loss_figure_def dict_item_def loss_summary_def f_of_int_exact [of 0])
next
  case False
  then show ?thesis using loss_figures_values [OF assms(1) False assms(2,3)] by (simp add: loss_figure_def)
qed

section \<open>What the tables look up\<close>

definition summary_keys :: "string list" where
  "summary_keys = [''n'', ''min'', ''p50'', ''p90'', ''p99'', ''p99.9'', ''max'', ''mean'', ''std'']"

lemma distribution_summary_keys:
  assumes "distribution_summary np sp vs LATENCY_PERCENTILES method = Inr d"
  shows "dict_keys d = summary_keys"
proof (cases "vs = []")
  case True
  then have "d = map (\<lambda>k. (k, if k = ''n'' then f_of_int 0 else NaN)) summary_keys"
    using assms pct_labels
    by (simp add: distribution_summary_def LATENCY_PERCENTILES_def dict_put_def summary_keys_def Let_def)
  then show ?thesis by (simp add: dict_keys_def comp_def)
next
  case False
  then obtain pcts where p: "percentiles np vs LATENCY_PERCENTILES method = Inr pcts"
    using assms by (auto simp: distribution_summary_def res_bind_Inr_conv Let_def)
  then have "length pcts = length LATENCY_PERCENTILES" using False by (auto simp: percentiles_def dest: res_mapM_length)
  then have "length pcts = 4" by (simp add: LATENCY_PERCENTILES_def)
  then obtain a b c e where "pcts = [a, b, c, e]" by (auto simp: length_Suc_conv numeral_eq_Suc)
  then have "d = [(''n'', f_of_int (int (length vs))), (''min'', np_fmin np vs), (''p50'', a), (''p90'', b), (''p99'', c), (''p99.9'', e),
      (''max'', np_fmax np vs), (''mean'', np_mean sp vs), (''std'', if 1 < length vs then np_std1 sp vs else NaN)]"
    using assms False p pct_labels
    by (simp add: distribution_summary_def LATENCY_PERCENTILES_def dict_put_def Let_def)
  then show ?thesis by (simp add: dict_keys_def summary_keys_def)
qed

lemma distribution_summary_returns:
  assumes "\<And>q. q \<in> set qs \<Longrightarrow> \<exists>p. np_percentile np vs q method = Inr p"
  shows "\<exists>d. distribution_summary np sp vs qs method = Inr d"
proof -
  have "\<exists>ps. res_mapM (\<lambda>q. np_percentile np vs q method) qs = Inr ps" by (rule res_mapM_total) (rule assms)
  then have "\<exists>ps. percentiles np vs qs method = Inr ps" by (simp add: percentiles_def)
  then show ?thesis by (auto simp: distribution_summary_def Let_def)
qed

lemma aggregate_loss_returns: "\<exists>d. aggregate_loss np c = Inr d"
proof -
  let ?ks = "[''expected'', ''received'', ''unique'', ''lost'', ''duplicates'', ''reorders'']"
  have item: "dict_item (loss_summary np arr) k = Inr (the (dict_get (loss_summary np arr) k))" if "k \<in> set ?ks" for arr k
    using that by (auto simp: dict_item_def loss_summary_def Let_def)
  have "res_mapM (\<lambda>d. dict_item d k) (map (\<lambda>r. loss_summary np (run_seq r)) (cell_runs c))
      = Inr (map (\<lambda>r. the (dict_get (loss_summary np (run_seq r)) k)) (cell_runs c))" if "k \<in> set ?ks" for k
    by (rule res_mapM_map_map) (rule item [OF that])
  then show ?thesis by (simp add: aggregate_loss_def Let_def dict_item_def)
qed

lemma dict_item_key: "k \<in> set (dict_keys d) \<Longrightarrow> \<exists>v. dict_item d k = Inr v"
  using od.keys_dom [of d] by (auto simp: dict_item_def split: option.splits)

lemma fmt_cols_keys:
  assumes "dict_keys d = summary_keys"
  shows "\<exists>xs. fmt_cols d = Inr xs \<and> length xs = 7"
proof -
  have "\<exists>xs. fmt_cols d = Inr xs" unfolding fmt_cols_def
  proof (rule res_mapM_total)
    fix k
    assume "k \<in> set table_cols"
    then have "k \<in> set (dict_keys d)" using assms by (auto simp: table_cols_def summary_keys_def)
    from dict_item_key [OF this] show "\<exists>y. res_bind (dict_item d k) (\<lambda>x. Inr (fmt2 x)) = Inr y" by auto
  qed
  then obtain xs where xs: "fmt_cols d = Inr xs" by blast
  then have "length xs = length table_cols" unfolding fmt_cols_def by (rule res_mapM_length)
  then show ?thesis using xs by (simp add: table_cols_def)
qed

lemma aggregate_loss_keys:
  assumes "aggregate_loss np c = Inr d"
  shows "dict_keys d = [''expected'', ''received'', ''unique'', ''lost'', ''duplicates'', ''reorders'', ''loss_pct'']"
proof -
  obtain total x where t: "res_mapM (\<lambda>k. res_bind (res_mapM (\<lambda>d. dict_item d k) (map (\<lambda>r. loss_summary np (run_seq r)) (cell_runs c))) (\<lambda>vs. Inr (k, foldl f_add (Num 0) vs)))
      [''expected'', ''received'', ''unique'', ''lost'', ''duplicates'', ''reorders''] = Inr total"
    and d: "d = dict_put total ''loss_pct'' x"
    using assms by (auto simp: aggregate_loss_def res_bind_Inr_conv Let_def simp del: res_mapM.simps)
  have "dict_keys total = [''expected'', ''received'', ''unique'', ''lost'', ''duplicates'', ''reorders'']"
    using t by (auto simp: res_mapM_Inr_iff list_all2_Cons1 res_bind_Inr_conv dict_keys_def)
  then show ?thesis using d by (simp add: od.keys_put)
qed

lemma loss_row_keys:
  assumes "dict_keys (cr_loss c) = [''expected'', ''received'', ''unique'', ''lost'', ''duplicates'', ''reorders'', ''loss_pct'']"
  shows "\<exists>xs. loss_row c = Inr xs \<and> length xs = 8"
proof -
  let ?ks = "[(''expected'', 0), (''received'', 0), (''lost'', 0), (''loss_pct'', 2), (''duplicates'', 0), (''reorders'', 0)] :: (string \<times> nat) list"
  have "\<exists>xs. res_mapM (\<lambda>(k, digits). res_bind (dict_item (cr_loss c) k) (\<lambda>x. Inr (fmt (FmtFloat x) digits))) ?ks = Inr xs"
  proof (rule res_mapM_total)
    fix x
    assume "x \<in> set ?ks"
    then have "fst x \<in> set (dict_keys (cr_loss c))" using assms by auto
    from dict_item_key [OF this] show "\<exists>y. (case x of (k, digits) \<Rightarrow> res_bind (dict_item (cr_loss c) k) (\<lambda>x. Inr (fmt (FmtFloat x) digits))) = Inr y"
      by (auto simp: split_def)
  qed
  then obtain xs where "res_mapM (\<lambda>(k, digits). res_bind (dict_item (cr_loss c) k) (\<lambda>x. Inr (fmt (FmtFloat x) digits))) ?ks = Inr xs" by blast
  moreover from res_mapM_length [OF this] have "length xs = 6" by simp
  ultimately show ?thesis by (simp add: loss_row_def del: res_mapM.simps)
qed

lemma as_dict_keys: "as_dict b = Inr d \<Longrightarrow> dict_keys d = [''point'', ''low'', ''high'', ''ci'', ''n_boot'']"
  by (auto simp: as_dict_def res_bind_Inr_conv dict_keys_def)

lemma compare_dicts:
  assumes "compare rn np sp a b stat n_boot ci seed method = Some (Inr r)"
  shows "dict_keys (cmp_baseline r) = [''point'', ''low'', ''high'', ''ci'', ''n_boot'']"
    and "dict_keys (cmp_proposed r) = [''point'', ''low'', ''high'', ''ci'', ''n_boot'']"
  using assms as_dict_keys
  by (auto simp: compare_def Let_def split_def res_bind_Inr_conv split: option.splits sum.splits)

lemma fmt_interval_keys:
  assumes "dict_keys d = [''point'', ''low'', ''high'', ''ci'', ''n_boot'']"
  shows "\<exists>t. fmt_interval d = Inr t"
  using dict_item_key [of "''point''" d] dict_item_key [of "''low''" d] dict_item_key [of "''high''" d] assms
  by (auto simp: fmt_interval_def)

text \<open>A report whose dictionaries have the keys the tables look up.\<close>

definition cell_report_ok :: "cell_report \<Rightarrow> bool" where
  "cell_report_ok c \<longleftrightarrow> dict_keys (cr_latency_ms c) = summary_keys \<and> dict_keys (cr_jitter_us c) = summary_keys
     \<and> dict_keys (cr_loss c) = [''expected'', ''received'', ''unique'', ''lost'', ''duplicates'', ''reorders'', ''loss_pct'']"

definition cmp_entry_ok :: "cmp_entry \<Rightarrow> bool" where
  "cmp_entry_ok e \<longleftrightarrow> dict_keys (ce_metrics e) = map fst COMPARISON_METRICS
     \<and> (\<forall>(l, r) \<in> set (ce_metrics e). dict_keys (cmp_baseline r) = [''point'', ''low'', ''high'', ''ci'', ''n_boot'']
          \<and> dict_keys (cmp_proposed r) = [''point'', ''low'', ''high'', ''ci'', ''n_boot''])"

lemma cell_summary_ok:
  assumes "cell_summary np sp c method ci = Inr r"
  shows "cell_report_ok r \<and> cr_condition r = cell_condition c \<and> cr_runs r = map run_name (cell_runs c) \<and> cr_n_runs r = length (cell_runs c)
    \<and> cr_n_packets r = length (concat (map latency_ms (cell_runs c)))
    \<and> (cr_per_run r = None \<longleftrightarrow> length (cell_runs c) \<le> 1)"
  using assms distribution_summary_keys aggregate_loss_keys
  by (auto simp: cell_summary_def res_bind_Inr_conv Let_def cell_report_ok_def latency_summary_def n_runs_def cell_latency_ms_def
      np_concatenate_def split: if_splits)

lemma compare_cells_ok:
  assumes "compare_cells rn np sp a b n_boot ci seed method = Some (Inr ms)"
  shows "cmp_entry_ok \<lparr>ce_condition = c, ce_baseline = b0, ce_metrics = ms\<rparr>"
proof -
  have l: "list_all2 (\<lambda>x m. fst m = fst x \<and> dict_keys (cmp_baseline (snd m)) = [''point'', ''low'', ''high'', ''ci'', ''n_boot'']
      \<and> dict_keys (cmp_proposed (snd m)) = [''point'', ''low'', ''high'', ''ci'', ''n_boot'']) COMPARISON_METRICS ms"
    using assms unfolding compare_cells_def lres_mapM_Inr
    by (rule list_all2_mono) (auto simp: lres_bind_Inr compare_dicts split: prod.splits)
  then have "dict_keys ms = map fst COMPARISON_METRICS"
    by (auto simp: dict_keys_def list_all2_conv_all_nth intro!: nth_equalityI)
  moreover have "\<forall>m \<in> set ms. dict_keys (cmp_baseline (snd m)) = [''point'', ''low'', ''high'', ''ci'', ''n_boot'']
      \<and> dict_keys (cmp_proposed (snd m)) = [''point'', ''low'', ''high'', ''ci'', ''n_boot'']"
  proof
    fix m
    assume "m \<in> set ms"
    then obtain i where "i < length ms" "ms ! i = m" by (auto simp: in_set_conv_nth)
    then show "dict_keys (cmp_baseline (snd m)) = [''point'', ''low'', ''high'', ''ci'', ''n_boot'']
      \<and> dict_keys (cmp_proposed (snd m)) = [''point'', ''low'', ''high'', ''ci'', ''n_boot'']"
      using l by (auto simp: list_all2_conv_all_nth)
  qed
  ultimately show ?thesis by (auto simp: cmp_entry_ok_def)
qed

lemma cmp_rows_ok:
  assumes "cmp_entry_ok e"
  shows "\<exists>rows. cmp_rows e = Inr rows \<and> length rows = 3 \<and> (\<forall>r \<in> set rows. length r = 7)"
proof -
  let ?f = "\<lambda>(label, r). res_bind (fmt_interval (cmp_baseline r)) (\<lambda>b. res_bind (fmt_interval (cmp_proposed r)) (\<lambda>p.
      Inr [ce_condition e, label, b, p, fmt_signed (improvement_pct r) @ ''%'', fmt_p (p_value r),
           fmt_signed (cmp_cliffs_delta r) @ '' ('' @ cmp_effect r @ '')'']))"
  have row: "\<exists>y. ?f x = Inr y \<and> length y = 7" if x_in: "x \<in> set (ce_metrics e)" for x
  proof -
    obtain l r where x: "x = (l, r)" by (cases x)
    have "dict_keys (cmp_baseline r) = [''point'', ''low'', ''high'', ''ci'', ''n_boot'']"
      "dict_keys (cmp_proposed r) = [''point'', ''low'', ''high'', ''ci'', ''n_boot'']"
      using assms x_in x by (auto simp: cmp_entry_ok_def)
    then obtain t u where "fmt_interval (cmp_baseline r) = Inr t" "fmt_interval (cmp_proposed r) = Inr u"
      using fmt_interval_keys by metis
    then show ?thesis using x by simp
  qed
  then obtain rows where rows: "res_mapM ?f (ce_metrics e) = Inr rows" using res_mapM_total [of "ce_metrics e" ?f] by blast
  moreover have "length rows = 3"
  proof -
    have "map fst (ce_metrics e) = map fst COMPARISON_METRICS" using assms by (simp add: cmp_entry_ok_def dict_keys_def)
    then have "length (ce_metrics e) = length COMPARISON_METRICS" by (metis length_map)
    then show ?thesis using res_mapM_length [OF rows] by (simp add: COMPARISON_METRICS_def)
  qed
  moreover have "length r = 7" if "r \<in> set rows" for r
  proof -
    from that obtain i where i: "i < length rows" "rows ! i = r" by (auto simp: in_set_conv_nth)
    then have "?f (ce_metrics e ! i) = Inr r" "ce_metrics e ! i \<in> set (ce_metrics e)"
      using rows by (auto simp: res_mapM_Inr_iff list_all2_conv_all_nth)
    with row [of "ce_metrics e ! i"] show ?thesis by auto
  qed
  ultimately show ?thesis by (simp add: cmp_rows_def)
qed

lemma build_summary_parts:
  assumes "build_summary rn np sp dir files baseline n_boot ci seed method = Some (Inr s)"
  obtains cells base where "build_dataset files = Inr cells" "choose_baseline (dict_keys cells) baseline = Inr base"
    and "sm_baseline s = base" "sm_conditions s = dict_keys cells" "sm_results_dir s = dir" "sm_percentile_method s = method"
    and "list_all2 (\<lambda>c r. \<exists>x. dict_get cells c = Some x \<and> cell_summary np sp x method ci = Inr r) (dict_keys cells) (sm_cells s)"
    and "list_all2 (\<lambda>c e. ce_condition e = c \<and> ce_baseline e = base \<and> cmp_entry_ok e
       \<and> (\<exists>b x. dict_get cells base = Some b \<and> dict_get cells c = Some x
            \<and> compare_cells rn np sp b x n_boot ci seed method = Some (Inr (ce_metrics e))))
      (filter (\<lambda>c. c \<noteq> base) (dict_keys cells)) (sm_comparisons s)"
proof -
  let ?cmp = "\<lambda>cells base c. lres_bind (Some (cell_of cells base)) (\<lambda>b. lres_bind (Some (cell_of cells c)) (\<lambda>other.
         lres_bind (compare_cells rn np sp b other n_boot ci seed method) (\<lambda>ms.
         Some (Inr \<lparr>ce_condition = c, ce_baseline = base, ce_metrics = ms\<rparr>))))"
  from assms obtain cells base reports cmps where c: "build_dataset files = Inr cells" "choose_baseline (dict_keys cells) baseline = Inr base"
    and r: "res_mapM (\<lambda>c. res_bind (cell_of cells c) (\<lambda>cell. cell_summary np sp cell method ci)) (dict_keys cells) = Inr reports"
    and m: "lres_mapM (?cmp cells base) (filter (\<lambda>c. c \<noteq> base) (dict_keys cells)) = Some (Inr cmps)"
    and s: "s = \<lparr>sm_results_dir = dir, sm_percentile_method = method, sm_baseline = base, sm_conditions = dict_keys cells,
       sm_n_boot = n_boot, sm_ci = ci, sm_seed = seed, sm_cells = reports, sm_comparisons = cmps\<rparr>"
    unfolding build_summary_def Let_def lres_bind_Inr by auto
  have item: "cell_of cells c = Inr x \<longleftrightarrow> dict_get cells c = Some x" for c x
    by (auto simp: cell_of_def dict_item_def split: option.splits)
  have "list_all2 (\<lambda>c r. \<exists>x. dict_get cells c = Some x \<and> cell_summary np sp x method ci = Inr r) (dict_keys cells) reports"
    using r unfolding res_mapM_Inr_iff by (rule list_all2_mono) (auto simp: res_bind_Inr_conv item)
  moreover have "list_all2 (\<lambda>c e. ce_condition e = c \<and> ce_baseline e = base \<and> cmp_entry_ok e
       \<and> (\<exists>b x. dict_get cells base = Some b \<and> dict_get cells c = Some x
            \<and> compare_cells rn np sp b x n_boot ci seed method = Some (Inr (ce_metrics e))))
      (filter (\<lambda>c. c \<noteq> base) (dict_keys cells)) cmps"
    using m unfolding lres_mapM_Inr by (rule list_all2_mono) (auto simp: lres_bind_Inr item compare_cells_ok)
  ultimately show thesis using that c s by simp
qed

lemma list_all2_right: "list_all2 R xs ys \<Longrightarrow> (\<And>x y. R x y \<Longrightarrow> P y) \<Longrightarrow> list_all P ys"
  by (induction rule: list_all2_induct) auto

lemma summary_reports_ok:
  assumes "build_summary rn np sp dir files baseline n_boot ci seed method = Some (Inr s)"
  shows "list_all cell_report_ok (sm_cells s)" "list_all cmp_entry_ok (sm_comparisons s)"
proof -
  from build_summary_parts [OF assms] obtain cells base where
    r: "list_all2 (\<lambda>c r. \<exists>x. dict_get cells c = Some x \<and> cell_summary np sp x method ci = Inr r) (dict_keys cells) (sm_cells s)"
    and m: "list_all2 (\<lambda>c e. ce_condition e = c \<and> ce_baseline e = base \<and> cmp_entry_ok e
       \<and> (\<exists>b x. dict_get cells base = Some b \<and> dict_get cells c = Some x
            \<and> compare_cells rn np sp b x n_boot ci seed method = Some (Inr (ce_metrics e))))
      (filter (\<lambda>c. c \<noteq> base) (dict_keys cells)) (sm_comparisons s)" .
  from r show "list_all cell_report_ok (sm_cells s)" by (rule list_all2_right) (use cell_summary_ok in blast)
  from m show "list_all cmp_entry_ok (sm_comparisons s)" by (rule list_all2_right) blast
qed

lemma res_mapM_rows:
  assumes "\<And>x. x \<in> set xs \<Longrightarrow> \<exists>r. f x = Inr r \<and> P r"
  shows "\<exists>rs. res_mapM f xs = Inr rs \<and> length rs = length xs \<and> (\<forall>r \<in> set rs. P r)"
  using assms
proof (induction xs)
  case (Cons x xs)
  obtain r where "f x = Inr r" "P r" using Cons.prems by fastforce
  moreover obtain rs where "res_mapM f xs = Inr rs" "length rs = length xs" "\<forall>r \<in> set rs. P r" using Cons by fastforce
  ultimately show ?case by simp
qed simp

lemma map_all2: "list_all2 (\<lambda>x y. f y = x) xs ys \<Longrightarrow> map f ys = xs"
  by (induction rule: list_all2_induct) auto

lemma summary_cells:
  assumes "build_summary rn np sp dir files baseline n_boot ci seed method = Some (Inr s)" and "build_dataset files = Inr cells"
  shows "list_all2 (\<lambda>kx r. cr_condition r = fst kx \<and> cr_runs r = map run_name (cell_runs (snd kx)) \<and> cr_n_runs r = length (cell_runs (snd kx))
      \<and> cr_n_packets r = length (concat (map latency_ms (cell_runs (snd kx)))) \<and> (cr_per_run r = None \<longleftrightarrow> cr_n_runs r \<le> 1)) cells (sm_cells s)"
proof -
  from build_summary_parts [OF assms(1)] obtain ds where "build_dataset files = Inr ds"
    and "list_all2 (\<lambda>c r. \<exists>x. dict_get ds c = Some x \<and> cell_summary np sp x method ci = Inr r) (dict_keys ds) (sm_cells s)" .
  then have r: "list_all2 (\<lambda>c r. \<exists>x. dict_get cells c = Some x \<and> cell_summary np sp x method ci = Inr r) (dict_keys cells) (sm_cells s)"
    using assms(2) by simp
  note wf = build_dataset_wf [OF assms(2)]
  have get: "dict_get cells k = Some x" if "(k, x) \<in> set cells" for k x
    using that wf by (simp add: dict_get_def dict_keys_def map_of_eq_Some_iff)
  have "list_all2 (\<lambda>kx r. \<exists>x. dict_get cells (fst kx) = Some x \<and> cell_summary np sp x method ci = Inr r) cells (sm_cells s)"
    using r by (simp add: dict_keys_def list_all2_map1)
  then have "list_all2 (\<lambda>kx r. cell_summary np sp (snd kx) method ci = Inr r) cells (sm_cells s)"
    by (rule list_all2_mono_set) (use get in fastforce)
  then show ?thesis by (rule list_all2_mono_set) (use cell_summary_ok wf in fastforce)
qed

lemma summary_rows:
  assumes "build_summary rn np sp dir files baseline n_boot ci seed method = Some (Inr s)"
  obtains lat jit loss cmps where
    "res_mapM latency_row (sm_cells s) = Inr lat" "length lat = length (sm_cells s)" "\<forall>r \<in> set lat. length r = 10"
    "res_mapM jitter_row (sm_cells s) = Inr jit" "length jit = length (sm_cells s)" "\<forall>r \<in> set jit. length r = 8"
    "res_mapM loss_row (sm_cells s) = Inr loss" "length loss = length (sm_cells s)" "\<forall>r \<in> set loss. length r = 8"
    "res_mapM cmp_rows (sm_comparisons s) = Inr cmps" "length cmps = length (sm_comparisons s)"
    "\<forall>rs \<in> set cmps. length rs = 3 \<and> (\<forall>r \<in> set rs. length r = 7)"
proof -
  note ok = summary_reports_ok [OF assms]
  have cells: "\<exists>r. latency_row c = Inr r \<and> length r = 10" "\<exists>r. jitter_row c = Inr r \<and> length r = 8" "\<exists>r. loss_row c = Inr r \<and> length r = 8"
    if "c \<in> set (sm_cells s)" for c
    using ok(1) that fmt_cols_keys [of "cr_latency_ms c"] fmt_cols_keys [of "cr_jitter_us c"] loss_row_keys [of c]
    by (auto simp: list_all_iff cell_report_ok_def latency_row_def jitter_row_def)
  have cmps: "\<exists>rs. cmp_rows e = Inr rs \<and> length rs = 3 \<and> (\<forall>r \<in> set rs. length r = 7)" if "e \<in> set (sm_comparisons s)" for e
    using ok(2) cmp_rows_ok that by (auto simp: list_all_iff)
  show thesis
    using that res_mapM_rows [of "sm_cells s" latency_row "\<lambda>r. length r = 10", OF cells(1)]
      res_mapM_rows [of "sm_cells s" jitter_row "\<lambda>r. length r = 8", OF cells(2)]
      res_mapM_rows [of "sm_cells s" loss_row "\<lambda>r. length r = 8", OF cells(3)]
      res_mapM_rows [of "sm_comparisons s" cmp_rows "\<lambda>rs. length rs = 3 \<and> (\<forall>r \<in> set rs. length r = 7)", OF cmps] by blast
qed

lemma render_markdown_total:
  assumes "build_summary rn np sp dir files baseline n_boot ci seed method = Some (Inr s)"
  shows "\<exists>ls. markdown_lines s = Inr ls \<and> render_markdown s = Inr (join [CHR 0x0A] ls)"
proof -
  obtain lat jit loss cmps where "res_mapM latency_row (sm_cells s) = Inr lat" "res_mapM jitter_row (sm_cells s) = Inr jit"
    "res_mapM loss_row (sm_cells s) = Inr loss" "res_mapM cmp_rows (sm_comparisons s) = Inr cmps" by (rule summary_rows [OF assms])
  then obtain ls where "markdown_lines s = Inr ls" by (simp add: markdown_lines_def Let_def)
  then show ?thesis by (simp add: render_markdown_def)
qed

text \<open>The tables among the lines, and the condition each row starts with.\<close>

lemma markdown_tables:
  assumes "res_mapM latency_row (sm_cells s) = Inr lat" and "res_mapM jitter_row (sm_cells s) = Inr jit"
    and "res_mapM loss_row (sm_cells s) = Inr loss" and "res_mapM cmp_rows (sm_comparisons s) = Inr cmps"
    and "markdown_lines s = Inr ls"
  shows "\<exists>t1 t2 t3 t4 t5. ls = t1 @ table ([''condition'', ''runs'', ''n''] @ table_cols) lat @ t2 @ table (''condition'' # table_cols) jit
      @ t3 @ table [''condition'', ''expected'', ''received'', ''lost'', ''loss %'', ''dup'', ''reorder'', ''DSCP''] loss
      @ (if concat (map per_run_rows (sm_cells s)) = [] then []
         else t4 @ table [''condition'', ''metric'', ''runs'', ''mean'', ''std'', ''CI''] (concat (map per_run_rows (sm_cells s))))
      @ t5 @ table [''condition'', ''metric'', ''baseline [CI]'', ''condition [CI]'', ''improvement'', ''p-value'', ''delta''] (concat cmps)"
proof -
  have if_swap: "(if x \<noteq> [] then a @ b else []) = (if x = [] then [] else a @ b)" for x :: "string list list" and a b :: "string list"
    by simp
  note lines = assms(5) [unfolded markdown_lines_def assms(1-4) res_bind_simps Let_def sum.inject if_swap]
  have "\<exists>t1 t2 t3 t4 t5. (markdown_head s @ a) @ p @ t2' @ q @ t3' @ r @ (if x = [] then [] else t4' @ u) @ t5' @ v
      = t1 @ p @ t2 @ q @ t3 @ r @ (if x = [] then [] else t4 @ u) @ t5 @ v"
    for a p t2' q t3' r t4' u t5' v and x :: "string list list" by blast
  then show ?thesis unfolding lines [symmetric] append_assoc by blast
qed

lemma res_mapM_heads:
  assumes "res_mapM f xs = Inr ys" and "\<And>x y. f x = Inr y \<Longrightarrow> h y = g x"
  shows "map h ys = map g xs"
  using assms(1)
proof (induction xs arbitrary: ys)
  case (Cons x xs)
  then show ?case using assms(2) by (auto simp: res_bind_Inr_conv)
qed simp

lemma row_heads:
  assumes "res_mapM latency_row cells = Inr lat" and "res_mapM jitter_row cells = Inr jit" and "res_mapM loss_row cells = Inr loss"
  shows "map hd lat = map cr_condition cells" and "map hd jit = map cr_condition cells" and "map hd loss = map cr_condition cells"
  by (rule res_mapM_heads [OF assms(1)] res_mapM_heads [OF assms(2)] res_mapM_heads [OF assms(3)],
      auto simp: latency_row_def jitter_row_def loss_row_def res_bind_Inr_conv Let_def)+

section \<open>Properties\<close>

text \<open>
  Property C32. Building a summary always returns. When it succeeds it lists the conditions of the
  data set in its order, one report per condition in that order with the names of its runs (in
  their order) and the numbers of its runs and packets (per-run statistics exactly when there is more than one run), and compares
  every condition but the baseline, in order, on the three metrics; the baseline is the requested
  condition, or the first one.
\<close>

theorem build_summary_complete:
  "build_summary rn np sp dir files baseline n_boot ci seed method \<noteq> None
   \<and> (\<forall>s. build_summary rn np sp dir files baseline n_boot ci seed method = Some (Inr s) \<longrightarrow>
       (\<exists>cells. build_dataset files = Inr cells \<and> sm_conditions s = dict_keys cells
         \<and> sm_baseline s = (case baseline of Some b \<Rightarrow> b | None \<Rightarrow> hd (dict_keys cells)) \<and> sm_baseline s \<in> set (dict_keys cells)
         \<and> map cr_condition (sm_cells s) = dict_keys cells
         \<and> map cr_runs (sm_cells s) = map (\<lambda>(c, x). map run_name (cell_runs x)) cells
         \<and> map cr_n_runs (sm_cells s) = map (\<lambda>(c, x). length (cell_runs x)) cells
         \<and> map cr_n_packets (sm_cells s) = map (\<lambda>(c, x). length (concat (map latency_ms (cell_runs x)))) cells
         \<and> (\<forall>r \<in> set (sm_cells s). cr_per_run r = None \<longleftrightarrow> cr_n_runs r \<le> 1)
         \<and> map ce_condition (sm_comparisons s) = filter (\<lambda>c. c \<noteq> sm_baseline s) (dict_keys cells)
         \<and> (\<forall>e \<in> set (sm_comparisons s). ce_baseline e = sm_baseline s
              \<and> dict_keys (ce_metrics e) = [''latency_p50_ms'', ''latency_p99_ms'', ''jitter_p99_us''])))"
proof (intro conjI allI impI)
  show "build_summary rn np sp dir files baseline n_boot ci seed method \<noteq> None" by (rule build_summary_returns)
  fix s
  assume s: "build_summary rn np sp dir files baseline n_boot ci seed method = Some (Inr s)"
  from build_summary_parts [OF this] obtain cells base where
    c: "build_dataset files = Inr cells" "choose_baseline (dict_keys cells) baseline = Inr base"
      "sm_baseline s = base" "sm_conditions s = dict_keys cells"
    and m: "list_all2 (\<lambda>c e. ce_condition e = c \<and> ce_baseline e = base \<and> cmp_entry_ok e
       \<and> (\<exists>b x. dict_get cells base = Some b \<and> dict_get cells c = Some x
            \<and> compare_cells rn np sp b x n_boot ci seed method = Some (Inr (ce_metrics e))))
      (filter (\<lambda>c. c \<noteq> base) (dict_keys cells)) (sm_comparisons s)" .
  note e = summary_cells [OF s c(1)]
  have "map cr_condition (sm_cells s) = dict_keys cells" "map cr_runs (sm_cells s) = map (\<lambda>(c, x). map run_name (cell_runs x)) cells"
    "map cr_n_runs (sm_cells s) = map (\<lambda>(c, x). length (cell_runs x)) cells"
    "map cr_n_packets (sm_cells s) = map (\<lambda>(c, x). length (concat (map latency_ms (cell_runs x)))) cells"
    using e by (auto simp: dict_keys_def list_all2_conv_all_nth split_def intro!: nth_equalityI)
  moreover have "\<forall>r \<in> set (sm_cells s). cr_per_run r = None \<longleftrightarrow> cr_n_runs r \<le> 1"
    using e by (auto simp: list_all2_conv_all_nth in_set_conv_nth)
  moreover have "map ce_condition (sm_comparisons s) = filter (\<lambda>c. c \<noteq> sm_baseline s) (dict_keys cells)"
    using m c(3) by (intro map_all2) (auto elim: list_all2_mono)
  moreover have "\<forall>e \<in> set (sm_comparisons s). ce_baseline e = sm_baseline s
      \<and> dict_keys (ce_metrics e) = [''latency_p50_ms'', ''latency_p99_ms'', ''jitter_p99_us'']"
    using m c(3) by (fastforce simp: list_all2_conv_all_nth in_set_conv_nth cmp_entry_ok_def COMPARISON_METRICS_def)
  moreover have "base = (case baseline of Some b \<Rightarrow> b | None \<Rightarrow> hd (dict_keys cells))"
    using c(2) by (auto simp: choose_baseline_def split: option.splits if_splits list.splits)
  ultimately show "\<exists>cells. build_dataset files = Inr cells \<and> sm_conditions s = dict_keys cells
         \<and> sm_baseline s = (case baseline of Some b \<Rightarrow> b | None \<Rightarrow> hd (dict_keys cells)) \<and> sm_baseline s \<in> set (dict_keys cells)
         \<and> map cr_condition (sm_cells s) = dict_keys cells
         \<and> map cr_runs (sm_cells s) = map (\<lambda>(c, x). map run_name (cell_runs x)) cells
         \<and> map cr_n_runs (sm_cells s) = map (\<lambda>(c, x). length (cell_runs x)) cells
         \<and> map cr_n_packets (sm_cells s) = map (\<lambda>(c, x). length (concat (map latency_ms (cell_runs x)))) cells
         \<and> (\<forall>r \<in> set (sm_cells s). cr_per_run r = None \<longleftrightarrow> cr_n_runs r \<le> 1)
         \<and> map ce_condition (sm_comparisons s) = filter (\<lambda>c. c \<noteq> sm_baseline s) (dict_keys cells)
         \<and> (\<forall>e \<in> set (sm_comparisons s). ce_baseline e = sm_baseline s
              \<and> dict_keys (ce_metrics e) = [''latency_p50_ms'', ''latency_p99_ms'', ''jitter_p99_us''])"
    using c choose_baseline_in [OF c(2)] by (intro exI [of _ cells] conjI) simp_all
qed


definition sample_sp :: scipy where
  "sample_sp = \<lparr>np_mean = (\<lambda>_. Num 1), np_std1 = (\<lambda>_. Num 0), np_sqrt = (\<lambda>x. x), sps_t_ppf = (\<lambda>_ _. Num 2),
     sps_mannwhitneyu = (\<lambda>_ _. (Num 1, Num 1))\<rparr>"

definition sample_run :: run where
  "sample_run = \<lparr>run_name = ''fifo_run1'', run_condition = ''fifo'', run_index = Some 1, run_seq = [0, 3, 1],
     send_ns = [1, 2, 3], recv_ns = [2, 3, 4], latency_ms = [Num 1, Num 1, Num 1], jitter_us = [Num 0, Num 0, Num 0],
     pkt_size = [128, 128, 128], run_tos = Some [184, -1, 184], run_path = ''fifo_run1.csv''\<rparr>"

definition sample_files :: "(string \<times> string) list" where
  "sample_files = [(''fifo_run1.csv'', csv_write [REQUIRED_COLUMNS, [''0'', ''1'', ''2'', ''1'', ''0'', ''128'']])]"

lemma obj_ok_floats [simp]: "obj_ok (floats_obj d) \<longleftrightarrow> list_all (\<lambda>(k, v). f64_wf v) d"
  by (induction d) (auto simp: floats_obj_def)

text \<open>The figures of a sample are well-formed floats when those of the library are.\<close>

lemma dict_put_all: "list_all (\<lambda>(k, v). P v) d \<Longrightarrow> P v \<Longrightarrow> list_all (\<lambda>(k, v). P v) (dict_put d k v)"
  using set_dict_put [of d k v] by (fastforce simp: list_all_iff)

lemma foldl_put_const:
  "list_all (\<lambda>(k, v). P v) d \<Longrightarrow> P v \<Longrightarrow> list_all (\<lambda>(k, v). P v) (foldl (\<lambda>d k. dict_put d k v) d ks)"
  by (induction ks arbitrary: d) (simp_all add: dict_put_all)

lemma distribution_summary_wf:
  assumes "distribution_summary np sp vs qs method = Inr d"
    and "\<And>q p. q \<in> set qs \<Longrightarrow> vs \<noteq> [] \<Longrightarrow> np_percentile np vs q method = Inr p \<Longrightarrow> f64_wf p"
    and "vs \<noteq> [] \<Longrightarrow> f64_wf (np_fmin np vs) \<and> f64_wf (np_fmax np vs)"
    and "f64_wf (np_mean sp vs)" and "f64_wf (np_std1 sp vs)"
  shows "list_all (\<lambda>(k, v). f64_wf v) d"
proof (cases "vs = []")
  case True
  have d: "d = foldl (\<lambda>d k. dict_put d k NaN) [(''n'', f_of_int (int (length vs)))] ([''min''] @ map pct_label qs @ [''max'', ''mean'', ''std''])"
    using assms(1) unfolding distribution_summary_def Let_def if_P [OF True] sum.inject by (rule sym)
  show ?thesis unfolding d by (rule foldl_put_const) simp_all
next
  case False
  then obtain ps where ps: "res_mapM (\<lambda>q. np_percentile np vs q method) qs = Inr ps"
    using assms(1) by (auto simp: distribution_summary_def percentiles_def res_bind_Inr_conv)
  have "f64_wf v" if qv: "(q, v) \<in> set (zip qs ps)" for q v
  proof -
    obtain i where "i < length qs" "i < length ps" "q = qs ! i" "v = ps ! i" using qv by (auto simp: set_zip)
    moreover have "np_percentile np vs (qs ! i) method = Inr (ps ! i)"
      using ps calculation(1) unfolding res_mapM_Inr_iff by (simp add: list_all2_conv_all_nth)
    ultimately show ?thesis using assms(2) False by (metis nth_mem)
  qed
  then have zip: "list_all (\<lambda>(k, v). f64_wf v) (zip qs ps)" by (auto simp: list_all_iff)
  have d: "d = dict_put (dict_put (dict_put (foldl (\<lambda>d (q, v). dict_put d (pct_label q) v)
      (dict_put [(''n'', f_of_int (int (length vs)))] ''min'' (np_fmin np vs)) (zip qs ps)) ''max'' (np_fmax np vs))
      ''mean'' (np_mean sp vs)) ''std'' (if 1 < length vs then np_std1 sp vs else NaN)"
    using assms(1) False ps by (simp add: distribution_summary_def percentiles_def Let_def)
  show ?thesis unfolding d
    by (intro dict_put_all foldl_dict_put_all zip) (use assms(3-5) False in simp_all)
qed

lemma sample_loss:
  assumes "cell_runs c = [r]" and "run_seq r = [0]"
  shows "aggregate_loss np_ref c = Inr [(''expected'', Num 1), (''received'', Num 1), (''unique'', Num 1), (''lost'', Num 0),
    (''duplicates'', Num 0), (''reorders'', Num 0), (''loss_pct'', Num 0)]"
proof -
  have l: "loss_summary np_ref [0] = [(''expected'', Num 1), (''received'', Num 1), (''unique'', Num 1), (''lost'', Num 0),
    (''loss_pct'', Num 0), (''duplicates'', Num 0), (''reorders'', Num 0)]" by code_simp
  have f: "f_add (Num 0) (Num 1) = Num 1" "f_add (Num 0) (Num 0) = Num 0" "f_div (f_mul (Num 100) (Num 0)) (Num 1) = Num 0"
    "\<not> f_eq (Num 1) (Num 0)" by code_simp+
  show ?thesis using assms by (simp add: aggregate_loss_def l dict_item_def dict_get_def dict_put_def f Let_def)
qed

lemma sample_summary:
  "\<exists>s. build_summary rn_ref np_ref sample_sp ''results'' sample_files None 2000 (Num (1/2)) 0 ''linear'' = Some (Inr s) \<and> obj_ok (summary_obj s)"
proof -
  let ?r = "\<lparr>run_name = ''fifo_run1'', run_condition = ''fifo'', run_index = Some 1, run_seq = [0],
    send_ns = [1], recv_ns = [2], latency_ms = [Num 1], jitter_us = [Num 0], pkt_size = [128],
    run_tos = None, run_path = ''fifo_run1.csv''\<rparr>"
  have "res_mapM (\<lambda>(name, text). load_csv name text) (csv_files sample_files) = Inr [?r]" by code_simp
  from build_dataset_runs [OF this] obtain d where d: "build_dataset sample_files = Inr d" "dict_keys d = [''fifo'']"
    "\<forall>(c, x) \<in> set d. cell_runs x = sort_key run_sort_key (filter (\<lambda>r. run_condition r = c) [?r])"
    by (auto simp: table_order_def CONDITION_ORDER_def)
  then obtain x where x: "d = [(''fifo'', x)]" by (auto simp: dict_keys_def)
  then have runs: "cell_runs x = [?r]" using d(3) by simp
  have "rnd (1/2) = 1/2" by code_simp
  then have half: "f64_wf (Num (1/2))" by simp
  have wf: "f64_wf (Num 0)" "f64_wf (Num 1)"
    using f_of_int_wf [of 0] f_of_int_wf [of 1] f_of_int_exact [of 0] f_of_int_exact [of 1] by simp_all
  have "moderate [Num 1]" using moderate_of_ints [of "[1]"] by simp
  then have pct: "\<exists>p. np_percentile np_ref [Num 1] q ''linear'' = Inr p \<and> f64_wf p" if "q \<in> set LATENCY_PERCENTILES" for q
    using np_ref.percentile_range [of "[Num 1]" q "''linear''"] that LATENCY_PERCENTILES_range
    by (auto simp: list_all_iff percentile_methods_def)
  then obtain ls where ls: "latency_summary np_ref sample_sp [Num 1] ''linear'' = Inr ls"
    using distribution_summary_returns unfolding latency_summary_def by blast
  have lswf: "list_all (\<lambda>(k, v). f64_wf v) ls"
  proof (rule distribution_summary_wf [OF ls [unfolded latency_summary_def]])
    show "f64_wf p" if "q \<in> set LATENCY_PERCENTILES" "np_percentile np_ref [Num 1] q ''linear'' = Inr p" for q p
      using pct [OF that(1)] that(2) by (elim exE conjE) simp
    have "f_sort [Num 1] = [Num 1]" by code_simp
    then show "f64_wf (np_fmin np_ref [Num 1]) \<and> f64_wf (np_fmax np_ref [Num 1])" using wf by (simp add: np_ref_def)
  qed (use wf in \<open>simp_all add: sample_sp_def\<close>)
  obtain js where js: "distribution_summary np_ref sample_sp [] LATENCY_PERCENTILES ''linear'' = Inr js"
    by (simp add: distribution_summary_def Let_def)
  have jswf: "list_all (\<lambda>(k, v). f64_wf v) js"
    by (rule distribution_summary_wf [OF js]) (use wf in \<open>simp_all add: sample_sp_def\<close>)
  note loss = sample_loss [OF runs, simplified]
  have tos: "aggregate_dscp np_ref x = None" by (simp add: aggregate_dscp_def dscp_distribution_def runs)
  define r where "r = \<lparr>cr_condition = cell_condition x, cr_runs = [''fifo_run1''], cr_n_runs = 1, cr_n_packets = 1,
    cr_latency_ms = ls, cr_jitter_us = js, cr_loss = [(''expected'', Num 1), (''received'', Num 1), (''unique'', Num 1), (''lost'', Num 0),
    (''duplicates'', Num 0), (''reorders'', Num 0), (''loss_pct'', Num 0)], cr_dscp = None, cr_per_run = None\<rparr>"
  have r: "cell_summary np_ref sample_sp x ''linear'' (Num (1/2)) = Inr r"
    using ls js loss tos
    by (simp add: cell_summary_def cell_latency_ms_def cell_jitter_us_def np_concatenate_def jitter_values_def runs n_runs_def Let_def r_def)
  define s where "s = \<lparr>sm_results_dir = ''results'', sm_percentile_method = ''linear'', sm_baseline = ''fifo'', sm_conditions = [''fifo''],
    sm_n_boot = 2000, sm_ci = Num (1/2), sm_seed = 0, sm_cells = [r], sm_comparisons = []\<rparr>"
  have "build_summary rn_ref np_ref sample_sp ''results'' sample_files None 2000 (Num (1/2)) 0 ''linear'' = Some (Inr s)"
    using d(1) x r by (simp add: build_summary_def dict_keys_def choose_baseline_def cell_of_def dict_item_def Let_def s_def)
  moreover have "\<bar>0 :: int\<bar> < 10 ^ int_max_str_digits" "\<bar>1 :: int\<bar> < 10 ^ int_max_str_digits" "\<bar>2000 :: int\<bar> < 10 ^ int_max_str_digits"
    by (rule below_digit_limit_int, simp)+
  note digits = this
  have "obj_ok (summary_obj s)"
    using half wf digits lswf jswf by (simp add: summary_obj_def s_def cell_obj_def r_def dscp_obj_def)
  ultimately show ?thesis by blast
qed


lemma build_summary_complete_witness:
  "\<exists>s. build_summary rn_ref np_ref sample_sp ''results'' sample_files None 2000 (Num (1/2)) 0 ''linear'' = Some (Inr s)
     \<and> sm_baseline s \<in> set (sm_conditions s) \<and> (\<exists>cells. build_dataset sample_files = Inr cells
        \<and> map cr_runs (sm_cells s) = map (\<lambda>(c, x). map run_name (cell_runs x)) cells)"
proof -
  obtain s where s: "build_summary rn_ref np_ref sample_sp ''results'' sample_files None 2000 (Num (1/2)) 0 ''linear'' = Some (Inr s)"
    using sample_summary by blast
  then have "sm_baseline s \<in> set (sm_conditions s) \<and> (\<exists>cells. build_dataset sample_files = Inr cells
      \<and> map cr_runs (sm_cells s) = map (\<lambda>(c, x). map run_name (cell_runs x)) cells)"
    using build_summary_complete [of rn_ref np_ref sample_sp "''results''" sample_files None 2000 "Num (1/2)" 0 "''linear''"] by auto
  with s show ?thesis by blast
qed

lemma to_json_reads:
  assumes "obj_ok (summary_obj s)"
  shows "\<exists>t. to_json s = Inr t \<and> json_read t = Some (sanitize_json (summary_obj s))"
proof -
  have ok: "json_ok (sanitize_json (summary_obj s))" using assms by (rule sanitize_json_ok)
  from json_dump_total [OF this] obtain t where "to_json s = Inr t" unfolding to_json_def json_dumps_def by blast
  moreover from this have "json_read t = Some (sanitize_json (summary_obj s))"
    unfolding to_json_def by (rule json_read_dumps) (rule ok)
  ultimately show ?thesis by blast
qed

text \<open>
  Property C34. The JSON form of a summary is always produced and is standard JSON (a bare
  \<open>NaN\<close> or \<open>Infinity\<close> never occurs: every undefined or infinite number is \<open>null\<close>), and
  reading it back gives exactly the sanitized summary, every finite float bit for bit.
\<close>

theorem to_json_roundtrip:
  assumes "obj_ok (summary_obj s)"
  shows "\<exists>t. to_json s = Inr t \<and> json_read t = Some (sanitize_json (summary_obj s)) \<and> json_ok (sanitize_json (summary_obj s))
    \<and> write_json s path = Inr (path, t)"
  using to_json_reads [OF assms] sanitize_json_ok [OF assms] by (auto simp: write_json_def)

lemma to_json_roundtrip_witness:
  "\<exists>t. to_json \<lparr>sm_results_dir = ''results'', sm_percentile_method = ''linear'', sm_baseline = ''fifo'', sm_conditions = [''fifo''],
       sm_n_boot = 2000, sm_ci = NaN, sm_seed = 0, sm_cells = [], sm_comparisons = []\<rparr> = Inr t \<and> json_read t \<noteq> None"
proof -
  let ?s = "\<lparr>sm_results_dir = ''results'', sm_percentile_method = ''linear'', sm_baseline = ''fifo'', sm_conditions = [''fifo''],
       sm_n_boot = 2000, sm_ci = NaN, sm_seed = 0, sm_cells = [], sm_comparisons = []\<rparr>"
  have "\<bar>2000 :: int\<bar> < 10 ^ int_max_str_digits" by (rule below_digit_limit_int) simp
  then have "obj_ok (summary_obj ?s)" by (simp add: summary_obj_def)
  from to_json_roundtrip [OF this, of "''out.json''"] obtain t where
    "to_json ?s = Inr t" "json_read t = Some (sanitize_json (summary_obj ?s))" by blast
  then show ?thesis by (intro exI [of _ t]) simp
qed

text \<open>
  Property C35. The pooled DSCP, ECN and TOS histograms of a condition are those of its pooled
  packets: merging the runs' histograms counts every packet of every run that recorded TOS values
  once, missing values separately, and the dominant DSCP is one that no other exceeds. There is
  no histogram exactly when no run recorded TOS values.
\<close>

theorem aggregate_dscp_pools:
  assumes "numpy_int np"
  shows "(aggregate_dscp np c = None \<longleftrightarrow> List.map_filter run_tos (cell_runs c) = [])
    \<and> (\<forall>m. aggregate_dscp np c = Some m \<longrightarrow>
        (\<forall>k. dict_get_or (dscp_hist m) k 0 = count_list (map (drop_bit 2) (filter (\<lambda>t. 0 \<le> t) (pooled_tos c))) k
           \<and> dict_get_or (ecn_hist m) k 0 = count_list (map (\<lambda>t. t AND 3) (filter (\<lambda>t. 0 \<le> t) (pooled_tos c))) k
           \<and> dict_get_or (tos_hist m) k 0 = count_list (filter (\<lambda>t. 0 \<le> t) (pooled_tos c)) k)
        \<and> tos_missing m = length (filter (\<lambda>t. t < 0) (pooled_tos c))
        \<and> (\<forall>d. dominant_dscp m = Some d \<longrightarrow> (\<forall>k. dict_get_or (dscp_hist m) k 0 \<le> dict_get_or (dscp_hist m) d 0)))"
proof -
  let ?e = "\<lparr>dscp_hist = [], ecn_hist = [], tos_hist = [], tos_missing = 0, dominant_dscp = None\<rparr>"
  define arrs where "arrs = List.map_filter run_tos (cell_runs c)"
  define m0 where "m0 = foldl merge_dscp ?e (map (dist_of np) arrs)"
  have pr: "List.map_filter (\<lambda>r. dscp_distribution np (run_tos r)) (cell_runs c) = map (dist_of np) arrs"
    by (simp add: dscp_distribution_map map_filter_option arrs_def)
  have agg: "aggregate_dscp np c = (if arrs = [] then None else Some (m0\<lparr>dominant_dscp := max_key (dscp_hist m0)\<rparr>))"
    by (simp add: aggregate_dscp_def pr m0_def Let_def)
  have pool: "pooled_tos c = concat arrs" by (simp add: pooled_tos_def arrs_def)
  have cnt: "count_list (map f (filter P (concat xss))) k = (\<Sum>xs\<leftarrow>xss. count_list (map f (filter P xs)) k)"
    for f :: "int \<Rightarrow> int" and P xss k by (induction xss) simp_all
  have fields: "dscp_hist (merge_dscp m d) = merge_hist (dscp_hist m) (dscp_hist d)"
    "ecn_hist (merge_dscp m d) = merge_hist (ecn_hist m) (ecn_hist d)"
    "tos_hist (merge_dscp m d) = merge_hist (tos_hist m) (tos_hist d)" for m d by (simp_all add: merge_dscp_def)
  note sums = dist_of_sums [OF assms]
  have h: "dict_get_or (dscp_hist m0) k 0 = count_list (map (drop_bit 2) (filter (\<lambda>t. 0 \<le> t) (concat arrs))) k"
    "dict_get_or (ecn_hist m0) k 0 = count_list (map (\<lambda>t. t AND 3) (filter (\<lambda>t. 0 \<le> t) (concat arrs))) k"
    "dict_get_or (tos_hist m0) k 0 = count_list (filter (\<lambda>t. 0 \<le> t) (concat arrs)) k" for k
    using foldl_merge_field [of dscp_hist dscp_hist ?e "map (dist_of np) arrs" k] foldl_merge_field [of ecn_hist ecn_hist ?e "map (dist_of np) arrs" k]
      foldl_merge_field [of tos_hist tos_hist ?e "map (dist_of np) arrs" k] cnt [of id]
    by (simp_all add: fields m0_def cnt sums dict_get_or_def comp_def)
  have "length xs - length (filter (\<lambda>t. 0 \<le> t) xs) = length (filter (\<lambda>t. t < (0::int)) xs)" for xs
    using length_filter_partition [of "\<lambda>t. 0 \<le> t" xs] by (simp add: not_le)
  then have miss: "tos_missing m0 = length (filter (\<lambda>t. t < 0) (concat arrs))"
    by (simp add: m0_def foldl_merge_missing comp_def sums filter_concat length_concat)
  have "distinct (dict_keys (dscp_hist m0))" unfolding m0_def by (rule distinct_foldl_merge) (simp add: dict_keys_def)
  then have "\<forall>d. max_key (dscp_hist m0) = Some d \<longrightarrow> (\<forall>k. dict_get_or (dscp_hist m0) k 0 \<le> dict_get_or (dscp_hist m0) d 0)"
    using max_key_greatest by blast
  then show ?thesis using h miss unfolding agg pool by (auto simp: arrs_def)
qed

lemma aggregate_dscp_pools_witness:
  "\<exists>m. aggregate_dscp np_ref \<lparr>cell_condition = ''fifo'', cell_runs = [sample_run]\<rparr> = Some m
     \<and> dict_get_or (dscp_hist m) 46 0 = 2 \<and> tos_missing m = 1"
proof -
  let ?c = "\<lparr>cell_condition = ''fifo'', cell_runs = [sample_run]\<rparr>"
  note pools = aggregate_dscp_pools [OF np_ref.numpy_int_axioms, of ?c]
  have tos: "pooled_tos ?c = [184, -1, 184]" by (simp add: pooled_tos_def sample_run_def map_filter_simps)
  have "aggregate_dscp np_ref ?c \<noteq> None" using pools by (simp add: sample_run_def map_filter_simps)
  then obtain m where m: "aggregate_dscp np_ref ?c = Some m" by blast
  have "map (drop_bit 2) [184, 184 :: int] = [46, 46]" by code_simp
  then have "dict_get_or (dscp_hist m) 46 0 = 2" "tos_missing m = 1" using pools m tos by simp_all
  with m show ?thesis by blast
qed

lemma loss_figure_sum:
  assumes np: "numpy_int np" and nn: "\<forall>r \<in> set rs. list_all (\<lambda>s. 0 \<le> s) (run_seq r)"
    and le: "(\<Sum>r\<leftarrow>rs. loss_figure (\<lambda>arr. max (Max (set arr) + 1) (int (length arr))) (run_seq r)) \<le> 2 ^ 53"
    and kf: "(k, f) \<in> set loss_figures"
  shows "0 \<le> (\<Sum>r\<leftarrow>rs. loss_figure f (run_seq r))" and "(\<Sum>r\<leftarrow>rs. loss_figure f (run_seq r)) \<le> 2 ^ 53"
    and "res_bind (res_mapM (\<lambda>d. dict_item d k) (map (\<lambda>r. loss_summary np (run_seq r)) rs)) (\<lambda>vs. Inr (k, foldl f_add (Num 0) vs))
      = Inr (k, f_of_int (\<Sum>r\<leftarrow>rs. loss_figure f (run_seq r)))"
proof -
  let ?fig = "\<lambda>r. loss_figure f (run_seq r)"
  have fig: "dict_item (loss_summary np (run_seq r)) k = Inr (f_of_int (?fig r)) \<and> 0 \<le> ?fig r
      \<and> ?fig r \<le> loss_figure (\<lambda>arr. max (Max (set arr) + 1) (int (length arr))) (run_seq r)" if "r \<in> set rs" for r
    by (rule loss_figure_values [OF np]) (use nn kf that in auto)
  show 1: "0 \<le> sum_list (map ?fig rs)" by (rule sum_list_nonneg) (use fig in auto)
  have "sum_list (map ?fig rs) \<le> (\<Sum>r\<leftarrow>rs. loss_figure (\<lambda>arr. max (Max (set arr) + 1) (int (length arr))) (run_seq r))"
    by (rule sum_list_mono) (use fig in blast)
  then show 2: "sum_list (map ?fig rs) \<le> 2 ^ 53" using le by simp
  have "res_mapM (\<lambda>d. dict_item d k) (map (\<lambda>r. loss_summary np (run_seq r)) rs) = Inr (map (\<lambda>r. f_of_int (?fig r)) rs)"
    by (rule res_mapM_map_map) (use fig in blast)
  moreover have "foldl f_add (f_of_int 0) (map f_of_int (map ?fig rs)) = f_of_int (0 + sum_list (map ?fig rs))"
    by (rule foldl_f_add) (use fig 2 in auto)
  ultimately show "res_bind (res_mapM (\<lambda>d. dict_item d k) (map (\<lambda>r. loss_summary np (run_seq r)) rs)) (\<lambda>vs. Inr (k, foldl f_add (Num 0) vs))
      = Inr (k, f_of_int (sum_list (map ?fig rs)))" by (simp add: comp_def f_of_int_exact [of 0])
qed

text \<open>
  The loss row of a condition adds up its runs: each of the six figures is the sum
  over the runs of that run's figure (packets expected, received, distinct, missing from
  \<open>0..max\<close>, duplicated, late), exactly, as long as the totals stay within the integers a float
  holds; the loss percentage is computed from the totals, and is \<open>nan\<close> when nothing was expected.
\<close>

theorem aggregate_loss_totals:
  assumes "numpy_int np" and "\<forall>r \<in> set (cell_runs c). list_all (\<lambda>s. 0 \<le> s) (run_seq r)"
    and "(\<Sum>r\<leftarrow>cell_runs c. loss_figure (\<lambda>arr. max (Max (set arr) + 1) (int (length arr))) (run_seq r)) \<le> 2 ^ 53"
  shows "\<exists>d. aggregate_loss np c = Inr d
    \<and> (\<forall>(k, f) \<in> set loss_figures. dict_get d k = Some (f_of_int (\<Sum>r\<leftarrow>cell_runs c. loss_figure f (run_seq r))))
    \<and> dict_get d ''loss_pct'' = Some (let e = (\<Sum>r\<leftarrow>cell_runs c. loss_figure (\<lambda>arr. Max (set arr) + 1) (run_seq r)) in
        if e = 0 then NaN
        else f_div (f_mul (Num 100) (f_of_int (\<Sum>r\<leftarrow>cell_runs c. loss_figure (\<lambda>arr. int (card ({0..Max (set arr)} - set arr))) (run_seq r)))) (f_of_int e))"
proof -
  define tot where "tot k = (\<Sum>r\<leftarrow>cell_runs c. loss_figure (the (map_of loss_figures k)) (run_seq r))" for k
  have tots: "tot k = (\<Sum>r\<leftarrow>cell_runs c. loss_figure f (run_seq r))" if "(k, f) \<in> set loss_figures" for k f
    by (simp add: tot_def distinct_loss_figures [OF that])
  note sums = loss_figure_sum [OF assms]
  define total where "total = map (\<lambda>kf. (fst kf, f_of_int (tot (fst kf)))) loss_figures"
  have "res_mapM (\<lambda>k. res_bind (res_mapM (\<lambda>d. dict_item d k) (map (\<lambda>r. loss_summary np (run_seq r)) (cell_runs c))) (\<lambda>vs. Inr (k, foldl f_add (Num 0) vs)))
      (map fst loss_figures) = Inr total"
    unfolding total_def by (rule res_mapM_map_map) (use sums(3) tots in force)
  moreover note loss_figures_keys
  moreover have items: "dict_item total k = Inr (f_of_int (tot k))" if "(k, f) \<in> set loss_figures" for k f
    using that by (auto simp: total_def loss_figures_def dict_item_def)
  moreover have mem: "(''lost'', \<lambda>arr. int (card ({0..Max (set arr)} - set arr))) \<in> set loss_figures"
    "(''expected'', \<lambda>arr. Max (set arr) + 1) \<in> set loss_figures" by (simp_all add: loss_figures_def)
  ultimately have agg: "aggregate_loss np c = Inr (dict_put total ''loss_pct''
      (if \<not> f_eq (f_of_int (tot ''expected'')) (Num 0) then f_div (f_mul (Num 100) (f_of_int (tot ''lost''))) (f_of_int (tot ''expected'')) else NaN))"
    unfolding aggregate_loss_def Let_def by (simp add: items [OF mem(1)] items [OF mem(2)])
  have zero: "f_eq (f_of_int (tot ''expected'')) (Num 0) \<longleftrightarrow> tot ''expected'' = 0"
    using sums(1,2) [OF mem(2)] tots [OF mem(2)] by (simp add: f_of_int_exact f_eq_def)
  have get: "dict_get (dict_put total ''loss_pct'' v) k = Some (f_of_int (tot k))" if "(k, f) \<in> set loss_figures" for k f v
    using that by (auto simp: total_def loss_figures_def dict_put_def)
  show ?thesis unfolding agg using get tots zero tots [OF mem(1)] tots [OF mem(2)] by (auto simp: Let_def od.get_put)
qed

lemma aggregate_loss_totals_witness:
  "\<exists>d. aggregate_loss np_ref \<lparr>cell_condition = ''fifo'', cell_runs = [sample_run, sample_run]\<rparr> = Inr d
     \<and> dict_get d ''expected'' = Some (f_of_int 8) \<and> dict_get d ''lost'' = Some (f_of_int 2)"
proof -
  let ?c = "\<lparr>cell_condition = ''fifo'', cell_runs = [sample_run, sample_run]\<rparr>"
  have "Max (set (run_seq sample_run)) = 3" and "{0..3} - set (run_seq sample_run) = {2}" by (auto simp: sample_run_def)
  moreover have ne: "run_seq sample_run = [0, 3, 1]" by (simp add: sample_run_def)
  moreover have "list_all (\<lambda>s. 0 \<le> s) (run_seq sample_run)" by (simp add: sample_run_def)
  ultimately show ?thesis using aggregate_loss_totals [OF np_ref.numpy_int_axioms, of ?c]
    by (simp add: loss_figure_def) (auto simp: loss_figures_def loss_figure_def)
qed

end
