(* ===== verification/Plots.thy ===== *)
theory Plots
  imports Report Effects
begin

text \<open>
  \<open>analysis/tsn_analysis/plots.py\<close>: what the two figures draw. Matplotlib is not part of the
  repository: a figure is the list of the calls on its axes, in order, with their arguments, the
  settings it is drawn under and the file it is saved to; line widths, edge colours and text
  alignment are left out. The
  lemmas show that nothing that is not positive reaches a logarithmic axis, that a CDF curve is a
  distribution function, and that conditions are told apart by their style.
\<close>

section \<open>Effects\<close>

text \<open>
  The calls on a figure's axes: \<open>Bar xs heights width colour label\<close>, the text at height
  \<open>y\<close> over bar \<open>j\<close> of group \<open>i\<close>, the limits and scales of the axes,
  \<open>Curve xs ys colour dash label zorder\<close>. A figure also has its settings, its size, its file
  and whether it is saved with a tight bounding box.
\<close>

datatype draw =
    Bar "f64 list" "f64 list" f64 string string
  | BarText nat nat f64 string
  | LogY
  | LogX
  | YlimTop f64
  | Ylim f64 f64
  | XTicks "f64 list" "string list"
  | Curve "f64 list" "f64 list" string string string int
  | AxisText string string
  | GridOff string
  | Legend "(string \<times> string) list"
  | TightLayout

record figure =
  fig_rc :: "(string, string) dict"
  fig_path :: string
  fig_tight :: bool
  fig_size :: "f64 \<times> f64"
  fig_calls :: "draw list"

text \<open>
  What the tools do to their environment: \<open>print\<close> on either stream, creating a directory
  with its parents, writing a text file and saving a figure. The parameter \<open>os\<close> says how
  the operating system answers: an effect takes place or raises.
\<close>

datatype effect = Stdout string | Stderr string | Mkdir string | WriteFile string string | SaveFig figure

type_synonym 'a io = "(effect, 'a) eff"

section \<open>Styles\<close>

definition FIGURE_NAMES :: "string list" where
  "FIGURE_NAMES = [''fig_latency_percentiles.png'', ''fig_latency_cdf.png'']"

definition KNOWN_STYLES :: "(string, string \<times> string) dict" where
  "KNOWN_STYLES =
     [(''fifo'', (''#9E9E9E'', ''--'')),
      (''fq_codel'', (''#7B68EE'', ''-'')),
      (''pfifo_fast_noclsf'', (''#424242'', ''-'')),
      (''pfifo_fast_clsf'', (''#E8734A'', ''-'')),
      (''prio_clsf'', (''#A93226'', ''--''))]"

text \<open>The settings both figures are drawn under, with their values as the source writes them.\<close>

definition RC :: "(string, string) dict" where
  "RC = [(''font.size'', ''10''), (''axes.titlesize'', ''11''), (''legend.fontsize'', ''9''), (''axes.grid'', ''True''),
     (''grid.alpha'', ''0.3''), (''grid.linestyle'', ''--''), (''savefig.dpi'', ''150'')]"

definition FALLBACK_COLORS :: "string list" where
  "FALLBACK_COLORS = [''#1F77B4'', ''#2CA02C'', ''#8C564B'', ''#E377C2'', ''#17BECF'']"

definition STAT_COLORS :: "(string, string) dict" where
  "STAT_COLORS = [(''p50'', ''#1F3A5F''), (''p99'', ''#4F81B0''), (''max'', ''#B5CBE3'')]"

fun styles_loop :: "string list \<Rightarrow> nat \<Rightarrow> (string, string \<times> string) dict \<Rightarrow> (string, string \<times> string) dict" where
  "styles_loop [] extra styles = styles"
| "styles_loop (c # cs) extra styles =
     (case dict_get KNOWN_STYLES c of
        Some st \<Rightarrow> styles_loop cs extra (dict_put styles c st)
      | None \<Rightarrow> styles_loop cs (extra + 1) (dict_put styles c (FALLBACK_COLORS ! (extra mod length FALLBACK_COLORS), ''-'')))"

definition condition_styles :: "string list \<Rightarrow> (string, string \<times> string) dict" where
  "condition_styles conditions = styles_loop conditions 0 []"

section \<open>Values and labels\<close>

definition stat_value :: "numpy \<Rightarrow> f64 list \<Rightarrow> string \<Rightarrow> f64 res" where
  "stat_value np values name =
     (if values = [] then Inr NaN
      else res_bind (if name = ''max'' then Inr (np_fmax np values)
                     else res_bind (py_float (drop 1 name)) (\<lambda>q. percentile np values q ''linear'')) (\<lambda>v.
           Inr (if f_lt (Num 0) v then v else NaN)))"

text \<open>\<open>.pg\<close>: \<open>p\<close> significant digits, fixed or scientific by exponent, trailing zeros removed.\<close>

definition fmt_gp :: "nat \<Rightarrow> f64 \<Rightarrow> string" where
  "fmt_gp p x = (case x of
      NaN \<Rightarrow> ''nan''
    | Inf b \<Rightarrow> (if b then ''-inf'' else ''inf'')
    | _ \<Rightarrow> let (m, e) = sci_parts (p - 1) \<bar>fval x\<bar>
           in (if sign_bit x then ''-'' else []) @
              (if -4 \<le> e \<and> e < int p then strip_zeros (fixed_digits (nat (int p - 1 - e)) m)
               else strip_zeros (fixed_digits (p - 1) m) @ exp_str e))"

definition bar_label :: "f64 \<Rightarrow> string" where
  "bar_label v = (if f_le (Num 100) v then fmt_fixed 0 v else if f_le (Num 1) v then fmt_fixed 1 v else fmt_gp 2 v)"

section \<open>The percentile figure\<close>

text \<open>The inner loop: the text over each bar that has a value, and the largest value so far.\<close>

fun bar_texts :: "nat \<Rightarrow> nat \<Rightarrow> f64 list \<Rightarrow> f64 \<Rightarrow> f64 \<times> draw list" where
  "bar_texts i j [] hi = (hi, [])"
| "bar_texts i j (v # vs) hi =
     (if is_nan v then bar_texts i (Suc j) vs hi
      else let (t, ds) = bar_texts i (Suc j) vs (if f_lt hi v then v else hi)
           in (t, BarText i j (f_mul v (f_lit (11 / 10))) (bar_label v) # ds))"

definition bar_width :: f64 where
  "bar_width = f_lit (27 / 100)"

definition bar_xs :: "nat \<Rightarrow> nat \<Rightarrow> f64 list" where
  "bar_xs n i = map (\<lambda>k. f_add (f_of_int (int k)) (f_mul (f_of_int (int i - 1)) bar_width)) [0..<n]"

fun stat_bars ::
  "numpy \<Rightarrow> (string, Cell) dict \<Rightarrow> string list \<Rightarrow> (nat \<times> string) list \<Rightarrow> f64 \<Rightarrow> (f64 \<times> draw list) res" where
  "stat_bars np cells names [] hi = Inr (hi, [])"
| "stat_bars np cells names ((i, st) # sts) hi =
     res_bind (res_mapM (\<lambda>c. res_bind (cell_of cells c) (\<lambda>x. res_bind (cell_latency_ms x) (\<lambda>lat. stat_value np lat st))) names) (\<lambda>values.
     res_bind (dict_item STAT_COLORS st) (\<lambda>color.
       let (hi', texts) = bar_texts i 0 values hi
       in res_bind (stat_bars np cells names sts hi') (\<lambda>(t, ds).
          Inr (t, Bar (bar_xs (length names) i) values bar_width color st # texts @ ds))))"

text \<open>A directory joined with a file name, and the directory of a path, as \<open>pathlib\<close> writes them.\<close>

definition path_join :: "string \<Rightarrow> string \<Rightarrow> string" where
  "path_join d name = (if d = ''.'' then name else if d \<noteq> [] \<and> last d = CHR ''/'' then d @ name else d @ ''/'' @ name)"

definition path_parent :: "string \<Rightarrow> string" where
  "path_parent p =
     (let d = rev (dropWhile (\<lambda>c. c \<noteq> CHR ''/'') (rev p))
      in if d = [] then ''.'' else if d = ''/'' then ''/'' else butlast d)"

definition plot_latency_percentiles :: "numpy \<Rightarrow> (string, Cell) dict \<Rightarrow> string \<Rightarrow> figure res" where
  "plot_latency_percentiles np cells out_dir =
     (let names = dict_keys cells
      in res_bind (stat_bars np cells names (enumerate 0 [''p50'', ''p99'', ''max'']) (Num 0)) (\<lambda>(hi, ds).
         Inr \<lparr>fig_rc = RC, fig_path = path_join out_dir ''fig_latency_percentiles.png'', fig_tight = False,
              fig_size = (f_add (f_mul (f_lit (3 / 2)) (f_of_int (int (length names)))) (Num 2), f_lit (46 / 10)),
              fig_calls = ds @ [LogY] @ (if f_lt (Num 0) hi then [YlimTop (f_mul hi (Num 6))] else [])
                @ [XTicks (map (\<lambda>k. f_of_int (int k)) [0..<length names]) names,
                   AxisText ''ylabel'' ''one-way latency (ms, log)'', AxisText ''title'' ''TS flow latency per condition'',
                   GridOff ''x'', Legend [(''loc'', ''upper right''), (''ncol'', ''3'')], TightLayout]\<rparr>))"

section \<open>The CDF figure\<close>

definition cdf_curve :: "numpy \<Rightarrow> (string, string \<times> string) dict \<Rightarrow> string \<Rightarrow> Cell \<Rightarrow> draw res" where
  "cdf_curve np styles cond c =
     res_bind (cell_latency_ms c) (\<lambda>values.
       let lat = np_sort np values;
           frac = map (\<lambda>k. f_div (f_of_int (int k)) (f_of_int (int (length lat)))) [1..<length lat + 1];
           kept = filter (\<lambda>(x, _). f_lt (Num 0) x) (zip lat frac)
       in res_bind (dict_item styles cond) (\<lambda>(color, dash).
          Inr (Curve (map fst kept) (map snd kept) color dash cond (if dash \<noteq> ''-'' then 3 else 2))))"

definition plot_latency_cdf :: "numpy \<Rightarrow> (string, Cell) dict \<Rightarrow> string \<Rightarrow> figure res" where
  "plot_latency_cdf np cells out_dir =
     (let styles = condition_styles (dict_keys cells)
      in res_bind (res_mapM (\<lambda>(cond, c). cdf_curve np styles cond c) cells) (\<lambda>curves.
         Inr \<lparr>fig_rc = RC, fig_path = path_join out_dir ''fig_latency_cdf.png'', fig_tight = True, fig_size = (f_lit (75 / 10), f_lit (46 / 10)),
              fig_calls = curves @ [LogX, Ylim (Num 0) (f_lit (102 / 100)),
                AxisText ''xlabel'' ''one-way latency (ms, log)'', AxisText ''ylabel'' ''fraction of packets'',
                AxisText ''title'' ''TS flow latency CDF'',
                Legend [(''loc'', ''center left''), (''bbox_to_anchor'', ''(1.01, 0.5)''), (''frameon'', ''False'')], TightLayout]\<rparr>))"

definition plot_all :: "(effect \<Rightarrow> unit res) \<Rightarrow> numpy \<Rightarrow> (string \<times> string) list \<Rightarrow> string \<Rightarrow> string list io" where
  "plot_all os np files out_dir =
     io_bind ([], build_dataset files) (\<lambda>cells.
       if cells = [] then ([], Inl (ValueError ''no CSV runs found''))
       else io_bind (perform os (Mkdir out_dir)) (\<lambda>_.
            io_bind ([], plot_latency_percentiles np cells out_dir) (\<lambda>f1.
            io_bind (perform os (SaveFig f1)) (\<lambda>_.
            io_bind ([], plot_latency_cdf np cells out_dir) (\<lambda>f2.
            io_bind (perform os (SaveFig f2)) (\<lambda>_.
            io_return [fig_path f1, fig_path f2]))))))"

section \<open>Lemmas on the CDF figure\<close>

text \<open>In a sorted sample the positive values are a final segment.\<close>

lemma filter_positive_drop:
  assumes "sorted_wrt f_le lat" and "length ys = length lat"
  shows "filter (\<lambda>(x, _). f_lt (Num 0) x) (zip lat ys) = drop (length (filter (\<lambda>x. \<not> f_lt (Num 0) x) lat)) (zip lat ys)"
  using assms
proof (induction lat arbitrary: ys)
  case (Cons x lat)
  obtain y ys' where y: "ys = y # ys'" "length ys' = length lat" using Cons.prems(2) by (cases ys) auto
  show ?case
  proof (cases "f_lt (Num 0) x")
    case True
    then have all: "\<forall>z \<in> set lat. f_lt (Num 0) z" using Cons.prems(1) f_less_le_trans by auto
    then have "filter (\<lambda>(x, _). f_lt (Num 0) x) (zip lat ys') = zip lat ys'" by (auto simp: filter_id_conv dest: set_zip_leftD)
    moreover have "filter (\<lambda>x. \<not> f_lt (Num 0) x) lat = []" using all by (simp add: filter_empty_conv)
    ultimately show ?thesis using True y by simp
  next
    case False
    then show ?thesis using Cons.IH [of ys'] Cons.prems(1) y by simp
  qed
qed simp

definition cdf_frac :: "nat \<Rightarrow> nat \<Rightarrow> f64" where
  "cdf_frac n k = f_div (f_of_int (int k)) (f_of_int (int n))"

lemma cdf_frac_value:
  assumes "0 < k" and "k \<le> n" and "n \<le> 2 ^ 53"
  shows "is_finite (cdf_frac n k) \<and> fval (cdf_frac n k) = rnd (of_nat k / of_nat n)"
proof -
  have "0 \<le> of_nat k / (of_nat n :: rat)" "of_nat k / (of_nat n :: rat) \<le> 1" using assms by simp_all
  then have "is_finite (fpack False (of_nat k / of_nat n)) \<and> fval (fpack False (of_nat k / of_nat n)) = rnd (of_nat k / of_nat n)"
    using fpack_bounded_int [of 0 "of_nat k / of_nat n" 1 False] by simp
  moreover have "cdf_frac n k = fpack False (of_nat k / of_nat n)"
    using assms f_div_of_int [of "int k" "int n"] by (simp add: cdf_frac_def)
  ultimately show ?thesis by simp
qed

lemma cdf_frac_bounds:
  assumes "0 < k" and "k \<le> n" and "n \<le> 2 ^ 53"
  shows "f_lt (Num 0) (cdf_frac n k) \<and> f_le (cdf_frac n k) (Num 1)"
proof -
  have "(2 :: rat) powi -53 \<le> 1 / 2 ^ 53" by (simp add: power_int_minus divide_simps)
  also have "\<dots> \<le> 1 / of_nat n" using assms by (intro divide_left_mono) (simp_all flip: of_nat_power add: of_nat_le_iff [symmetric])
  also have "\<dots> \<le> of_nat k / of_nat n" using assms by (intro divide_right_mono) simp_all
  finally have "rnd (2 powi -53) \<le> rnd (of_nat k / of_nat n)" by (rule rnd_mono)
  moreover have "rnd (2 powi -53) = 2 powi -53" by (rule rnd_powi_exact) simp
  moreover have "(0 :: rat) < 2 powi -53" by simp
  ultimately have "0 < rnd (of_nat k / of_nat n)" by linarith
  moreover have "rnd (of_nat k / of_nat n) \<le> of_int 1" using assms by (intro rnd_le_int) simp_all
  ultimately show ?thesis using cdf_frac_value [OF assms] by simp
qed

lemma cdf_frac_mono:
  assumes "0 < j" and "j \<le> k" and "k \<le> n" and "n \<le> 2 ^ 53"
  shows "f_le (cdf_frac n j) (cdf_frac n k)"
proof -
  have "of_nat j / (of_nat n :: rat) \<le> of_nat k / of_nat n" using assms(2) by (intro divide_right_mono) simp_all
  then have "rnd (of_nat j / of_nat n) \<le> rnd (of_nat k / of_nat n)" by (rule rnd_mono)
  then show ?thesis using cdf_frac_value [of j n] cdf_frac_value [of k n] assms by simp
qed

lemma cdf_frac_one: "0 < n \<Longrightarrow> n \<le> 2 ^ 53 \<Longrightarrow> cdf_frac n n = Num 1"
  using f_div_of_int [of "int n" "int n"] rnd_of_int_exact [of 1] by (simp add: cdf_frac_def fpack_def Let_def)

definition nonpositive :: "f64 list \<Rightarrow> nat" where
  "nonpositive xs = length (filter (\<lambda>x. \<not> f_lt (Num 0) x) xs)"

lemma sorted_sample:
  assumes "numpy_float np" and "no_nan values"
  shows "mset (np_sort np values) = mset values" and "sorted_wrt f_le (np_sort np values)"
    and "length (np_sort np values) = length values"
    and "length (filter (\<lambda>x. \<not> f_lt (Num 0) x) (np_sort np values)) = nonpositive values"
proof -
  show m: "mset (np_sort np values) = mset values" by (rule numpy_float.sort_mset [OF assms])
  show "sorted_wrt f_le (np_sort np values)" by (rule numpy_float.sort_sorted [OF assms])
  show "length (np_sort np values) = length values" using m by (rule mset_eq_length)
  have "mset (filter (\<lambda>x. \<not> f_lt (Num 0) x) (np_sort np values)) = mset (filter (\<lambda>x. \<not> f_lt (Num 0) x) values)" using m by simp
  then show "length (filter (\<lambda>x. \<not> f_lt (Num 0) x) (np_sort np values)) = nonpositive values"
    unfolding nonpositive_def by (rule mset_eq_length)
qed

lemma cdf_curve_points:
  assumes "numpy_float np" and "cell_latency_ms c = Inr values" and "no_nan values"
  shows "cdf_curve np styles cond c = res_bind (dict_item styles cond) (\<lambda>(color, dash).
    Inr (Curve (drop (nonpositive values) (np_sort np values)) (map (cdf_frac (length values)) [nonpositive values + 1..<length values + 1])
      color dash cond (if dash \<noteq> ''-'' then 3 else 2)))"
proof -
  note sorted = sorted_sample [OF assms(1,3)]
  have len: "length (map (cdf_frac (length values)) [1..<length values + 1]) = length (np_sort np values)"
    by (simp only: length_map length_upt sorted(3) add_diff_cancel_right')
  show ?thesis using filter_positive_drop [OF sorted(2) len]
    unfolding cdf_curve_def assms(2) res_bind_simps Let_def sorted(3,4) cdf_frac_def [symmetric]
    by (simp add: sorted(3) drop_zip drop_map map_fst_zip map_snd_zip del: upt_Suc)
qed

text \<open>
  Property C37. The curve of a condition in the CDF figure is its distribution function on the
  positive latencies: its abscissae are exactly the positive values of the pooled sample in
  ascending order (nothing else reaches the logarithmic axis), its ordinates rise with them within
  $(0, 1]$, each the share of packets up to that point with the non-positive ones counted in, and
  the last one is 1.
\<close>

theorem cdf_curve_distribution:
  assumes "numpy_float np" and "cell_latency_ms c = Inr values" and "no_nan values" and "length values \<le> 2 ^ 53"
    and "dict_get styles cond = Some (color, dash)"
  shows "\<exists>xs ys z. cdf_curve np styles cond c = Inr (Curve xs ys color dash cond z) \<and> length ys = length xs
    \<and> mset xs = filter_mset (f_lt (Num 0)) (mset values) \<and> sorted_wrt f_le xs
    \<and> (\<forall>i < length ys. ys ! i = f_div (f_of_int (int (nonpositive values + i + 1))) (f_of_int (int (length values)))
         \<and> f_lt (Num 0) (ys ! i) \<and> f_le (ys ! i) (Num 1)) \<and> sorted_wrt f_le ys \<and> (ys \<noteq> [] \<longrightarrow> last ys = Num 1)"
proof -
  let ?n = "length values" and ?m = "nonpositive values"
  define xs where "xs = drop ?m (np_sort np values)"
  define ys where "ys = map (cdf_frac ?n) [?m + 1..<?n + 1]"
  note sorted = sorted_sample [OF assms(1,3)]
  have "map fst (filter (\<lambda>(x, _). f_lt (Num 0) x) (zip (np_sort np values) (np_sort np values))) = xs"
    using filter_positive_drop [OF sorted(2) refl] by (simp add: xs_def drop_zip sorted(4))
  moreover have "map fst (filter (\<lambda>(x, _). f_lt (Num 0) x) (zip l l)) = filter (f_lt (Num 0)) l" for l by (induction l) auto
  ultimately have f: "filter (f_lt (Num 0)) (np_sort np values) = xs" by simp
  have "cdf_curve np styles cond c = Inr (Curve xs ys color dash cond (if dash \<noteq> ''-'' then 3 else 2))"
    using cdf_curve_points [OF assms(1-3), of styles cond] assms(5) by (simp add: dict_item_def xs_def ys_def del: upt_Suc)
  moreover have "length ys = length xs" by (simp add: xs_def ys_def sorted(3) del: upt_Suc)
  moreover have "mset xs = filter_mset (f_lt (Num 0)) (mset values)" using sorted(1) by (simp flip: f)
  moreover have "sorted_wrt f_le xs" using sorted(2) by (simp add: xs_def sorted_wrt_drop)
  moreover have nth: "ys ! i = cdf_frac ?n (?m + i + 1) \<and> ?m + i + 1 \<le> ?n" if "i < length ys" for i
    using that by (simp add: ys_def del: upt_Suc)
  moreover have "f_lt (Num 0) (ys ! i) \<and> f_le (ys ! i) (Num 1)" if "i < length ys" for i
    using nth [OF that] cdf_frac_bounds [of "?m + i + 1" ?n] assms(4) by simp
  moreover have "sorted_wrt f_le ys"
    using nth cdf_frac_mono assms(4) by (fastforce simp: sorted_wrt_iff_nth_less)
  moreover have "last ys = Num 1" if "ys \<noteq> []"
  proof -
    have mn: "?m < ?n" using that by (simp add: ys_def del: upt_Suc)
    then have "last ys = cdf_frac ?n ?n" by (simp add: ys_def)
    moreover have "cdf_frac ?n ?n = Num 1" by (rule cdf_frac_one [OF _ assms(4)]) (use mn in linarith)
    ultimately show ?thesis by simp
  qed
  ultimately show ?thesis by (auto simp: cdf_frac_def)
qed

lemma cdf_curve_distribution_witness:
  "\<exists>xs ys z. cdf_curve np_ref (condition_styles [''fifo'']) ''fifo'' \<lparr>cell_condition = ''fifo'', cell_runs = [sample_run]\<rparr>
     = Inr (Curve xs ys ''#9E9E9E'' ''--'' ''fifo'' z) \<and> mset xs = {#Num 1, Num 1, Num 1#}"
proof -
  let ?c = "\<lparr>cell_condition = ''fifo'', cell_runs = [sample_run]\<rparr>"
  have lat: "cell_latency_ms ?c = Inr [Num 1, Num 1, Num 1]" by (simp add: cell_latency_ms_def np_concatenate_def sample_run_def)
  have style: "dict_get (condition_styles [''fifo'']) ''fifo'' = Some (''#9E9E9E'', ''--'')" by code_simp
  have "no_nan [Num 1, Num 1, Num 1]" by (simp add: no_nan_def)
  from cdf_curve_distribution [OF np_ref.numpy_float_axioms lat this _ style] show ?thesis by (force simp: f_lt_def)
qed

section \<open>Lemmas on the percentile figure\<close>

lemma stat_value_positive: "stat_value np values st = Inr v \<Longrightarrow> is_nan v \<or> f_lt (Num 0) v"
  by (auto simp: stat_value_def res_bind_Inr_conv split: if_splits)

lemma stat_value_total:
  assumes "numpy_float np" and "moderate values" and "st \<in> {''p50'', ''p99'', ''max''}"
  shows "\<exists>v. stat_value np values st = Inr v"
proof -
  have f: "py_float ''50'' = Inr (Num 50)" "py_float ''99'' = Inr (Num 99)" by code_simp+
  show ?thesis
  proof (cases "values = []")
    case False
    have "\<exists>v. np_percentile np values (Num q) ''linear'' = Inr v" if "0 \<le> q" "q \<le> 100" for q
      using numpy_float.percentile_range [OF assms(1,2) False, of "Num q" "''linear''"] that by (auto simp: percentile_methods_def)
    from this [of 50] this [of 99] obtain a b where
      "np_percentile np values (Num 50) ''linear'' = Inr a" "np_percentile np values (Num 99) ''linear'' = Inr b" by auto
    then show ?thesis using assms(3) f False by (auto simp: stat_value_def percentile_def)
  qed (simp add: stat_value_def)
qed

text \<open>One group of bars: the bars, and a text over every bar that has a value.\<close>

definition bar_group :: "nat \<Rightarrow> nat \<Rightarrow> string \<Rightarrow> string \<Rightarrow> f64 list \<Rightarrow> draw list" where
  "bar_group n i st color values = Bar (bar_xs n i) values bar_width color st
     # map (\<lambda>(j, v). BarText i j (f_mul v (f_lit (11 / 10))) (bar_label v)) (filter (\<lambda>(j, v). \<not> is_nan v) (enumerate 0 values))"

lemma bar_texts_Cons:
  assumes "bar_texts i j (v # vs) hi = (t, ds)" and "\<not> is_nan v"
  obtains ds' where "bar_texts i (Suc j) vs (if f_lt hi v then v else hi) = (t, ds')"
    and "ds = BarText i j (f_mul v (f_lit (11 / 10))) (bar_label v) # ds'"
  using assms by (cases "bar_texts i (Suc j) vs (if f_lt hi v then v else hi)") (simp only: bar_texts.simps if_False Let_def prod.case, simp)

lemma bar_texts_spec:
  assumes "bar_texts i j vs hi = (t, ds)"
  shows "ds = map (\<lambda>(j, v). BarText i j (f_mul v (f_lit (11 / 10))) (bar_label v)) (filter (\<lambda>(j, v). \<not> is_nan v) (enumerate j vs))
    \<and> (\<not> is_nan hi \<longrightarrow> \<not> is_nan t \<and> f_le hi t \<and> (\<forall>v \<in> set vs. is_nan v \<or> f_le v t))"
  using assms
proof (induction vs arbitrary: j hi t ds)
  case (Cons v vs)
  show ?case
  proof (cases "is_nan v")
    case True
    then show ?thesis using Cons.IH [of "Suc j" hi t ds] Cons.prems by simp
  next
    case False
    let ?hi = "if f_lt hi v then v else hi"
    obtain ds' where r: "bar_texts i (Suc j) vs ?hi = (t, ds')" and ds: "ds = BarText i j (f_mul v (f_lit (11 / 10))) (bar_label v) # ds'"
      using bar_texts_Cons [OF Cons.prems False] .
    note IH = Cons.IH [OF r]
    have "\<not> is_nan t \<and> f_le hi t \<and> (\<forall>x \<in> set (v # vs). is_nan x \<or> f_le x t)" if hi: "\<not> is_nan hi"
    proof -
      have h: "\<not> is_nan ?hi" "f_le hi ?hi" "f_le v ?hi" using False hi f_le_linear [of hi v] by (auto simp: f_le_def)
      then have t: "\<not> is_nan t" "f_le ?hi t" "\<forall>x \<in> set vs. is_nan x \<or> f_le x t" using IH by blast+
      then show ?thesis using f_le_trans [OF h(2) t(2)] f_le_trans [OF h(3) t(2)] by simp
    qed
    moreover have "ds = map (\<lambda>(j, v). BarText i j (f_mul v (f_lit (11 / 10))) (bar_label v)) (filter (\<lambda>(j, v). \<not> is_nan v) (enumerate j (v # vs)))"
      using IH ds False by simp
    ultimately show ?thesis by blast
  qed
qed (simp add: f_le_refl)

lemma stat_bars_spec:
  assumes "stat_bars np cells names sts hi = Inr (t, ds)"
  shows "\<exists>vss. list_all2 (\<lambda>(i, st) vs. list_all2 (\<lambda>c v. res_bind (cell_of cells c) (\<lambda>x. res_bind (cell_latency_ms x) (\<lambda>lat. stat_value np lat st)) = Inr v) names vs) sts vss
    \<and> ds = concat (map2 (\<lambda>(i, st) vs. bar_group (length names) i st (the (dict_get STAT_COLORS st)) vs) sts vss)
    \<and> (\<not> is_nan hi \<longrightarrow> \<not> is_nan t \<and> f_le hi t \<and> (\<forall>vs \<in> set vss. \<forall>v \<in> set vs. is_nan v \<or> f_le v t))"
  using assms
proof (induction sts arbitrary: hi t ds)
  case (Cons x sts)
  obtain i st where x: "x = (i, st)" by (cases x)
  obtain vs color where v: "res_mapM (\<lambda>c. res_bind (cell_of cells c) (\<lambda>x. res_bind (cell_latency_ms x) (\<lambda>lat. stat_value np lat st))) names = Inr vs"
    and c: "dict_item STAT_COLORS st = Inr color"
    using Cons.prems x by (auto simp: res_bind_Inr_conv)
  obtain hi' texts where b: "bar_texts i 0 vs hi = (hi', texts)" by (cases "bar_texts i 0 vs hi")
  obtain ds' where r: "stat_bars np cells names sts hi' = Inr (t, ds')"
    and ds: "ds = Bar (bar_xs (length names) i) vs bar_width color st # texts @ ds'"
    using Cons.prems x v c b by (auto simp: res_bind_Inr_conv)
  from Cons.IH [OF r] obtain vss where IH:
    "list_all2 (\<lambda>(i, st) vs. list_all2 (\<lambda>c v. res_bind (cell_of cells c) (\<lambda>x. res_bind (cell_latency_ms x) (\<lambda>lat. stat_value np lat st)) = Inr v) names vs) sts vss"
    "ds' = concat (map2 (\<lambda>(i, st) vs. bar_group (length names) i st (the (dict_get STAT_COLORS st)) vs) sts vss)"
    "\<not> is_nan hi' \<longrightarrow> \<not> is_nan t \<and> f_le hi' t \<and> (\<forall>vs \<in> set vss. \<forall>v \<in> set vs. is_nan v \<or> f_le v t)" by blast
  have "Bar (bar_xs (length names) i) vs bar_width color st # texts = bar_group (length names) i st (the (dict_get STAT_COLORS st)) vs"
    using c bar_texts_spec [OF b] by (auto simp: bar_group_def dict_item_def split: option.splits)
  then have "ds = concat (map2 (\<lambda>(i, st) vs. bar_group (length names) i st (the (dict_get STAT_COLORS st)) vs) (x # sts) (vs # vss))"
    using ds IH(2) x by simp
  moreover have "\<not> is_nan t \<and> f_le hi t \<and> (\<forall>vs \<in> set (vs # vss). \<forall>v \<in> set vs. is_nan v \<or> f_le v t)" if "\<not> is_nan hi"
  proof -
    have h: "\<not> is_nan hi'" "f_le hi hi'" "\<forall>v \<in> set vs. is_nan v \<or> f_le v hi'" using bar_texts_spec [OF b] that by blast+
    then have t: "\<not> is_nan t" "f_le hi' t" "\<forall>vs \<in> set vss. \<forall>v \<in> set vs. is_nan v \<or> f_le v t" using IH(3) by blast+
    then show ?thesis using h f_le_trans by (metis set_ConsD)
  qed
  ultimately show ?case using IH(1) v x by (intro exI [of _ "vs # vss"]) (simp add: res_mapM_Inr_iff)
qed (simp add: f_le_refl)

lemma stat_bars_total:
  assumes "\<And>st c. st \<in> snd ` set sts \<Longrightarrow> c \<in> set names \<Longrightarrow> \<exists>v. res_bind (cell_of cells c) (\<lambda>x. res_bind (cell_latency_ms x) (\<lambda>lat. stat_value np lat st)) = Inr v"
    and "snd ` set sts \<subseteq> set (dict_keys STAT_COLORS)"
  shows "\<exists>r. stat_bars np cells names sts hi = Inr r"
  using assms
proof (induction sts arbitrary: hi)
  case (Cons x sts)
  obtain i st where x: "x = (i, st)" by (cases x)
  have "\<exists>vs. res_mapM (\<lambda>c. res_bind (cell_of cells c) (\<lambda>x. res_bind (cell_latency_ms x) (\<lambda>lat. stat_value np lat st))) names = Inr vs"
    by (rule res_mapM_total) (use Cons.prems(1) x in auto)
  then obtain vs where "res_mapM (\<lambda>c. res_bind (cell_of cells c) (\<lambda>x. res_bind (cell_latency_ms x) (\<lambda>lat. stat_value np lat st))) names = Inr vs" by blast
  moreover obtain color where "dict_item STAT_COLORS st = Inr color" using dict_item_key [of st STAT_COLORS] Cons.prems(2) x by auto
  moreover have "\<exists>r. stat_bars np cells names sts h = Inr r" for h by (rule Cons.IH) (use Cons.prems in auto)
  moreover obtain h texts where "bar_texts i 0 vs hi = (h, texts)" by (cases "bar_texts i 0 vs hi")
  moreover obtain t ds where "stat_bars np cells names sts h = Inr (t, ds)" using calculation(3) [of h] by auto
  ultimately show ?case using x by simp
qed simp

lemma cell_of_entry: "distinct (dict_keys cells) \<Longrightarrow> (c, x) \<in> set cells \<Longrightarrow> cell_of cells c = Inr x"
  by (simp add: cell_of_def dict_item_def dict_get_def dict_keys_def)

lemma percentile_bars_total:
  assumes "numpy_float np" and "distinct (dict_keys cells)" and "snd ` set sts \<subseteq> {''p50'', ''p99'', ''max''}"
    and "\<forall>(c, x) \<in> set cells. \<exists>lat. cell_latency_ms x = Inr lat \<and> moderate lat"
  shows "\<exists>hi ds. stat_bars np cells (dict_keys cells) sts (Num 0) = Inr (hi, ds)"
proof -
  have "\<exists>r. stat_bars np cells (dict_keys cells) sts (Num 0) = Inr r"
  proof (rule stat_bars_total)
    fix st c assume "st \<in> snd ` set sts" "c \<in> set (dict_keys cells)"
    then obtain x where x: "(c, x) \<in> set cells" and st: "st \<in> {''p50'', ''p99'', ''max''}" using assms(3) by (auto simp: dict_keys_def)
    then obtain lat where "cell_latency_ms x = Inr lat" "moderate lat" using assms(4) by fastforce
    then show "\<exists>v. res_bind (cell_of cells c) (\<lambda>x. res_bind (cell_latency_ms x) (\<lambda>lat. stat_value np lat st)) = Inr v"
      using stat_value_total [OF assms(1) _ st] cell_of_entry [OF assms(2) x] by simp
  qed (use assms(3) in \<open>auto simp: STAT_COLORS_def dict_keys_def\<close>)
  then show ?thesis by auto
qed

lemma bar_heights:
  assumes "distinct (dict_keys cells)"
    and "list_all2 (\<lambda>c v. res_bind (cell_of cells c) (\<lambda>x. res_bind (cell_latency_ms x) (\<lambda>lat. stat_value np lat st)) = Inr v) (dict_keys cells) vs"
  shows "list_all2 (\<lambda>(c, x) v. res_bind (cell_latency_ms x) (\<lambda>lat. stat_value np lat st) = Inr v) cells vs"
    and "\<forall>v \<in> set vs. is_nan v \<or> f_lt (Num 0) v"
proof -
  have "list_all2 (\<lambda>cx v. res_bind (cell_of cells (fst cx)) (\<lambda>x. res_bind (cell_latency_ms x) (\<lambda>lat. stat_value np lat st)) = Inr v) cells vs"
    using assms(2) by (simp add: dict_keys_def list_all2_map1)
  then show 1: "list_all2 (\<lambda>(c, x) v. res_bind (cell_latency_ms x) (\<lambda>lat. stat_value np lat st) = Inr v) cells vs"
    by (rule list_all2_mono_set) (use cell_of_entry [OF assms(1)] in auto)
  then show "\<forall>v \<in> set vs. is_nan v \<or> f_lt (Num 0) v"
    using stat_value_positive by (fastforce simp: list_all2_conv_all_nth in_set_conv_nth res_bind_Inr_conv)
qed

lemma bar_group_bar: "Bar xs vs w col lab \<in> set (bar_group n i st color values) \<Longrightarrow> vs = values"
  by (auto simp: bar_group_def)

text \<open>
  Property C38. The percentile figure is always drawn for finite latencies, and draws one group of
  bars for each of p50, p99 and max with one bar per condition, whose height is that statistic of
  the condition's pooled latencies; a height that is not positive is drawn as \<open>nan\<close> (no
  bar), and exactly the bars with a value carry a label. These are all the bars: every other call
  is listed, and none of them draws data, so that nothing but positive heights reaches the
  logarithmic axis. The upper limit of the axis is six times a bound on all bars.
\<close>

theorem percentile_figure_log_safe:
  assumes "numpy_float np" and "distinct (dict_keys cells)"
    and "\<forall>(c, x) \<in> set cells. \<exists>lat. cell_latency_ms x = Inr lat \<and> moderate lat"
  shows "\<exists>fig p50 p99 mx hi. plot_latency_percentiles np cells out_dir = Inr fig
    \<and> fig_calls fig = bar_group (length cells) 0 ''p50'' ''#1F3A5F'' p50 @ bar_group (length cells) 1 ''p99'' ''#4F81B0'' p99
        @ bar_group (length cells) 2 ''max'' ''#B5CBE3'' mx @ [LogY] @ (if f_lt (Num 0) hi then [YlimTop (f_mul hi (Num 6))] else [])
        @ [XTicks (map (\<lambda>k. f_of_int (int k)) [0..<length cells]) (dict_keys cells),
           AxisText ''ylabel'' ''one-way latency (ms, log)'', AxisText ''title'' ''TS flow latency per condition'',
           GridOff ''x'', Legend [(''loc'', ''upper right''), (''ncol'', ''3'')], TightLayout]
    \<and> (\<forall>xs vs w col lab. Bar xs vs w col lab \<in> set (fig_calls fig) \<longrightarrow> vs \<in> {p50, p99, mx} \<and> (\<forall>v \<in> set vs. is_nan v \<or> f_lt (Num 0) v))
    \<and> (\<forall>(st, vs) \<in> {(''p50'', p50), (''p99'', p99), (''max'', mx)}.
         list_all2 (\<lambda>(c, x) v. res_bind (cell_latency_ms x) (\<lambda>lat. stat_value np lat st) = Inr v) cells vs
         \<and> (\<forall>v \<in> set vs. is_nan v \<or> f_lt (Num 0) v \<and> f_le v hi))"
proof -
  let ?sts = "[(0 :: nat, ''p50''), (1, ''p99''), (2, ''max'')]" and ?names = "dict_keys cells"
  let ?val = "\<lambda>st c. res_bind (cell_of cells c) (\<lambda>x. res_bind (cell_latency_ms x) (\<lambda>lat. stat_value np lat st))"
  obtain hi ds where r: "stat_bars np cells ?names ?sts (Num 0) = Inr (hi, ds)"
    using percentile_bars_total [OF assms(1,2) _ assms(3), of ?sts] by auto
  from stat_bars_spec [OF r] obtain vss where
    v: "list_all2 (\<lambda>(i, st) vs. list_all2 (\<lambda>c v. ?val st c = Inr v) ?names vs) ?sts vss"
    and ds: "ds = concat (map2 (\<lambda>(i, st) vs. bar_group (length ?names) i st (the (dict_get STAT_COLORS st)) vs) ?sts vss)"
    and le: "\<forall>vs \<in> set vss. \<forall>v \<in> set vs. is_nan v \<or> f_le v hi" by (auto simp del: One_nat_def)
  from v obtain p50 p99 mx where vss: "vss = [p50, p99, mx]" by (auto simp: list_all2_Cons1)
  have colors: "the (dict_get STAT_COLORS ''p50'') = ''#1F3A5F''" "the (dict_get STAT_COLORS ''p99'') = ''#4F81B0''"
    "the (dict_get STAT_COLORS ''max'') = ''#B5CBE3''" by code_simp+
  have sts: "enumerate 0 [''p50'', ''p99'', ''max''] = ?sts" by (simp add: numeral_2_eq_2)
  let ?rest = "[XTicks (map (\<lambda>k. f_of_int (int k)) [0..<length cells]) ?names,
           AxisText ''ylabel'' ''one-way latency (ms, log)'', AxisText ''title'' ''TS flow latency per condition'',
           GridOff ''x'', Legend [(''loc'', ''upper right''), (''ncol'', ''3'')], TightLayout]"
  have "\<exists>fig. plot_latency_percentiles np cells out_dir = Inr fig
    \<and> fig_calls fig = ds @ [LogY] @ (if f_lt (Num 0) hi then [YlimTop (f_mul hi (Num 6))] else []) @ ?rest"
    unfolding plot_latency_percentiles_def Let_def sts r res_bind_simps prod.case by (simp add: dict_keys_def)
  then obtain fig where fig: "plot_latency_percentiles np cells out_dir = Inr fig"
    "fig_calls fig = ds @ [LogY] @ (if f_lt (Num 0) hi then [YlimTop (f_mul hi (Num 6))] else []) @ ?rest" by blast
  have ds': "ds = bar_group (length cells) 0 ''p50'' ''#1F3A5F'' p50 @ bar_group (length cells) 1 ''p99'' ''#4F81B0'' p99
      @ bar_group (length cells) 2 ''max'' ''#B5CBE3'' mx"
    using ds colors unfolding vss by (simp add: dict_keys_def)
  have vals: "\<forall>(st, vs) \<in> {(''p50'', p50), (''p99'', p99), (''max'', mx)}.
      list_all2 (\<lambda>(c, x) v. res_bind (cell_latency_ms x) (\<lambda>lat. stat_value np lat st) = Inr v) cells vs
      \<and> (\<forall>v \<in> set vs. is_nan v \<or> f_lt (Num 0) v \<and> f_le v hi)"
    using bar_heights [OF assms(2), of np "''p50''" p50] bar_heights [OF assms(2), of np "''p99''" p99]
      bar_heights [OF assms(2), of np "''max''" mx] v le unfolding vss by simp blast
  have bars: "vs \<in> {p50, p99, mx} \<and> (\<forall>v \<in> set vs. is_nan v \<or> f_lt (Num 0) v)" if "Bar xs vs w col lab \<in> set (fig_calls fig)" for xs vs w col lab
  proof -
    have "vs \<in> {p50, p99, mx}" using that unfolding fig(2) ds' by (auto dest: bar_group_bar split: if_splits)
    then show ?thesis using vals by auto
  qed
  show ?thesis
    by (rule exI [of _ fig], rule exI [of _ p50], rule exI [of _ p99], rule exI [of _ mx], rule exI [of _ hi])
      (intro conjI fig(1) vals allI impI bars, simp only: fig(2) ds' append_assoc)
qed

lemma percentile_figure_log_safe_witness:
  "\<exists>fig. plot_latency_percentiles np_ref [(''fifo'', \<lparr>cell_condition = ''fifo'', cell_runs = [sample_run]\<rparr>)] ''out'' = Inr fig \<and> LogY \<in> set (fig_calls fig)"
proof -
  let ?cells = "[(''fifo'', \<lparr>cell_condition = ''fifo'', cell_runs = [sample_run]\<rparr>)]"
  have "moderate [Num 1, Num 1, Num 1]" using moderate_of_ints [of "[1, 1, 1]"] by simp
  then have "\<forall>(c, x) \<in> set ?cells. \<exists>lat. cell_latency_ms x = Inr lat \<and> moderate lat"
    by (simp add: cell_latency_ms_def np_concatenate_def sample_run_def)
  moreover have "distinct (dict_keys ?cells)" by (simp add: dict_keys_def)
  ultimately show ?thesis using percentile_figure_log_safe [OF np_ref.numpy_float_axioms, of ?cells "''out''"] by fastforce
qed

section \<open>Lemmas on styles\<close>

definition unknown :: "string \<Rightarrow> bool" where
  "unknown c = (dict_get KNOWN_STYLES c = None)"

definition style_of :: "nat \<Rightarrow> string list \<Rightarrow> string \<Rightarrow> string \<times> string" where
  "style_of extra cs c = (case dict_get KNOWN_STYLES c of
      Some st \<Rightarrow> st
    | None \<Rightarrow> (FALLBACK_COLORS ! ((extra + length (filter unknown (takeWhile (\<lambda>x. x \<noteq> c) cs))) mod 5), ''-''))"

lemma styles_loop_get:
  assumes "distinct cs"
  shows "dict_get (styles_loop cs extra styles) c = (if c \<in> set cs then Some (style_of extra cs c) else dict_get styles c)"
  using assms
proof (induction cs arbitrary: extra styles)
  case (Cons x cs)
  have five: "length FALLBACK_COLORS = 5" by (simp add: FALLBACK_COLORS_def)
  show ?case
  proof (cases "dict_get KNOWN_STYLES x")
    case None
    then show ?thesis using Cons five by (auto simp: style_of_def od.get_put unknown_def split: option.splits)
  next
    case (Some st)
    then show ?thesis using Cons five by (auto simp: style_of_def od.get_put unknown_def split: option.splits)
  qed
qed simp

lemma rank_inj:
  assumes "distinct cs" and "a \<in> set cs" and "b \<in> set cs" and "P a" and "P b" and "a \<noteq> b"
  shows "length (filter P (takeWhile (\<lambda>x. x \<noteq> a) cs)) \<noteq> length (filter P (takeWhile (\<lambda>x. x \<noteq> b) cs))"
  using assms by (induction cs) auto

lemma rank_less: "a \<in> set cs \<Longrightarrow> P a \<Longrightarrow> length (filter P (takeWhile (\<lambda>x. x \<noteq> a) cs)) < length (filter P cs)"
  by (induction cs) auto

text \<open>
  Every condition has a style, in the order of the data set; the testbed's five
  conditions have their fixed ones, and as long as there are at most five others no two conditions
  share colour and dash.
\<close>

theorem condition_styles_distinct:
  assumes "distinct cs" and "length (filter unknown cs) \<le> 5"
  shows "(\<forall>c \<in> set cs. dict_get (condition_styles cs) c \<noteq> None)
    \<and> (\<forall>c \<in> set cs. \<forall>st. dict_get KNOWN_STYLES c = Some st \<longrightarrow> dict_get (condition_styles cs) c = Some st)
    \<and> inj_on (dict_get (condition_styles cs)) (set cs)"
proof -
  note get = styles_loop_get [OF assms(1), of 0 "[]", folded condition_styles_def]
  let ?rank = "\<lambda>c. length (filter unknown (takeWhile (\<lambda>x. x \<noteq> c) cs))"
  have known: "snd ` set KNOWN_STYLES \<inter> (\<lambda>col. (col, ''-'')) ` set FALLBACK_COLORS = {}" "inj_on snd (set KNOWN_STYLES)"
    by (simp_all add: KNOWN_STYLES_def FALLBACK_COLORS_def)
  have dist: "distinct FALLBACK_COLORS" "length FALLBACK_COLORS = 5" by (simp_all add: FALLBACK_COLORS_def)
  have style: "style_of 0 cs c = (if unknown c then (FALLBACK_COLORS ! ?rank c, ''-'') else the (dict_get KNOWN_STYLES c))" if "c \<in> set cs" for c
    using rank_less [of c cs unknown] that assms(2) by (auto simp: style_of_def unknown_def split: option.splits)
  have mem: "(c, the (dict_get KNOWN_STYLES c)) \<in> set KNOWN_STYLES" if "\<not> unknown c" for c
    using that by (auto simp: unknown_def dict_get_def dest: map_of_SomeD)
  have rank: "?rank c < 5" if "c \<in> set cs" "unknown c" for c using rank_less [of c cs unknown] that assms(2) by simp
  have fb: "style_of 0 cs c \<in> (\<lambda>col. (col, ''-'')) ` set FALLBACK_COLORS" if "c \<in> set cs" "unknown c" for c
    using style [OF that(1)] rank [OF that] that(2) dist(2) by simp
  have kn: "style_of 0 cs c \<in> snd ` set KNOWN_STYLES" if "c \<in> set cs" "\<not> unknown c" for c
    using style [OF that(1)] imageI [OF mem [OF that(2)], of snd] that(2) by simp
  have "inj_on (style_of 0 cs) (set cs)"
  proof (rule inj_onI)
    fix a b assume ab: "a \<in> set cs" "b \<in> set cs" "style_of 0 cs a = style_of 0 cs b"
    consider "unknown a" "unknown b" | "unknown a" "\<not> unknown b" | "\<not> unknown a" "unknown b" | "\<not> unknown a" "\<not> unknown b" by blast
    then show "a = b"
    proof cases
      case 1
      then have "?rank a = ?rank b" using ab style rank dist by (simp add: nth_eq_iff_index_eq)
      then show ?thesis using rank_inj [OF assms(1) ab(1,2) 1] by blast
    next
      case 2
      then show ?thesis using fb [OF ab(1)] kn [OF ab(2)] ab(3) known(1) by auto
    next
      case 3
      then show ?thesis using fb [OF ab(2)] kn [OF ab(1)] ab(3) known(1) by auto
    next
      case 4
      then have "snd (a, the (dict_get KNOWN_STYLES a)) = snd (b, the (dict_get KNOWN_STYLES b))" using ab style by simp
      from inj_onD [OF known(2) this mem [OF 4(1)] mem [OF 4(2)]] show ?thesis by simp
    qed
  qed
  then show ?thesis using get by (auto simp: inj_on_def style_of_def)
qed

lemma condition_styles_distinct_witness:
  "inj_on (dict_get (condition_styles [''fifo'', ''mystery'', ''other''])) (set [''fifo'', ''mystery'', ''other''])"
proof -
  have "distinct [''fifo'', ''mystery'', ''other'']" by simp
  moreover have "length (filter unknown [''fifo'', ''mystery'', ''other'']) \<le> 5" by code_simp
  ultimately show ?thesis using condition_styles_distinct by blast
qed

end
