(* ===== verification/Cli.thy ===== *)
theory Cli
  imports Plots Options
begin

text \<open>
  \<open>analysis/tsn_analysis/cli.py\<close>: the three subcommands and the exit status of the tool.
  The parsed arguments are records, the standard streams what \<open>reconfigure\<close> does to them; the directory is what the file system says of it (not a
  directory, or its files). A command is the list of its effects with the value it returns or the
  exception it raises, and \<open>None\<close> when it does not end. The lemmas show which failures end
  in status 2 with a message instead of a traceback, that a run that succeeds is silent on the
  error stream, and that JSON asked for on the standard output is all that is written there.
\<close>

section \<open>Arguments\<close>

record summary_args =
  sa_results_dir :: string
  sa_baseline :: "string option"
  sa_json :: "string option"
  sa_markdown :: "string option"
  sa_n_boot :: int
  sa_ci :: f64
  sa_seed :: int

record plot_args =
  pa_results_dir :: string
  pa_out :: string

record compare_args =
  ca_results_dir :: string
  ca_baseline :: string
  ca_against :: string
  ca_stat :: string
  ca_metric :: string
  ca_n_boot :: int
  ca_ci :: f64
  ca_seed :: int

datatype command = CmdSummary summary_args | CmdPlot plot_args | CmdCompare compare_args

definition results_dir :: "command \<Rightarrow> string" where
  "results_dir cmd = (case cmd of CmdSummary a \<Rightarrow> sa_results_dir a | CmdPlot a \<Rightarrow> pa_results_dir a | CmdCompare a \<Rightarrow> ca_results_dir a)"

text \<open>
  The text of a \<open>Path\<close>: repeated separators and \<open>.\<close> components are dropped, a root of
  exactly two separators stays.
\<close>

fun split_slash :: "string \<Rightarrow> string list" where
  "split_slash [] = [[]]"
| "split_slash (c # cs) = (if c = CHR ''/'' then [] # split_slash cs
     else case split_slash cs of p # ps \<Rightarrow> (c # p) # ps | [] \<Rightarrow> [[c]])"

definition path_str :: "string \<Rightarrow> string" where
  "path_str t =
     (let n = length (takeWhile (\<lambda>c. c = CHR ''/'') t);
          root = (if n = 0 then [] else if n = 2 then ''//'' else ''/'');
          s = root @ join ''/'' (filter (\<lambda>p. p \<noteq> [] \<and> p \<noteq> ''.'') (split_slash t))
      in if s = [] then ''.'' else s)"

definition type_path :: "string \<Rightarrow> string option" where
  "type_path t = Some (path_str t)"

definition optional :: "(string \<Rightarrow> 'a option) \<Rightarrow> string \<Rightarrow> 'a option option" where
  "optional conv t = map_option Some (conv t)"

text \<open>
  The subcommands with their options: the subcommand's name, the text of its results directory and
  the options given.
\<close>

definition cli_options :: "string \<Rightarrow> string \<Rightarrow> given \<Rightarrow> command option" where
  "cli_options sub dir g =
     (if sub = ''summary'' then
        Option.bind (opt_default (optional type_str) None ''--baseline'' g) (\<lambda>baseline.
        Option.bind (opt_default (optional type_path) None ''--json'' g) (\<lambda>json.
        Option.bind (opt_default (optional type_path) None ''--markdown'' g) (\<lambda>markdown.
        Option.bind (opt_default type_int 2000 ''--n-boot'' g) (\<lambda>n_boot.
        Option.bind (opt_default type_float (f_lit (95 / 100)) ''--ci'' g) (\<lambda>ci.
        Option.bind (opt_default type_int 0 ''--seed'' g) (\<lambda>seed.
        Some (CmdSummary \<lparr>sa_results_dir = path_str dir, sa_baseline = baseline, sa_json = json, sa_markdown = markdown,
          sa_n_boot = n_boot, sa_ci = ci, sa_seed = seed\<rparr>)))))))
      else if sub = ''plot'' then
        Option.bind (opt_required type_path ''--out'' g) (\<lambda>out. Some (CmdPlot \<lparr>pa_results_dir = path_str dir, pa_out = out\<rparr>))
      else if sub = ''compare'' then
        Option.bind (opt_required type_str ''--baseline'' g) (\<lambda>baseline.
        Option.bind (opt_required type_str ''--against'' g) (\<lambda>against.
        Option.bind (opt_default type_str ''p99'' ''--stat'' g) (\<lambda>stat.
        Option.bind (opt_default (type_choice [''latency'', ''jitter'']) ''latency'' ''--metric'' g) (\<lambda>metric.
        Option.bind (opt_default type_int 2000 ''--n-boot'' g) (\<lambda>n_boot.
        Option.bind (opt_default type_float (f_lit (95 / 100)) ''--ci'' g) (\<lambda>ci.
        Option.bind (opt_default type_int 0 ''--seed'' g) (\<lambda>seed.
        Some (CmdCompare \<lparr>ca_results_dir = path_str dir, ca_baseline = baseline, ca_against = against, ca_stat = stat,
          ca_metric = metric, ca_n_boot = n_boot, ca_ci = ci, ca_seed = seed\<rparr>))))))))
      else None)"

text \<open>The two metrics the comparison distinguishes are the only ones a command line can ask for.\<close>

lemma cli_metric_choices: "cli_options sub dir g = Some (CmdCompare a) \<Longrightarrow> ca_metric a \<in> {''latency'', ''jitter''}"
  by (auto simp: cli_options_def split: if_splits bind_splits dest!: opt_default_choice)

lemma cli_results_dir: "cli_options sub dir g = Some cmd \<Longrightarrow> results_dir cmd = path_str dir"
  by (auto simp: cli_options_def results_dir_def split: if_splits bind_splits)

section \<open>Texts\<close>

text \<open>
  \<open>repr\<close> of a text and of a list of texts: single quotes unless the text has single quotes
  and no double ones; backslash, the quote, control characters and the unprintable ones escaped.
\<close>

definition repr_char :: "char \<Rightarrow> char \<Rightarrow> string" where
  "repr_char q c =
     (let n = of_char c :: nat
      in if c = q \<or> c = CHR 0x5C then [CHR 0x5C, c]
         else if n = 9 then [CHR 0x5C, CHR ''t'']
         else if n = 10 then [CHR 0x5C, CHR ''n'']
         else if n = 13 then [CHR 0x5C, CHR ''r'']
         else if n < 32 \<or> 127 \<le> n \<and> n \<le> 160 \<or> n = 173 then [CHR 0x5C, CHR ''x'', hex_digit (n div 16), hex_digit (n mod 16)]
         else [c])"

definition repr_str :: "string \<Rightarrow> string" where
  "repr_str s =
     (let q = (if CHR 0x27 \<in> set s \<and> CHR 0x22 \<notin> set s then CHR 0x22 else CHR 0x27)
      in q # concat (map (repr_char q) s) @ [q])"

definition repr_list :: "string list \<Rightarrow> string" where
  "repr_list xs = ''['' @ join '', '' (map repr_str xs) @ '']''"

definition ljust :: "nat \<Rightarrow> string \<Rightarrow> string" where
  "ljust w s = s @ replicate (w - length s) (CHR '' '')"

definition rjust :: "nat \<Rightarrow> string \<Rightarrow> string" where
  "rjust w s = replicate (w - length s) (CHR '' '') @ s"

section \<open>The subcommands\<close>

definition emit :: "(effect \<Rightarrow> unit res) \<Rightarrow> string \<Rightarrow> string option \<Rightarrow> bool \<Rightarrow> unit io" where
  "emit os text target stdout_default = (case target of
      None \<Rightarrow> if stdout_default then perform os (Stdout text) else io_return ()
    | Some t \<Rightarrow>
        if t = ''-'' then perform os (Stdout text)
        else perform_all os [Mkdir (path_parent t), WriteFile t text, Stdout (''wrote '' @ t)])"

definition write_summary :: "(effect \<Rightarrow> unit res) \<Rightarrow> summary_args \<Rightarrow> summary \<Rightarrow> int io" where
  "write_summary os a s =
     io_bind ([], render_markdown s) (\<lambda>md.
     io_bind (emit os md (sa_markdown a) (sa_json a = None)) (\<lambda>_.
     io_bind (case sa_json a of
         None \<Rightarrow> io_return ()
       | Some j \<Rightarrow>
           if j = ''-'' then io_bind ([], to_json s) (\<lambda>t. perform os (Stdout t))
           else io_bind (perform os (Mkdir (path_parent j))) (\<lambda>_.
                io_bind ([], write_json s j) (\<lambda>(p, t).
                io_bind (perform os (WriteFile p t)) (\<lambda>_. perform os (Stdout (''wrote '' @ j)))))) (\<lambda>_.
     io_return 0)))"

definition cmd_summary ::
  "'g np_random \<Rightarrow> numpy \<Rightarrow> scipy \<Rightarrow> (effect \<Rightarrow> unit res) \<Rightarrow> (string \<times> string) list \<Rightarrow> summary_args \<Rightarrow> int io option" where
  "cmd_summary rn np sp os files a =
     (case build_summary rn np sp (sa_results_dir a) files (sa_baseline a) (sa_n_boot a) (sa_ci a) (sa_seed a) ''linear'' of
        None \<Rightarrow> None
      | Some (Inl e) \<Rightarrow> Some ([], Inl e)
      | Some (Inr s) \<Rightarrow> Some (write_summary os a s))"

definition cmd_plot :: "numpy \<Rightarrow> (effect \<Rightarrow> unit res) \<Rightarrow> (string \<times> string) list \<Rightarrow> plot_args \<Rightarrow> int io" where
  "cmd_plot np os files a =
     io_bind (plot_all os np files (pa_out a)) (\<lambda>paths.
     io_bind (perform_all os (map (\<lambda>p. Stdout (''wrote '' @ p)) paths)) (\<lambda>_. io_return 0))"

text \<open>\<open>print\<close> of the two sides and the verdict; a missing key of a side raises.\<close>

definition side_line :: "string \<Rightarrow> (string, f64) dict \<Rightarrow> string res" where
  "side_line name side =
     res_bind (dict_item side ''point'') (\<lambda>p. res_bind (dict_item side ''low'') (\<lambda>l. res_bind (dict_item side ''high'') (\<lambda>h.
     Inr (''  '' @ ljust 20 name @ rjust 12 (fmt_fixed 3 p) @ ''  ['' @ fmt_fixed 3 l @ '', '' @ fmt_fixed 3 h @ '']''))))"

definition print_comparison :: "(effect \<Rightarrow> unit res) \<Rightarrow> compare_args \<Rightarrow> string \<Rightarrow> comparison \<Rightarrow> int io" where
  "print_comparison os a u r =
     io_bind (perform os (Stdout (ca_metric a @ '' '' @ ca_stat a @ '' ('' @ u @ ''), '' @ fmt_fixed 0 (f_mul (ca_ci a) (Num 100)) @ ''% bootstrap CI''))) (\<lambda>_.
     io_bind ([], side_line (ca_baseline a) (cmp_baseline r)) (\<lambda>l1.
     io_bind (perform os (Stdout l1)) (\<lambda>_.
     io_bind ([], side_line (ca_against a) (cmp_proposed r)) (\<lambda>l2.
     io_bind (perform os (Stdout l2)) (\<lambda>_.
     io_bind (perform os (Stdout (''  improvement '' @ fmt_fixed_signed 1 (improvement_pct r) @ ''%  p-value '' @ fmt_e 2 (p_value r)
       @ ''  delta '' @ fmt_fixed_signed 3 (cmp_cliffs_delta r) @ '' ('' @ cmp_effect r @ '')''))) (\<lambda>_.
     io_return 0))))))"

definition cmd_compare ::
  "'g np_random \<Rightarrow> numpy \<Rightarrow> scipy \<Rightarrow> (effect \<Rightarrow> unit res) \<Rightarrow> (string \<times> string) list \<Rightarrow> compare_args \<Rightarrow> int io option" where
  "cmd_compare rn np sp os files a =
     (case build_dataset files of
        Inl e \<Rightarrow> Some ([], Inl e)
      | Inr cells \<Rightarrow>
          (case filter (\<lambda>name. name \<notin> set (dict_keys cells)) [ca_baseline a, ca_against a] of
             name # _ \<Rightarrow> Some (io_bind (perform os (Stderr
                 (''error: condition '' @ repr_str name @ '' not found; available: '' @ repr_list (dict_keys cells)))) (\<lambda>_. io_return 2))
           | [] \<Rightarrow>
               let (attr, u) = (if ca_metric a = ''latency'' then (''latency_ms'', ''ms'') else (''jitter_us'', ''us''))
               in (case lres_bind (Some (res_bind (cell_of cells (ca_baseline a)) (\<lambda>c. cell_attr c attr))) (\<lambda>b.
                        lres_bind (Some (res_bind (cell_of cells (ca_against a)) (\<lambda>c. cell_attr c attr))) (\<lambda>p.
                        compare rn np sp b p (StatName (ca_stat a)) (ca_n_boot a) (ca_ci a) (ca_seed a) ''linear'')) of
                     None \<Rightarrow> None
                   | Some (Inl e) \<Rightarrow> Some ([], Inl e)
                   | Some (Inr r) \<Rightarrow> Some (print_comparison os a u r))))"

section \<open>Entry point\<close>

text \<open>
  A standard stream: its encoding and error handler, and what its \<open>reconfigure\<close> method does
  when called (\<open>None\<close>: the stream has no such method).
\<close>

record text_stream =
  ts_encoding :: string
  ts_errors :: string
  ts_reconfigure :: "unit res option"

definition configure_stream :: "text_stream \<Rightarrow> text_stream res" where
  "configure_stream s = (case ts_reconfigure s of
      None \<Rightarrow> Inr s
    | Some (Inr _) \<Rightarrow> Inr (s\<lparr>ts_encoding := ''utf-8'', ts_errors := ''replace''\<rparr>)
    | Some (Inl e) \<Rightarrow> (case e of ValueError _ \<Rightarrow> Inr s | OSError _ \<Rightarrow> Inr s | _ \<Rightarrow> Inl e))"

definition configure_stdout :: "text_stream \<times> text_stream \<Rightarrow> (text_stream \<times> text_stream) res" where
  "configure_stdout streams = (case streams of (out, err) \<Rightarrow>
     res_bind (configure_stream out) (\<lambda>out'. res_bind (configure_stream err) (\<lambda>err'. Inr (out', err'))))"

definition handler ::
  "'g np_random \<Rightarrow> numpy \<Rightarrow> scipy \<Rightarrow> (effect \<Rightarrow> unit res) \<Rightarrow> (string \<times> string) list \<Rightarrow> command \<Rightarrow> int io option" where
  "handler rn np sp os files cmd = (case cmd of
      CmdSummary a \<Rightarrow> cmd_summary rn np sp os files a
    | CmdPlot a \<Rightarrow> Some (cmd_plot np os files a)
    | CmdCompare a \<Rightarrow> cmd_compare rn np sp os files a)"

text \<open>\<open>except ValueError\<close>: the message on the error stream and status 2; anything else escapes.\<close>

definition catch_value_error :: "(effect \<Rightarrow> unit res) \<Rightarrow> int io \<Rightarrow> int io" where
  "catch_value_error os m = (case m of
      (effs, Inl (ValueError msg)) \<Rightarrow> (case io_bind (perform os (Stderr (''error: '' @ msg))) (\<lambda>_. io_return 2) of (effs', r) \<Rightarrow> (effs @ effs', r))
    | _ \<Rightarrow> m)"

definition cli_main ::
  "'g np_random \<Rightarrow> numpy \<Rightarrow> scipy \<Rightarrow> (effect \<Rightarrow> unit res) \<Rightarrow> (string \<Rightarrow> (string \<times> string) list option) \<Rightarrow> text_stream \<times> text_stream \<Rightarrow> command
     \<Rightarrow> int io option" where
  "cli_main rn np sp os fs streams cmd = (case configure_stdout streams of
      Inl e \<Rightarrow> Some ([], Inl e)
    | Inr _ \<Rightarrow>
        (case fs (results_dir cmd) of
           None \<Rightarrow> Some (io_bind (perform os (Stderr (''error: results directory not found: '' @ results_dir cmd))) (\<lambda>_. io_return 2))
         | Some files \<Rightarrow> map_option (catch_value_error os) (handler rn np sp os files cmd)))"

section \<open>Lemmas\<close>

text \<open>
  Closed or odd streams do not stop the tool: if \<open>reconfigure\<close> raises at all, then a
  \<open>ValueError\<close> or an \<open>OSError\<close>, and every stream that can be reconfigured replaces what it
  cannot encode.
\<close>

definition stream_ok :: "text_stream \<Rightarrow> bool" where
  "stream_ok s = (case ts_reconfigure s of
      Some (Inl (ValueError _)) \<Rightarrow> True | Some (Inl (OSError _)) \<Rightarrow> True | Some (Inl _) \<Rightarrow> False | _ \<Rightarrow> True)"

lemma configure_stream_ok:
  assumes "stream_ok s"
  shows "\<exists>s'. configure_stream s = Inr s' \<and> (ts_reconfigure s = Some (Inr ()) \<longrightarrow> ts_errors s' = ''replace'')"
proof (cases "ts_reconfigure s")
  case (Some r)
  then show ?thesis
  proof (cases r)
    case (Inl e)
    then show ?thesis using assms Some by (cases e) (simp_all add: stream_ok_def configure_stream_def)
  qed (simp add: configure_stream_def)
qed (simp add: configure_stream_def)

lemma configure_stdout_ok:
  assumes "stream_ok (fst streams)" and "stream_ok (snd streams)"
  shows "\<exists>streams'. configure_stdout streams = Inr streams'"
  using configure_stream_ok [OF assms(1)] configure_stream_ok [OF assms(2)]
  by (auto simp: configure_stdout_def split_def)

fun is_stderr :: "effect \<Rightarrow> bool" where
  "is_stderr (Stderr m) = True"
| "is_stderr _ = False"

text \<open>Nothing on the error stream; and a status in a given set, if any.\<close>

definition silent :: "'a io \<Rightarrow> bool" where
  "silent m = list_all (\<lambda>e. \<not> is_stderr e) (fst m)"

definition ends_with :: "'a set \<Rightarrow> 'a io \<Rightarrow> bool" where
  "ends_with V m = (\<forall>x. snd m = Inr x \<longrightarrow> x \<in> V)"

named_theorems io_intros \<open>introduction rules for what a command writes and returns\<close>

lemma silent_return [io_intros]: "silent (io_return x)"
  by (simp add: silent_def)

lemma silent_pure [io_intros]: "silent ([], r)"
  by (simp add: silent_def)

lemma silent_bind [io_intros]: "silent m \<Longrightarrow> (\<And>x. silent (f x)) \<Longrightarrow> silent (io_bind m f)"
  by (cases m, cases "snd m") (auto simp: silent_def)

lemma silent_perform [io_intros]: "\<not> is_stderr e \<Longrightarrow> silent (perform os e)"
  by (simp add: silent_def perform_def split: sum.splits)

lemma silent_perform_all [io_intros]: "list_all (\<lambda>e. \<not> is_stderr e) es \<Longrightarrow> silent (perform_all os es)"
  by (induction es) (auto intro!: io_intros simp del: io_return_simp)

lemma ends_with_return [io_intros]: "x \<in> V \<Longrightarrow> ends_with V (io_return x)"
  by (simp add: ends_with_def)

lemma ends_with_bind [io_intros]: "(\<And>x. ends_with V (f x)) \<Longrightarrow> ends_with V (io_bind m f)"
  by (cases m, cases "snd m") (auto simp: ends_with_def)

lemma write_summary_ends: "silent (write_summary os a s) \<and> ends_with {0} (write_summary os a s)"
  unfolding write_summary_def emit_def
  by (auto intro!: io_intros simp del: io_return_simp split: option.splits prod.splits)

lemma plot_all_silent: "silent (plot_all os np files out_dir)"
  unfolding plot_all_def by (auto intro!: io_intros simp del: io_return_simp)

lemma cmd_plot_ends: "silent (cmd_plot np os files a) \<and> ends_with {0} (cmd_plot np os files a)"
  unfolding cmd_plot_def by (auto intro!: io_intros plot_all_silent simp del: io_return_simp simp: list_all_iff)

lemma print_comparison_ends: "silent (print_comparison os a u r) \<and> ends_with {0} (print_comparison os a u r)"
  unfolding print_comparison_def by (auto intro!: io_intros simp del: io_return_simp)

lemma cmd_summary_ends: "\<exists>m. cmd_summary rn np sp os files a = Some m \<and> silent m \<and> ends_with {0} m"
proof -
  obtain r where "build_summary rn np sp (sa_results_dir a) files (sa_baseline a) (sa_n_boot a) (sa_ci a) (sa_seed a) ''linear'' = Some r"
    using build_summary_returns by blast
  then show ?thesis using write_summary_ends
    by (cases r) (auto simp: cmd_summary_def ends_with_def intro: silent_pure)
qed

lemma cmd_compare_ends:
  "(\<exists>m. cmd_compare rn np sp os files a = Some m \<and> silent m \<and> ends_with {0} m)
   \<or> (\<exists>cells name. build_dataset files = Inr cells \<and> name \<in> {ca_baseline a, ca_against a} - set (dict_keys cells)
       \<and> cmd_compare rn np sp os files a = Some (io_bind (perform os (Stderr
            (''error: condition '' @ repr_str name @ '' not found; available: '' @ repr_list (dict_keys cells)))) (\<lambda>_. io_return 2)))"
proof (cases "build_dataset files")
  case (Inl e)
  then show ?thesis by (auto simp: cmd_compare_def ends_with_def intro: silent_pure)
next
  case (Inr cells)
  let ?missing = "filter (\<lambda>name. name \<notin> set (dict_keys cells)) [ca_baseline a, ca_against a]"
  define attr where "attr = (if ca_metric a = ''latency'' then ''latency_ms'' else ''jitter_us'')"
  define u where "u = (if ca_metric a = ''latency'' then ''ms'' else ''us'')"
  define r where "r = lres_bind (Some (res_bind (cell_of cells (ca_baseline a)) (\<lambda>c. cell_attr c attr))) (\<lambda>b.
      lres_bind (Some (res_bind (cell_of cells (ca_against a)) (\<lambda>c. cell_attr c attr))) (\<lambda>p.
      compare rn np sp b p (StatName (ca_stat a)) (ca_n_boot a) (ca_ci a) (ca_seed a) ''linear''))"
  have "r \<noteq> None" unfolding r_def by (intro lres_bind_returns) (use compare_returns in auto)
  then obtain x where x: "r = Some x" by blast
  show ?thesis
  proof (cases ?missing)
    case Nil
    then have "cmd_compare rn np sp os files a = Some (case x of Inl e \<Rightarrow> ([], Inl e) | Inr r \<Rightarrow> print_comparison os a u r)"
      using Inr x by (auto simp: cmd_compare_def r_def attr_def u_def split: sum.splits)
    then show ?thesis using print_comparison_ends by (cases x) (auto simp: ends_with_def intro: silent_pure)
  next
    case (Cons name names)
    then have "name \<in> set ?missing" by (metis list.set_intros(1))
    then have "name \<in> {ca_baseline a, ca_against a} - set (dict_keys cells)" by (simp only: set_filter) simp
    moreover have "cmd_compare rn np sp os files a = Some (io_bind (perform os (Stderr
            (''error: condition '' @ repr_str name @ '' not found; available: '' @ repr_list (dict_keys cells)))) (\<lambda>_. io_return 2))"
      unfolding cmd_compare_def Inr by (simp only: sum.case Cons list.case)
    ultimately show ?thesis using Inr by blast
  qed
qed

definition stderr_of :: "effect list \<Rightarrow> effect list" where
  "stderr_of effs = filter is_stderr effs"

lemma silent_stderr: "silent (effs, r) \<longleftrightarrow> stderr_of effs = []"
  by (simp add: silent_def stderr_of_def filter_empty_conv list_all_iff)

text \<open>A command that is silent and returns 0 or raises ends, under the handler, in one of three ways.\<close>

lemma catch_silent:
  assumes "silent m" and "ends_with {0} m" and "\<forall>msg. os (Stderr msg) = Inr ()" and "catch_value_error os m = (effs, r)"
  shows "r = Inr 0 \<and> stderr_of effs = [] \<or> (\<exists>msg. r = Inr 2 \<and> stderr_of effs = [Stderr (''error: '' @ msg)])
    \<or> (\<exists>e. r = Inl e \<and> (\<forall>msg. e \<noteq> ValueError msg) \<and> stderr_of effs = [])"
proof -
  obtain es q where m: "m = (es, q)" by (cases m)
  have s: "stderr_of es = []" using assms(1) m silent_stderr by blast
  show ?thesis
  proof (cases q)
    case (Inr x)
    then show ?thesis using assms(2,4) m s by (simp add: catch_value_error_def ends_with_def)
  next
    case (Inl e)
    show ?thesis
    proof (cases "\<exists>msg. e = ValueError msg")
      case True
      then show ?thesis using assms(3,4) m s Inl by (auto simp: catch_value_error_def stderr_of_def)
    next
      case False
      then have "catch_value_error os m = m" using m Inl by (cases e) (simp_all add: catch_value_error_def)
      then show ?thesis using assms(4) m s Inl False by auto
    qed
  qed
qed

section \<open>Properties\<close>

text \<open>
  Property C39. The tool always ends, in one of three ways: status 0 with nothing on the error
  stream; status 2 with exactly one \<open>error: ...\<close> line there; or an exception that is not a
  \<open>ValueError\<close>, with nothing on the error stream before its traceback; streams that cannot be
  reconfigured do not stop it. A results directory
  that does not exist always gives status 2 and no other effect.
\<close>

theorem cli_exit_status:
  assumes "\<forall>msg. os (Stderr msg) = Inr ()" and "stream_ok (fst streams)" and "stream_ok (snd streams)"
  shows "\<exists>effs r. cli_main rn np sp os fs streams cmd = Some (effs, r)
    \<and> (r = Inr 0 \<and> stderr_of effs = [] \<or> (\<exists>msg. r = Inr 2 \<and> stderr_of effs = [Stderr (''error: '' @ msg)])
       \<or> (\<exists>e. r = Inl e \<and> (\<forall>msg. e \<noteq> ValueError msg) \<and> stderr_of effs = []))
    \<and> (fs (results_dir cmd) = None \<longrightarrow> effs = [Stderr (''error: results directory not found: '' @ results_dir cmd)] \<and> r = Inr 2)"
proof (cases "fs (results_dir cmd)")
  case None
  obtain streams' where "configure_stdout streams = Inr streams'" using configure_stdout_ok [OF assms(2,3)] by blast
  then show ?thesis using None assms(1) by (simp add: cli_main_def stderr_of_def)
next
  case (Some files)
  obtain streams' where conf: "configure_stdout streams = Inr streams'" using configure_stdout_ok [OF assms(2,3)] by blast
  consider m where "handler rn np sp os files cmd = Some m" "silent m" "ends_with {0} m"
    | msg where "handler rn np sp os files cmd = Some ([Stderr (''error: '' @ msg)], Inr 2)"
  proof (cases cmd)
    case (CmdCompare a)
    then show ?thesis using that cmd_compare_ends [of rn np sp os files a] assms(1) by (auto simp: handler_def)
  next
    case (CmdSummary a)
    then show ?thesis using that(1) cmd_summary_ends [of rn np sp os files a] by (auto simp: handler_def)
  next
    case (CmdPlot a)
    then show ?thesis using that(1) cmd_plot_ends [of np os files a] by (simp add: handler_def)
  qed
  then show ?thesis
  proof cases
    case 1
    obtain effs r where "catch_value_error os m = (effs, r)" by (cases "catch_value_error os m")
    with catch_silent [OF 1(2,3) assms(1) this] 1(1) Some conf show ?thesis by (simp add: cli_main_def)
  next
    case 2
    then show ?thesis using Some conf by (simp add: cli_main_def catch_value_error_def stderr_of_def)
  qed
qed

lemma cli_exit_status_witness:
  "cli_main rn_ref np_ref sample_sp (\<lambda>_. Inr ()) (\<lambda>_. None)
       (\<lparr>ts_encoding = ''cp949'', ts_errors = ''strict'', ts_reconfigure = Some (Inr ())\<rparr>,
        \<lparr>ts_encoding = ''cp949'', ts_errors = ''strict'', ts_reconfigure = Some (Inl (ValueError ''closed''))\<rparr>)
       (CmdPlot \<lparr>pa_results_dir = ''nowhere'', pa_out = ''out''\<rparr>)
     = Some ([Stderr ''error: results directory not found: nowhere''], Inr 2)"
  using cli_exit_status [of "\<lambda>_. Inr ()"
      "(\<lparr>ts_encoding = ''cp949'', ts_errors = ''strict'', ts_reconfigure = Some (Inr ())\<rparr>,
        \<lparr>ts_encoding = ''cp949'', ts_errors = ''strict'', ts_reconfigure = Some (Inl (ValueError ''closed''))\<rparr>)"
      rn_ref np_ref sample_sp "\<lambda>_. None" "CmdPlot \<lparr>pa_results_dir = ''nowhere'', pa_out = ''out''\<rparr>"]
  by (auto simp: results_dir_def stream_ok_def)

text \<open>
  Property C40. \<open>summary --json -\<close> writes the JSON document to the standard output last,
  after what \<open>--markdown\<close> asked for: nothing without that option, so that the output can be
  piped; the Markdown itself for \<open>--markdown -\<close>; and for a file its directory, the file and a
  line \<open>wrote <file>\<close> on the standard output. The command then returns 0, and the document
  reads back as the sanitized summary whenever the numbers in the summary are well-formed floats and
  integers of at most 4300 digits.
\<close>

theorem cli_json_stdout:
  assumes "build_summary rn np sp (sa_results_dir a) files (sa_baseline a) (sa_n_boot a) (sa_ci a) (sa_seed a) ''linear'' = Some (Inr s)"
    and "sa_json a = Some ''-''" and "\<forall>e. os e = Inr ()"
  shows "\<exists>md effs. render_markdown s = Inr md
    \<and> effs = (case sa_markdown a of None \<Rightarrow> []
        | Some p \<Rightarrow> if p = ''-'' then [Stdout md] else [Mkdir (path_parent p), WriteFile p md, Stdout (''wrote '' @ p)])
    \<and> cmd_summary rn np sp os files a = Some (case to_json s of Inr t \<Rightarrow> (effs @ [Stdout t], Inr 0) | Inl e \<Rightarrow> (effs, Inl e))
    \<and> (obj_ok (summary_obj s) \<longrightarrow> (\<exists>t. cmd_summary rn np sp os files a = Some (effs @ [Stdout t], Inr 0)
         \<and> json_read t = Some (sanitize_json (summary_obj s))))"
proof -
  obtain md where md: "render_markdown s = Inr md" using render_markdown_total [OF assms(1)] by blast
  let ?effs = "case sa_markdown a of None \<Rightarrow> []
    | Some p \<Rightarrow> if p = ''-'' then [Stdout md] else [Mkdir (path_parent p), WriteFile p md, Stdout (''wrote '' @ p)]"
  have "emit os md (sa_markdown a) False = (?effs, Inr ())"
    using assms(3) by (simp add: emit_def split: option.split)
  then have 1: "cmd_summary rn np sp os files a = Some (case to_json s of Inr t \<Rightarrow> (?effs @ [Stdout t], Inr 0) | Inl e \<Rightarrow> (?effs, Inl e))"
    using assms md by (simp add: cmd_summary_def write_summary_def split: sum.splits)
  have "\<exists>t. cmd_summary rn np sp os files a = Some (?effs @ [Stdout t], Inr 0) \<and> json_read t = Some (sanitize_json (summary_obj s))"
    if "obj_ok (summary_obj s)"
    using to_json_reads [OF that] 1 by auto
  then show ?thesis using md 1 by blast
qed

lemma cli_json_stdout_witness:
  "\<exists>s t. cmd_summary rn_ref np_ref sample_sp (\<lambda>_. Inr ()) sample_files
       \<lparr>sa_results_dir = ''results'', sa_baseline = None, sa_json = Some ''-'', sa_markdown = None, sa_n_boot = 2000, sa_ci = Num (1/2), sa_seed = 0\<rparr>
     = Some ([Stdout t], Inr 0) \<and> json_read t = Some (sanitize_json (summary_obj s))"
proof -
  let ?a = "\<lparr>sa_results_dir = ''results'', sa_baseline = None, sa_json = Some ''-'', sa_markdown = None, sa_n_boot = 2000, sa_ci = Num (1/2), sa_seed = 0\<rparr>"
  obtain s where s: "build_summary rn_ref np_ref sample_sp ''results'' sample_files None 2000 (Num (1/2)) 0 ''linear'' = Some (Inr s)"
      "obj_ok (summary_obj s)"
    using sample_summary by blast
  then have "build_summary rn_ref np_ref sample_sp (sa_results_dir ?a) sample_files (sa_baseline ?a) (sa_n_boot ?a) (sa_ci ?a) (sa_seed ?a) ''linear''
      = Some (Inr s)" by simp
  from cli_json_stdout [OF this, of "\<lambda>_. Inr ()"] s(2) show ?thesis by (intro exI [of _ s]) (auto split: sum.splits)
qed

text \<open>
  A cell that does not fit 64 bits raises \<open>OverflowError\<close> in the loader, which the handler of
  \<open>main\<close> does not catch: the tool ends with a traceback, not with status 2.
\<close>

lemma cli_overflow_escapes:
  assumes "stream_ok (fst streams)" and "stream_ok (snd streams)"
  shows "\<exists>msg. cli_main rn np sp os (\<lambda>_. Some [(''fifo_run1.csv'', csv_write [REQUIRED_COLUMNS, [''9223372036854775808'', ''1'', ''2'', ''1'', ''0'', ''128'']])])
     streams (CmdPlot \<lparr>pa_results_dir = ''results'', pa_out = ''out''\<rparr>) = Some ([], Inl (OverflowError msg))"
proof -
  let ?files = "[(''fifo_run1.csv'', csv_write [REQUIRED_COLUMNS, [''9223372036854775808'', ''1'', ''2'', ''1'', ''0'', ''128'']])]"
  have "case build_dataset ?files of Inl (OverflowError msg) \<Rightarrow> True | _ \<Rightarrow> False" by code_simp
  then obtain msg where "build_dataset ?files = Inl (OverflowError msg)" by (auto split: sum.splits py_error.splits)
  then show ?thesis using configure_stdout_ok [OF assms]
    by (auto simp: cli_main_def handler_def cmd_plot_def plot_all_def catch_value_error_def)
qed

end
