(* ===== verification/Spec2Isabelle.thy ===== *)
theory Spec2Isabelle
  imports Pipeline Workload Frames BpfMaps TcxAttach Cli
begin

text \<open>
  Verification of a testbed for time-sensitive packets: an eBPF classifier that gives
  time-sensitive traffic priority at the host's NIC, the workload programs that measure it, and the
  analysis of the measurements.

  \<^bold>\<open>The program.\<close> \<open>src/bpf\<close> holds the classifier (\<open>ts_classifier.c\<close>), a probe that
  counts packets per priority, a dummy that ends the program chain and the tool that attaches a
  program to a chain (\<open>tools/tcx_attach.c\<close>); \<open>src/testbed/bpfmaps.py\<close>
  reads and writes the classifier's maps through \<open>bpftool\<close>. \<open>src/workload\<close> holds the
  talker, which sends stamped UDP packets at a fixed interval, the listener, which records their
  arrival in a CSV file, a best-effort flood that keeps the queue busy and the sink that swallows
  it. \<open>src/analysis/tsn_analysis\<close> reads a directory of CSV files (\<open>loader\<close>), groups
  them by condition (\<open>dataset\<close>), computes percentiles, jitter, loss and DSCP counts
  (\<open>metrics\<close>) and their statistics (\<open>stats\<close>), writes tables and JSON (\<open>report\<close>) and
  figures (\<open>plots\<close>), behind a command line (\<open>cli\<close>).

  \<^bold>\<open>Foundations.\<close> \<open>Prelude\<close>: exceptions as values of \<open>py_error\<close>, fallible
  code in \<open>'a res\<close>, insertion-ordered dictionaries behind the locale \<open>ordered_dict\<close>
  (extended by \<open>group_dict\<close> and \<open>tally_dict\<close>). \<open>Float64\<close>: IEEE binary64 as exact
  rationals rounded to nearest, ties to even, with signed zeros, infinities and NaN. \<open>PyText\<close>,
  \<open>PyFormat\<close>, \<open>PyRepr\<close>: \<open>int()\<close> and \<open>float()\<close> of a text, format
  specifications, the shortest \<open>repr\<close> of a float. \<open>PyBytes\<close>: \<open>struct\<close> packing.
  \<open>PyCsv\<close>: the reader and writer of the \<open>csv\<close> module. \<open>PyJson\<close>: \<open>json.dumps\<close>
  and a reader for it. \<open>NumPy\<close>: NumPy and SciPy are parameters (records of functions) with
  their documented behaviour as the locales \<open>numpy_int\<close>, \<open>numpy_float\<close> and
  \<open>np_generator\<close>, each interpreted on an executable instance. \<open>Effects\<close>: programs as
  the trace of their calls with a value or an exception, over any type of calls, and the order in
  which calls may appear. \<open>Options\<close>: types, defaults and choices of command-line options.

  \<^bold>\<open>Components.\<close>
  \<^item> \<open>Classifier\<close> (\<open>ts_classifier.c\<close>, \<open>ts_common.h\<close>, \<open>prio_probe.c\<close>,
    \<open>tcx_dummy_ok.c\<close>): a packet is \<open>sk_buff\<close>, the maps are \<open>bpf_maps\<close>; one definition
    per function of the source, integers at their width, the loop over VLAN tags unrolled as
    \<open>vlan_loop\<close>. The kernel's helpers are the record \<open>bpf_helpers\<close> with the contract
    \<open>bpf_skb\<close> and, for a writable packet, \<open>bpf_skb_writable\<close>. The lemmas: what the program
    may change, that marking keeps the ECN bits and leaves a valid checksum valid, that every packet
    is counted, that a second run changes nothing. \<open>Frames\<close> states what a frame is (tags,
    payload, IPv4 header) and what makes it time-sensitive, and shows that the byte-level parser
    refines it.
  \<^item> \<open>BpfMaps\<close> (\<open>bpfmaps.py\<close>): the dump of a per-CPU map in both of bpftool's forms, the
    counters by name, tied to the classifier's constants, the configuration as bytes; it is the one
    the classifier reads.
  \<^item> \<open>Talker\<close>, \<open>Listener\<close>, \<open>Flood\<close> (\<open>talker.py\<close>, \<open>listener.py\<close>,
    \<open>be_flood.py\<close>, \<open>udp_sink.py\<close>): the loops over explicit sequences of clock readings,
    \<open>sendto\<close> outcomes, arrivals, timeouts and signals, each with its state record; \<open>None\<close>
    is a program that still waits when the sequence is used up. The lemmas: pacing and completion
    of the talker, exactly when the listener's loop stops, which arrivals become rows with which values
    and that the report and the file are right, the flood's rate invariant by rule induction over its
    reachable states, its end and its report, the sink's count.
    \<open>Workload\<close> holds the four programs whole, as traces of system calls around these loops:
    sockets and their options, name resolution, ready file, log, output and statistics files. The
    lemmas: the listener's files come after its port is bound and its output after the socket is
    closed, a listener run leaves a file that loads as what it recorded, a talker run completes with
    one log line per packet, the sink's statistics read back. \<open>Pipeline\<close> composes a talker
    run, the network, a listener run, the loader and loss accounting, and the classifier's mark with the
    listener and the DSCP counts.
  \<^item> \<open>TcxAttach\<close> (\<open>tools/tcx_attach.c\<close>): the three commands with their early returns;
    libbpf is the record \<open>libbpf\<close> of its answers, the contract of a chain query the locale
    \<open>tcx_query\<close>. The lemmas: when attaching succeeds, that no link outlives a failed pin, that a
    listing stays within its arrays.
  \<^item> \<open>Loader\<close>, \<open>Metrics\<close>, \<open>Dataset\<close>, \<open>Stats\<close>, \<open>Report\<close>,
    \<open>Plots\<close>, \<open>Cli\<close>: the modules of \<open>tsn_analysis\<close> by name. The lemmas: loaded runs are
    well formed and exact, bad files are refused; loss, percentiles and DSCP counts mean what
    their names say; the bootstrap ends for every chunk size but zero and stays within the sample;
    Cliff's delta by sorting equals the count over pairs; a summary is complete, its tables are
    rectangular under their headers, its JSON is standard and loses nothing; figures put only positive values on
    logarithmic axes; the tool's exit status and streams.

  \<^bold>\<open>Bounds.\<close> The JSON reader takes fuel, twice the length of the text and one more, which
  is enough for every text the writer produces (\<open>PyJson.json_read_dumps\<close>). The bootstrap's
  loop is a partial function into \<open>option\<close>, total by \<open>Stats.bootstrap_ci_returns\<close>. No
  other definition is bounded. Texts are strings of the characters up to U+00FF. The classifier's
  host is little-endian, which fixes how two header bytes form the checksum's 16-bit words.
  Messages of exceptions are the part that the sources write literally.

  \<^bold>\<open>Effects left to their callers.\<close> \<open>write_json\<close> gives the path and text; the
  directory it creates and the file it writes are effects of \<open>Cli.write_summary\<close>. The sink's signals
  are delivered while \<open>recv\<close> blocks: one that arrives between its return and the loop's test
  has the effect of one that arrived just before that datagram, and one before the first
  \<open>recv\<close>, which ends the sink with nothing counted, is left out.

  \<^bold>\<open>Not modelled.\<close> How \<open>argparse\<close> matches the words of a command line
  to options (abbreviations, negative numbers, interleaving): the programs start from the options
  given, and their types, defaults and choices are modelled. The wording of the messages of the workload programs, which is Korean
  and outside the model's texts; the numbers they print are modelled. In the talker's trace the log
  lines of a run that has not ended, or whose loop raised, and failing writes to the open log.
  What Matplotlib draws from the calls it is given,
  and the line widths, edge colours and text alignment among their arguments. The shell scripts of the
  testbed, the tests and the documentation; the kernel's queueing disciplines and its choice of which
  program of a chain to run.
\<close>

end
